(* ===== verification/Prelude.thy ===== *)
theory Prelude
  imports Main "HOL-Library.Word"
begin

text \<open>
  Shared vocabulary of the development: the Go types of the sources (bytes, fixed-width
  unsigned integers, addresses, hashes), the byte-level codecs of \<open>encoding/binary\<close> and
  \<open>math/big\<close>, the searches of the \<open>bytes\<close> package, and the lemmas on them that the
  component theories use through the collection \<open>codec\<close>.

  Conventions. A Go \<open>uintN\<close> is an \<open>N word\<close>, so addition and subtraction wrap as in Go;
  a \<open>*big.Int\<close> is an \<open>int\<close>, and an \<open>int option\<close> where the code tests it for nil;
  \<open>common.Address\<close> and \<open>common.Hash\<close> are words of 160 and 256 bits, and the zero value of
  the Go array is the word 0; a byte slice is a list of 8-bit words.
\<close>

named_theorems codec "byte-level encoders and decoders"

section \<open>Types of the sources\<close>

type_synonym byte = "8 word"
type_synonym bytes = "byte list"
type_synonym u8 = "8 word"
type_synonym u16 = "16 word"
type_synonym u32 = "32 word"
type_synonym u64 = "64 word"
type_synonym u256 = "256 word"
type_synonym address = "160 word"
type_synonym hash = "256 word"

abbreviation max_u64 :: u64 where
  "max_u64 \<equiv> - 1"

section \<open>Strings and byte strings\<close>

definition str_bytes :: "string \<Rightarrow> bytes" where
  "str_bytes s = map of_char s"

text \<open>\<open>bytes.HasPrefix(l, m)\<close>.\<close>

definition has_prefix :: "bytes \<Rightarrow> bytes \<Rightarrow> bool" where
  "has_prefix m l \<longleftrightarrow> take (length m) l = m"

text \<open>\<open>bytes.Index(l, m)\<close> and \<open>bytes.LastIndex(l, m)\<close>; None stands for -1.\<close>

fun bytes_index :: "bytes \<Rightarrow> bytes \<Rightarrow> nat option" where
  "bytes_index [] m = (if m = [] then Some 0 else None)"
| "bytes_index (x # l) m =
     (if has_prefix m (x # l) then Some 0 else map_option Suc (bytes_index l m))"

fun bytes_last_index :: "bytes \<Rightarrow> bytes \<Rightarrow> nat option" where
  "bytes_last_index [] m = (if m = [] then Some 0 else None)"
| "bytes_last_index (x # l) m =
     (case bytes_last_index l m of
        Some i \<Rightarrow> Some (Suc i)
      | None \<Rightarrow> (if has_prefix m (x # l) then Some 0 else None))"

text \<open>\<open>b[i:j]\<close>, used only where the code has checked the bounds.\<close>

definition slice :: "nat \<Rightarrow> nat \<Rightarrow> 'a list \<Rightarrow> 'a list" where
  "slice i j l = take (j - i) (drop i l)"

text \<open>\<open>xs[i]\<close>: an index out of range panics, which is None.\<close>

definition index_get :: "'a list \<Rightarrow> nat \<Rightarrow> 'a option" where
  "index_get xs i = (if i < length xs then Some (xs ! i) else None)"

text \<open>\<open>bits.Len64\<close> and \<open>big.Int.BitLen\<close>.\<close>

fun bit_length :: "nat \<Rightarrow> nat" where
  "bit_length n = (if n = 0 then 0 else Suc (bit_length (n div 2)))"

declare bit_length.simps [simp del]

text \<open>\<open>sort.Search(n, f)\<close>: binary search between \<open>i\<close> and \<open>j\<close>.\<close>

function sort_search_loop :: "(nat \<Rightarrow> bool) \<Rightarrow> nat \<Rightarrow> nat \<Rightarrow> nat" where
  "sort_search_loop f i j =
     (if i < j then
        let h = (i + j) div 2 in if \<not> f h then sort_search_loop f (h + 1) j else sort_search_loop f i h
      else i)"
  by pat_completeness auto
termination by (relation "measure (\<lambda>(f, i, j). j - i)") auto

declare sort_search_loop.simps [simp del]

definition sort_Search :: "nat \<Rightarrow> (nat \<Rightarrow> bool) \<Rightarrow> nat" where
  "sort_Search n f = sort_search_loop f 0 n"

section \<open>Big-endian integers\<close>

text \<open>\<open>binary.BigEndian.PutUintN\<close> and \<open>FillBytes\<close>: exactly \<open>n\<close> bytes.\<close>

fun be_bytes :: "nat \<Rightarrow> nat \<Rightarrow> bytes" where
  "be_bytes 0 x = []"
| "be_bytes (Suc n) x = be_bytes n (x div 256) @ [of_nat x]"

text \<open>\<open>binary.BigEndian.UintN\<close> and \<open>new(big.Int).SetBytes\<close>.\<close>

definition be_nat :: "bytes \<Rightarrow> nat" where
  "be_nat bs = foldl (\<lambda>a b. a * 256 + unat b) 0 bs"

text \<open>\<open>x.Bytes()\<close> of a non-negative \<open>big.Int\<close>: no leading zero byte.\<close>

fun big_bytes :: "nat \<Rightarrow> bytes" where
  "big_bytes x = (if x = 0 then [] else big_bytes (x div 256) @ [of_nat x])"

declare big_bytes.simps [simp del]

definition u64_bytes :: "u64 \<Rightarrow> bytes" where
  "u64_bytes x = be_bytes 8 (unat x)"

definition u32_bytes :: "u32 \<Rightarrow> bytes" where
  "u32_bytes x = be_bytes 4 (unat x)"

definition u16_bytes :: "u16 \<Rightarrow> bytes" where
  "u16_bytes x = be_bytes 2 (unat x)"

definition hash_bytes :: "hash \<Rightarrow> bytes" where
  "hash_bytes h = be_bytes 32 (unat h)"

definition addr_bytes :: "address \<Rightarrow> bytes" where
  "addr_bytes a = be_bytes 20 (unat a)"

text \<open>
  \<open>common.BytesToHash\<close> and \<open>common.BytesToAddress\<close> keep the rightmost 32 and 20 bytes;
  reading the bytes as one number and reducing it to the width does the same.
\<close>

definition bytes_hash :: "bytes \<Rightarrow> hash" where
  "bytes_hash bs = of_nat (be_nat bs)"

definition bytes_addr :: "bytes \<Rightarrow> address" where
  "bytes_addr bs = of_nat (be_nat bs)"

text \<open>\<open>b.BitLen()\<close> for a non-negative big integer is at most 256.\<close>

definition fits256 :: "int \<Rightarrow> bool" where
  "fits256 n \<longleftrightarrow> n < 2 ^ 256"

section \<open>Lemmas on the codecs\<close>

lemma be_nat_Nil [simp]: "be_nat [] = 0"
  by (simp add: be_nat_def)

lemma be_nat_snoc [simp]: "be_nat (bs @ [b]) = be_nat bs * 256 + unat b"
  by (simp add: be_nat_def)

lemma be_nat_bound: "be_nat bs < 256 ^ length bs"
proof (induction bs rule: rev_induct)
  case Nil
  then show ?case by simp
next
  case (snoc b bs)
  have "unat b < 256"
    using unsigned_less [of b] by simp
  moreover have "be_nat bs + 1 \<le> 256 ^ length bs"
    using snoc by simp
  then have "be_nat bs * 256 + 256 \<le> 256 ^ length bs * 256"
    by (metis add_mult_distrib mult_1 mult_le_mono1)
  ultimately show ?case by simp
qed

lemma length_be_bytes [simp, codec]: "length (be_bytes n x) = n"
  by (induction n arbitrary: x) auto

lemma unat_of_nat_byte [simp]: "unat (of_nat x :: byte) = x mod 256"
  by (simp add: unat_of_nat)

lemma be_nat_be_bytes [simp, codec]: "be_nat (be_bytes n x) = x mod 256 ^ n"
proof (induction n arbitrary: x)
  case 0
  then show ?case by simp
next
  case (Suc n)
  then show ?case
    by (simp add: mod_mult2_eq mult.commute)
qed

lemma be_bytes_be_nat [simp, codec]: "be_bytes (length bs) (be_nat bs) = bs"
proof (induction bs rule: rev_induct)
  case Nil
  then show ?case by simp
next
  case (snoc b bs)
  have "unat b < 256"
    using unsigned_less [of b] by simp
  moreover have "(256 :: byte) = 0"
    by simp
  then have "(of_nat (be_nat bs * 256 + unat b) :: byte) = b"
    by (simp only: of_nat_add of_nat_mult of_nat_numeral of_nat_unat ucast_id) simp
  ultimately show ?case
    using snoc by (simp add: div_mult_self3 add.commute)
qed

lemma be_bytes_inj:
  "be_bytes n x = be_bytes n y \<Longrightarrow> x mod 256 ^ n = y mod 256 ^ n"
  by (metis be_nat_be_bytes)

lemma be_nat_append: "be_nat (xs @ ys) = be_nat xs * 256 ^ length ys + be_nat ys"
  by (induction ys rule: rev_induct) (simp_all flip: append_assoc add: algebra_simps)

lemma be_nat_big_bytes [simp, codec]: "be_nat (big_bytes x) = x"
proof (induction x rule: big_bytes.induct)
  case (1 x)
  then show ?case
    by (subst big_bytes.simps) auto
qed

lemma length_word_bytes [simp, codec]:
  "length (u64_bytes x) = 8" "length (u32_bytes y) = 4" "length (u16_bytes z) = 2"
  "length (hash_bytes h) = 32" "length (addr_bytes a) = 20"
  by (simp_all add: u64_bytes_def u32_bytes_def u16_bytes_def hash_bytes_def addr_bytes_def)

lemma word_bytes_decode [simp, codec]:
  "of_nat (be_nat (u64_bytes x)) = x"
  "of_nat (be_nat (u32_bytes y)) = y"
  "of_nat (be_nat (u16_bytes z)) = z"
  "bytes_hash (hash_bytes h) = h"
  "bytes_addr (addr_bytes a) = a"
proof -
  have *: "unat x < 256 ^ 8" "unat y < 256 ^ 4" "unat z < 256 ^ 2" "unat h < 256 ^ 32"
    "unat a < 256 ^ 20"
    using unsigned_less [of x] unsigned_less [of y] unsigned_less [of z] unsigned_less [of h] unsigned_less [of a]
    by simp_all
  show "of_nat (be_nat (u64_bytes x)) = x" "of_nat (be_nat (u32_bytes y)) = y"
    "of_nat (be_nat (u16_bytes z)) = z" "bytes_hash (hash_bytes h) = h"
    "bytes_addr (addr_bytes a) = a"
    by (simp_all only: u64_bytes_def u32_bytes_def u16_bytes_def hash_bytes_def addr_bytes_def
        bytes_hash_def bytes_addr_def be_nat_be_bytes mod_less * of_nat_unat ucast_id)
qed

lemma word_bytes_inject [simp]:
  "u64_bytes x = u64_bytes x' \<longleftrightarrow> x = x'"
  "hash_bytes h = hash_bytes h' \<longleftrightarrow> h = h'"
  "addr_bytes a = addr_bytes a' \<longleftrightarrow> a = a'"
  by (metis word_bytes_decode(1), metis word_bytes_decode(4), metis word_bytes_decode(5))

section \<open>Lemmas on searching\<close>

lemma length_str_bytes [simp]: "length (str_bytes s) = length s"
  by (simp add: str_bytes_def)

lemma has_prefix_append [simp]: "has_prefix m (m @ l)"
  by (simp add: has_prefix_def)

lemma has_prefix_drop: "has_prefix m (drop (length a) (a @ m @ l))"
  by simp

lemma has_prefix_iff: "has_prefix m l \<longleftrightarrow> (\<exists>r. l = m @ r)"
  by (metis append_eq_conv_conj has_prefix_def append_take_drop_id)

lemma slice_length: "j \<le> length l \<Longrightarrow> length (slice i j l) = j - i"
  by (simp add: slice_def)

text \<open>What a found index means: the marker stands there, and nowhere before.\<close>

lemma bytes_index_Some:
  "bytes_index l m = Some i \<Longrightarrow>
     i \<le> length l \<and> has_prefix m (drop i l) \<and> (\<forall>j < i. \<not> has_prefix m (drop j l))"
proof (induction l arbitrary: i)
  case Nil
  then show ?case by (auto simp: has_prefix_def split: if_splits)
next
  case (Cons x l)
  show ?case
  proof (cases "has_prefix m (x # l)")
    case True
    with Cons.prems show ?thesis by simp
  next
    case False
    with Cons.prems obtain k where k: "bytes_index l m = Some k" "i = Suc k" by auto
    have "\<not> has_prefix m (drop j (x # l))" if "j < i" for j
      using that False Cons.IH [OF k(1)] k(2) by (cases j) auto
    with Cons.IH [OF k(1)] k(2) show ?thesis by auto
  qed
qed

lemma bytes_index_None:
  "bytes_index l m = None \<longleftrightarrow> (\<forall>j \<le> length l. \<not> has_prefix m (drop j l))"
proof (induction l)
  case Nil
  then show ?case by (auto simp: has_prefix_def)
next
  case (Cons x l)
  show ?case
  proof
    assume "bytes_index (x # l) m = None"
    then have "\<not> has_prefix m (x # l)" "bytes_index l m = None"
      by (auto split: if_splits)
    then show "\<forall>j \<le> length (x # l). \<not> has_prefix m (drop j (x # l))"
      using Cons by (metis Suc_le_mono drop0 drop_Suc_Cons length_Cons not0_implies_Suc)
  next
    assume a: "\<forall>j \<le> length (x # l). \<not> has_prefix m (drop j (x # l))"
    then have "\<not> has_prefix m (x # l)" by force
    moreover have "\<forall>j \<le> length l. \<not> has_prefix m (drop j l)"
      using a by (metis Suc_le_mono drop_Suc_Cons length_Cons)
    ultimately show "bytes_index (x # l) m = None" using Cons by simp
  qed
qed

lemma bytes_indexI:
  assumes "i \<le> length l" "has_prefix m (drop i l)" "\<And>j. j < i \<Longrightarrow> \<not> has_prefix m (drop j l)"
  shows "bytes_index l m = Some i"
proof (cases "bytes_index l m")
  case None
  with assms show ?thesis by (auto simp: bytes_index_None)
next
  case (Some k)
  with bytes_index_Some [OF Some] assms show ?thesis
    by (metis linorder_neqE_nat)
qed

text \<open>
  A marker none of whose proper suffixes is one of its prefixes cannot overlap itself:
  appending it to bytes that do not contain it creates one occurrence, at the seam.
\<close>

definition border_free :: "bytes \<Rightarrow> bool" where
  "border_free m \<longleftrightarrow> (\<forall>k \<in> {1..<length m}. drop k m \<noteq> take (length m - k) m)"

lemma marker_no_overlap:
  assumes "border_free m" "m \<noteq> []" "bytes_index a m = None" "j < length a"
  shows "\<not> has_prefix m (drop j (a @ m @ b))"
proof
  assume p: "has_prefix m (drop j (a @ m @ b))"
  let ?d = "length a - j"
  show False
  proof (cases "length m \<le> ?d")
    case True
    with p assms(4) have "has_prefix m (drop j a)"
      by (simp add: has_prefix_def)
    with assms show False by (auto simp: bytes_index_None)
  next
    case False
    have d: "?d \<in> {1..<length m}" using False assms(4) by auto
    have e: "m = drop j a @ take (length m - ?d) (m @ b)"
      using p False assms(4) by (simp add: has_prefix_def)
    have "drop ?d m = drop ?d (drop j a @ take (length m - ?d) (m @ b))"
      using e by presburger
    also have "\<dots> = take (length m - ?d) m"
      using assms(4) d by simp
    finally show False using d assms(1) by (auto simp: border_free_def)
  qed
qed

lemma bytes_index_append_marker:
  assumes "border_free m" "m \<noteq> []" "bytes_index a m = None"
  shows "bytes_index (a @ m @ b) m = Some (length a)"
  by (rule bytes_indexI) (use marker_no_overlap [OF assms] in auto)

section \<open>Bounds of machine words\<close>

lemma byte_le_max: "(h :: byte) \<le> 0xFF"
  using unsigned_less [of h] by (simp add: word_le_nat_alt less_Suc_eq_le [symmetric])

lemma unat_ucast_byte [simp]: "unat (ucast (d :: byte) :: u64) = unat d"
proof -
  have "unat d < 256" using unsigned_less [of d] by simp
  then show ?thesis by (simp add: unsigned_ucast_eq take_bit_nat_eq_self)
qed

lemma unat_u64_bound: "unat (x :: u64) < 2 ^ 64"
  using unsigned_less [of x] by simp

lemma unat_max_u64: "unat max_u64 = 2 ^ 64 - 1"
  by (simp add: unsigned_minus_1_eq_mask mask_eq_exp_minus_1)

lemma unat_of_nat_u64: "n < 2 ^ 64 \<Longrightarrow> unat (of_nat n :: u64) = n"
  by (simp add: unat_of_nat take_bit_nat_eq_self)

lemma unat_of_nat_below: "n \<le> unat (x :: u64) \<Longrightarrow> unat (of_nat n :: u64) = n"
  using unat_u64_bound [of x] by (intro unat_of_nat_u64) simp

section \<open>Right-aligned big integers\<close>

text \<open>
  The idiom \<open>copy(word[len(word)-len(b):], b)\<close> for the last \<open>n\<close> bytes \<open>b\<close> of
  \<open>x.Bytes()\<close>; \<open>Bytes\<close> drops the sign.
\<close>

definition right_aligned :: "nat \<Rightarrow> int \<Rightarrow> bytes" where
  "right_aligned n x =
     (let b = big_bytes (nat \<bar>x\<bar>);
          b = (if length b > n then drop (length b - n) b else b)
      in replicate (n - length b) 0 @ b)"

lemma be_bytes_0: "be_bytes n 0 = replicate n 0"
  by (induction n) (simp_all add: replicate_append_same)

lemma be_bytes_big_bytes:
  "be_bytes n x = replicate (n - length (big_bytes x)) 0 @ drop (length (big_bytes x) - n) (big_bytes x)"
proof (induction n arbitrary: x)
  case (Suc n)
  show ?case
  proof (cases "x = 0")
    case True
    then show ?thesis
      by (simp add: be_bytes_0 big_bytes.simps [of 0] replicate_append_same del: replicate_Suc)
  next
    case False
    then show ?thesis by (simp add: Suc [of "x div 256"] big_bytes.simps [of x])
  qed
qed simp

lemma right_aligned_be_bytes [codec]: "right_aligned n x = be_bytes n (nat \<bar>x\<bar>)"
  by (simp add: right_aligned_def be_bytes_big_bytes Let_def)

section \<open>Binary search\<close>

text \<open>On a predicate that stays true once it is true, the search finds the first index.\<close>

lemma sort_search_loop_least:
  assumes "i \<le> m" "m \<le> j" "\<And>k. k < m \<Longrightarrow> \<not> f k" "\<And>k. m \<le> k \<Longrightarrow> k < j \<Longrightarrow> f k"
  shows "sort_search_loop f i j = m"
  using assms
proof (induction f i j rule: sort_search_loop.induct)
  case (1 f i j)
  show ?case
  proof (cases "i < j")
    case True
    let ?h = "(i + j) div 2"
    have h: "i \<le> ?h" "?h < j" using True by auto
    show ?thesis
    proof (cases "?h < m")
      case less: True
      then have "\<not> f ?h" using 1 by blast
      moreover have "sort_search_loop f (?h + 1) j = m"
        using 1(1) [OF True refl \<open>\<not> f ?h\<close>] 1(3-6) less by auto
      ultimately show ?thesis using True by (subst sort_search_loop.simps) (simp add: Let_def)
    next
      case False
      then have "f ?h" using 1 h by simp
      moreover have "sort_search_loop f i ?h = m"
        using 1(2) [OF True refl] \<open>f ?h\<close> 1(3-6) False h by auto
      ultimately show ?thesis using True by (subst sort_search_loop.simps) (simp add: Let_def)
    qed
  next
    case False
    with 1 show ?thesis by (subst sort_search_loop.simps) simp
  qed
qed

lemma sort_search_loop_le: "i \<le> j \<Longrightarrow> sort_search_loop f i j \<le> j"
proof (induction f i j rule: sort_search_loop.induct)
  case (1 f i j)
  let ?h = "(i + j) div 2"
  show ?case
  proof (cases "i < j")
    case True
    then have "?h + 1 \<le> j" "i \<le> ?h" "?h \<le> j" by auto
    then show ?thesis
      using 1(1) [OF True refl] 1(2) [OF True refl] True
      by (subst sort_search_loop.simps) (auto simp: Let_def)
  next
    case False
    with 1 show ?thesis by (subst sort_search_loop.simps) simp
  qed
qed

lemma sort_Search_le: "sort_Search n f \<le> n"
  by (simp add: sort_Search_def sort_search_loop_le)

lemma sort_Search_least:
  assumes "m \<le> n" "\<And>k. k < m \<Longrightarrow> \<not> f k" "\<And>k. m \<le> k \<Longrightarrow> k < n \<Longrightarrow> f k"
  shows "sort_Search n f = m"
  unfolding sort_Search_def using assms by (intro sort_search_loop_least) auto

section \<open>Results\<close>

lemma map_sum_eq_Inr: "map_sum f g r = Inr y \<longleftrightarrow> (\<exists>x. r = Inr x \<and> y = g x)"
  by (cases r) auto

section \<open>Bit lengths\<close>

lemma bit_length_numeral:
  "bit_length (numeral (Num.Bit0 n)) = bit_length (numeral n) + 1"
  "bit_length (numeral (Num.Bit1 n)) = bit_length (numeral n) + 1"
  "bit_length (Suc 0) = 1" "bit_length 1 = 1" "bit_length 0 = 0"
  by (simp_all add: bit_length.simps [of "numeral (Num.Bit0 n)"]
      bit_length.simps [of "numeral (Num.Bit1 n)"] bit_length.simps [of "Suc 0"]
      bit_length.simps [of 0])

lemma bit_length_less: "n < 2 ^ k \<longleftrightarrow> bit_length n \<le> k"
proof (induction k arbitrary: n)
  case 0
  then show ?case by (simp add: bit_length.simps [of n])
next
  case (Suc k)
  show ?case
  proof (cases "n = 0")
    case False
    then have "n < 2 ^ Suc k \<longleftrightarrow> n div 2 < 2 ^ k" by auto
    with Suc [of "n div 2"] False show ?thesis by (simp add: bit_length.simps [of n])
  qed (simp add: bit_length.simps [of 0])
qed

end
