(* ===== verification/State.thy ===== *)
theory State
  imports Prelude
begin

text \<open>
  The part of \<open>core/state\<close> that the consensus components use: account balances and the
  storage words of an account, with \<open>AddBalance\<close>, \<open>SubBalance\<close>, \<open>GetBalance\<close>,
  \<open>GetState\<close> and \<open>SetState\<close>. Journaling, tries and the database are not modelled: the
  components below never revert in the middle of an operation.

  A storage key is the output of a hash function; the type of keys is the type variable
  \<open>'k\<close>, so that a component can take its hash function as an argument and say what it
  assumes of it. The locale \<open>ledger\<close> is the interface of every component that credits
  accounts, \<open>debit_ledger\<close> the one of those that also debit them; both are interpreted
  on the operations of this theory.
\<close>

named_theorems state_simps "reads after writes on the state"

section \<open>The state and its operations\<close>

record 'k statedb =
  balances :: "address \<Rightarrow> u256"
  storage :: "address \<Rightarrow> 'k \<Rightarrow> hash"

definition GetBalance :: "'k statedb \<Rightarrow> address \<Rightarrow> u256" where
  "GetBalance st a = balances st a"

definition AddBalance :: "address \<Rightarrow> u256 \<Rightarrow> 'k statedb \<Rightarrow> 'k statedb" where
  "AddBalance a v st =
     (if v = 0 then st else st\<lparr>balances := (balances st)(a := balances st a + v)\<rparr>)"

definition SubBalance :: "address \<Rightarrow> u256 \<Rightarrow> 'k statedb \<Rightarrow> 'k statedb" where
  "SubBalance a v st =
     (if v = 0 then st else st\<lparr>balances := (balances st)(a := balances st a - v)\<rparr>)"

definition GetState :: "'k statedb \<Rightarrow> address \<Rightarrow> 'k \<Rightarrow> hash" where
  "GetState st a k = storage st a k"

definition SetState :: "address \<Rightarrow> 'k \<Rightarrow> hash \<Rightarrow> 'k statedb \<Rightarrow> 'k statedb" where
  "SetState a k v st = st\<lparr>storage := (storage st)(a := (storage st a)(k := v))\<rparr>"

text \<open>
  \<open>uint256.MustFromBig\<close> panics on a value whose magnitude does not fit 256 bits; a panic is None.
  A negative value is taken modulo 2^256.
\<close>

definition MustFromBig :: "int \<Rightarrow> u256 option" where
  "MustFromBig n = (if \<bar>n\<bar> < 2 ^ 256 then Some (of_int n) else None)"

text \<open>
  The recurring statement \<open>if amount.Sign() > 0 && addr != (common.Address{})
  { state.AddBalance(addr, uint256.MustFromBig(amount), ...) }\<close>.
\<close>

definition pay :: "address \<Rightarrow> int \<Rightarrow> 'k statedb \<Rightarrow> 'k statedb option" where
  "pay a v st =
     (if v > 0 \<and> a \<noteq> 0 then map_option (\<lambda>w. AddBalance a w st) (MustFromBig v) else Some st)"

text \<open>A sequence of such statements.\<close>

primrec pays :: "(address \<times> int) list \<Rightarrow> 'k statedb \<Rightarrow> 'k statedb option" where
  "pays [] st = Some st"
| "pays (p # ps) st = Option.bind (pay (fst p) (snd p) st) (pays ps)"

section \<open>Reads after writes\<close>

lemma GetBalance_AddBalance [simp, state_simps]:
  "GetBalance (AddBalance a v st) b = (if b = a then GetBalance st b + v else GetBalance st b)"
  by (simp add: GetBalance_def AddBalance_def)

lemma GetBalance_SubBalance [simp, state_simps]:
  "GetBalance (SubBalance a v st) b = (if b = a then GetBalance st b - v else GetBalance st b)"
  by (simp add: GetBalance_def SubBalance_def)

lemma GetBalance_SetState [simp, state_simps]:
  "GetBalance (SetState c k v st) b = GetBalance st b"
  by (simp add: GetBalance_def SetState_def)

lemma GetState_SetState [simp, state_simps]:
  "GetState (SetState a k v st) b j = (if b = a \<and> j = k then v else GetState st b j)"
  by (simp add: GetState_def SetState_def)

lemma GetState_balance [simp, state_simps]:
  "GetState (AddBalance a v st) b j = GetState st b j"
  "GetState (SubBalance a v st) b j = GetState st b j"
  by (simp_all add: GetState_def AddBalance_def SubBalance_def)

lemma MustFromBig_Some [simp]:
  "0 \<le> n \<Longrightarrow> MustFromBig n = Some w \<longleftrightarrow> n < 2 ^ 256 \<and> w = of_int n"
  by (auto simp: MustFromBig_def)

lemma uint_of_int_fits: "0 \<le> n \<Longrightarrow> n < 2 ^ 256 \<Longrightarrow> uint (of_int n :: u256) = n"
  by (simp add: uint_word_of_int_eq take_bit_eq_mod)

section \<open>Interfaces: ledgers\<close>

text \<open>
  What a client relies on when it credits accounts: one account changes, by 256-bit
  addition. The total of all balances then grows by the credited value as long as it
  stays below the width, which bounds every single balance.
\<close>

locale ledger =
  fixes credit :: "address \<Rightarrow> u256 \<Rightarrow> 's \<Rightarrow> 's"
    and bal :: "'s \<Rightarrow> address \<Rightarrow> u256"
  assumes bal_credit: "bal (credit a v s) b = (if b = a then bal s b + v else bal s b)"
begin

lemma bal_le_total: "uint (bal s a) \<le> (\<Sum>b \<in> UNIV. uint (bal s b))"
  by (rule member_le_sum) auto

lemma total_credit:
  assumes "(\<Sum>b \<in> UNIV. uint (bal s b)) + uint v < 2 ^ 256"
  shows "(\<Sum>b \<in> UNIV. uint (bal (credit a v s) b)) = (\<Sum>b \<in> UNIV. uint (bal s b)) + uint v"
proof -
  have "uint (bal s a) + uint v < 2 ^ 256"
    using bal_le_total [of s a] assms by linarith
  then have "uint (bal s a + v) = uint (bal s a) + uint v"
    by (simp add: uint_word_ariths)
  then have "(\<Sum>b \<in> UNIV. uint (bal (credit a v s) b)) =
      (\<Sum>b \<in> UNIV. uint (bal s b) + (if b = a then uint v else 0))"
    by (intro sum.cong) (auto simp: bal_credit)
  also have "\<dots> = (\<Sum>b \<in> UNIV. uint (bal s b)) + uint v"
    by (simp add: sum.distrib)
  finally show ?thesis .
qed

end

locale debit_ledger = ledger +
  fixes debit :: "address \<Rightarrow> u256 \<Rightarrow> 's \<Rightarrow> 's"
  assumes bal_debit: "bal (debit a v s) b = (if b = a then bal s b - v else bal s b)"
begin

lemma total_debit:
  assumes "uint v \<le> uint (bal s a)"
  shows "(\<Sum>b \<in> UNIV. uint (bal (debit a v s) b)) = (\<Sum>b \<in> UNIV. uint (bal s b)) - uint v"
proof -
  have "uint (bal s a - v) = uint (bal s a) - uint v"
    using assms by (simp add: uint_sub_lem)
  then have "(\<Sum>b \<in> UNIV. uint (bal (debit a v s) b)) =
      (\<Sum>b \<in> UNIV. uint (bal s b) - (if b = a then uint v else 0))"
    by (intro sum.cong) (auto simp: bal_debit)
  also have "\<dots> = (\<Sum>b \<in> UNIV. uint (bal s b)) - uint v"
    by (simp add: sum_subtractf)
  finally show ?thesis .
qed

lemma total_transfer:
  assumes "uint v \<le> uint (bal s a)" "(\<Sum>b \<in> UNIV. uint (bal s b)) < 2 ^ 256"
  shows "(\<Sum>b \<in> UNIV. uint (bal (credit c v (debit a v s)) b)) = (\<Sum>b \<in> UNIV. uint (bal s b))"
proof -
  have "(\<Sum>b \<in> UNIV. uint (bal (debit a v s) b)) = (\<Sum>b \<in> UNIV. uint (bal s b)) - uint v"
    by (rule total_debit [OF assms(1)])
  with total_credit [of "debit a v s" v c] assms(2) show ?thesis by simp
qed

end

interpretation led: debit_ledger AddBalance GetBalance SubBalance
  by unfold_locales simp_all

text \<open>The money in existence according to a state.\<close>

definition total_supply :: "'k statedb \<Rightarrow> int" where
  "total_supply st = (\<Sum>a \<in> UNIV. uint (GetBalance st a))"

lemma total_supply_nonneg: "0 \<le> total_supply st"
  by (simp add: total_supply_def sum_nonneg)

lemma total_supply_SetState [simp]: "total_supply (SetState a k v st) = total_supply st"
  by (simp add: total_supply_def)

lemma total_supply_AddBalance:
  "total_supply st + uint v < 2 ^ 256 \<Longrightarrow>
     total_supply (AddBalance a v st) = total_supply st + uint v"
  using led.total_credit [of st v a] by (simp add: total_supply_def)

lemma pay_total:
  assumes "0 \<le> v" "total_supply st + v < 2 ^ 256"
  shows "\<exists>st'. pay a v st = Some st' \<and>
    total_supply st' = total_supply st + (if a = 0 then 0 else v) \<and> storage st' = storage st"
proof (cases "v > 0 \<and> a \<noteq> 0")
  case True
  have v: "v < 2 ^ 256"
    using assms total_supply_nonneg [of st] by linarith
  then have "uint (of_int v :: u256) = v"
    using assms(1) by (rule uint_of_int_fits [rotated])
  with True v assms show ?thesis
    by (auto simp: pay_def MustFromBig_def total_supply_AddBalance)
      (simp add: AddBalance_def)
next
  case False
  with assms show ?thesis by (auto simp: pay_def)
qed

text \<open>What a sequence of payments credits to one address.\<close>

definition paid_to :: "address \<Rightarrow> (address \<times> int) list \<Rightarrow> int" where
  "paid_to a ps = (\<Sum>p \<leftarrow> ps. if fst p = a \<and> a \<noteq> 0 then snd p else 0)"

lemma pays_fun:
  "pays [] = Some" "pays (p # ps) = (\<lambda>st. Option.bind (pay (fst p) (snd p) st) (pays ps))"
  by (simp_all add: fun_eq_iff)

lemma pays_append: "pays (ps @ qs) st = Option.bind (pays ps st) (pays qs)"
  by (induction ps arbitrary: st) (auto split: bind_splits)

lemma pays_total:
  assumes "list_all (\<lambda>p. 0 \<le> snd p) ps" "total_supply st + (\<Sum>p \<leftarrow> ps. snd p) < 2 ^ 256"
  shows "\<exists>st'. pays ps st = Some st' \<and> storage st' = storage st \<and>
    total_supply st' = total_supply st + (\<Sum>p \<leftarrow> ps. if fst p = 0 then 0 else snd p)"
  using assms
proof (induction ps arbitrary: st)
  case (Cons p ps)
  have rest: "0 \<le> (\<Sum>p \<leftarrow> ps. snd p)"
    using Cons.prems(1) by (auto intro!: sum_list_nonneg simp: list_all_iff)
  obtain st1 where st1: "pay (fst p) (snd p) st = Some st1" "storage st1 = storage st"
    "total_supply st1 = total_supply st + (if fst p = 0 then 0 else snd p)"
    using pay_total [of "snd p" st "fst p"] Cons.prems rest by auto
  have "total_supply st1 + (\<Sum>p \<leftarrow> ps. snd p) < 2 ^ 256"
    using st1(3) Cons.prems by (auto split: if_splits)
  then show ?case
    using Cons.IH [of st1] Cons.prems(1) st1 by auto
qed simp

lemma pay_balance:
  assumes "pay b v st = Some st'"
  shows "GetBalance st' a = GetBalance st a + (if b = a \<and> a \<noteq> 0 \<and> v > 0 then of_int v else 0)"
  using assms by (auto simp: pay_def split: if_splits)

lemma pays_balance:
  assumes "pays ps st = Some st'" "list_all (\<lambda>p. 0 \<le> snd p) ps"
  shows "GetBalance st' a = GetBalance st a + of_int (paid_to a ps)"
  using assms
proof (induction ps arbitrary: st)
  case (Cons p ps)
  then obtain st1 where st1: "pay (fst p) (snd p) st = Some st1" "pays ps st1 = Some st'"
    by (auto split: bind_splits)
  have "GetBalance st1 a = GetBalance st a + of_int (if fst p = a \<and> a \<noteq> 0 then snd p else 0)"
    using pay_balance [OF st1(1), of a] Cons.prems(2) by auto
  then show ?case
    using Cons.IH [OF st1(2)] Cons.prems(2) by (simp add: paid_to_def)
qed (simp add: paid_to_def)

lemma pay_0 [simp]: "pay a 0 st = Some st" "pay 0 v st = Some st"
  by (simp_all add: pay_def)

lemma AddBalance_twice: "AddBalance a w (AddBalance a v st) = AddBalance a (v + w) st"
  by (cases "v = 0"; cases "w = 0") (auto simp: AddBalance_def add.assoc intro!: ext)

lemma pay_pay_same:
  assumes "0 \<le> v" "0 \<le> w" "v + w < 2 ^ 256"
  shows "Option.bind (pay a v st) (pay a w) = pay a (v + w) st"
proof (cases "v = 0 \<or> w = 0 \<or> a = 0")
  case True
  with assms show ?thesis by (cases "pay a v st") auto
next
  case False
  with assms show ?thesis by (simp add: pay_def MustFromBig_def AddBalance_twice)
qed

end
