(* ===== verification/Chain_Config.thy ===== *)
theory Chain_Config
  imports Prelude
begin

text \<open>
  The fork schedule of \<open>params/config.go\<close>, for the forks whose rules this development
  models, and the fields of \<open>types.Header\<close> and \<open>types.Transaction\<close> that these rules
  read. A nil pointer of the configuration is None.
\<close>

section \<open>Fork schedule\<close>

record chain_config =
  ChainID :: "int option"
  LondonBlock :: "int option"
  RandomXTxBlock :: "int option"
  RandomXMoneroBlock :: "int option"
  EDATime :: "u64 option"
  KyotoTime :: "u64 option"
  PhoneTime :: "u64 option"
  AntarticalTime :: "u64 option"
  QuantumResistantTime :: "u64 option"
  MainKingAddress :: address
  PostQuantumMainKingAddress :: address

definition isBlockForked :: "int option \<Rightarrow> int option \<Rightarrow> bool" where
  "isBlockForked s head =
     (case (s, head) of (Some b, Some h) \<Rightarrow> b \<le> h | _ \<Rightarrow> False)"

definition isTimestampForked :: "u64 option \<Rightarrow> u64 \<Rightarrow> bool" where
  "isTimestampForked s head = (case s of None \<Rightarrow> False | Some t \<Rightarrow> t \<le> head)"

definition IsLondon :: "chain_config \<Rightarrow> int option \<Rightarrow> bool" where
  "IsLondon c num = isBlockForked (LondonBlock c) num"

definition IsRandomXTx :: "chain_config \<Rightarrow> int option \<Rightarrow> bool" where
  "IsRandomXTx c num \<longleftrightarrow> IsLondon c num \<and> isBlockForked (RandomXTxBlock c) num"

definition IsRandomXMonero :: "chain_config \<Rightarrow> int option \<Rightarrow> bool" where
  "IsRandomXMonero c num \<longleftrightarrow> IsRandomXTx c num \<and> isBlockForked (RandomXMoneroBlock c) num"

definition IsEDA :: "chain_config \<Rightarrow> int option \<Rightarrow> u64 \<Rightarrow> bool" where
  "IsEDA c num time \<longleftrightarrow> IsLondon c num \<and> isTimestampForked (EDATime c) time"

definition IsKyoto :: "chain_config \<Rightarrow> int option \<Rightarrow> u64 \<Rightarrow> bool" where
  "IsKyoto c num time \<longleftrightarrow> IsLondon c num \<and> isTimestampForked (KyotoTime c) time"

definition IsPhone :: "chain_config \<Rightarrow> int option \<Rightarrow> u64 \<Rightarrow> bool" where
  "IsPhone c num time \<longleftrightarrow> IsLondon c num \<and> isTimestampForked (PhoneTime c) time"

definition IsAntartical :: "chain_config \<Rightarrow> int option \<Rightarrow> u64 \<Rightarrow> bool" where
  "IsAntartical c num time \<longleftrightarrow> IsLondon c num \<and> isTimestampForked (AntarticalTime c) time"

definition IsQuantumResistant :: "chain_config \<Rightarrow> int option \<Rightarrow> u64 \<Rightarrow> bool" where
  "IsQuantumResistant c num time \<longleftrightarrow>
     IsLondon c num \<and> isTimestampForked (QuantumResistantTime c) time"

text \<open>A nil configuration has no Main King.\<close>

definition MainKingAddressAt :: "chain_config option \<Rightarrow> int option \<Rightarrow> u64 \<Rightarrow> address" where
  "MainKingAddressAt cfg num time =
     (case cfg of
        None \<Rightarrow> 0
      | Some c \<Rightarrow>
          if PostQuantumMainKingAddress c \<noteq> 0 \<and> IsQuantumResistant c num time
          then PostQuantumMainKingAddress c
          else MainKingAddress c)"

lemmas fork_defs = isBlockForked_def isTimestampForked_def IsLondon_def IsRandomXTx_def
  IsRandomXMonero_def IsEDA_def IsKyoto_def IsPhone_def IsAntartical_def
  IsQuantumResistant_def

section \<open>Headers\<close>

record header =
  ParentHash :: hash
  Coinbase :: address
  Difficulty :: "int option"
  Number :: "int option"
  GasLimit :: u64
  GasUsed :: u64
  Time :: u64
  Extra :: bytes
  MixDigest :: hash
  BaseFee :: "int option"
  UncleHash :: hash
  Root :: hash
  TxHash :: hash
  ReceiptHash :: hash
  Bloom :: bytes
  Nonce :: bytes

text \<open>\<open>n.Uint64()\<close> of a big integer: its low 64 bits.\<close>

definition big_u64 :: "int \<Rightarrow> u64" where
  "big_u64 n = of_int n"

text \<open>A fork that is active stays active in every later block.\<close>

lemma fork_monotone:
  assumes "n \<le> m" "t \<le> u"
  shows "IsKyoto c (Some n) t \<Longrightarrow> IsKyoto c (Some m) u"
    and "IsAntartical c (Some n) t \<Longrightarrow> IsAntartical c (Some m) u"
    and "IsEDA c (Some n) t \<Longrightarrow> IsEDA c (Some m) u"
    and "IsPhone c (Some n) t \<Longrightarrow> IsPhone c (Some m) u"
  using assms by (auto simp: fork_defs split: option.splits)

end
