(* ===== verification/Decimal.thy ===== *)
theory Decimal
  imports Prelude
begin

text \<open>
  Decimal text as the sources use it: \<open>big.Int.String\<close>, \<open>strconv.FormatUint(_, 10)\<close>,
  \<open>big.Int.SetString(_, 10)\<close> and the padding loops around them, with the value of a
  digit string and the round trip of printing and parsing.
\<close>

section \<open>Printing and parsing\<close>

definition digit :: "nat \<Rightarrow> char" where
  "digit d = char_of (48 + d)"

definition is_digit :: "char \<Rightarrow> bool" where
  "is_digit c \<longleftrightarrow> 48 \<le> (of_char c :: nat) \<and> (of_char c :: nat) \<le> 57"

definition digit_val :: "char \<Rightarrow> nat" where
  "digit_val c = of_char c - 48"

fun dec_nat :: "nat \<Rightarrow> string" where
  "dec_nat n = (if n < 10 then [digit n] else dec_nat (n div 10) @ [digit (n mod 10)])"

declare dec_nat.simps [simp del]

definition dec_int :: "int \<Rightarrow> string" where
  "dec_int n = (if n < 0 then CHR ''-'' # dec_nat (nat (- n)) else dec_nat (nat n))"

definition digits_val :: "string \<Rightarrow> nat" where
  "digits_val s = foldl (\<lambda>a c. a * 10 + digit_val c) 0 s"

text \<open>A non-empty string of digits, as every number after its optional sign.\<close>

definition parse_nat :: "string \<Rightarrow> nat option" where
  "parse_nat s = (if s \<noteq> [] \<and> list_all is_digit s then Some (digits_val s) else None)"

text \<open>\<open>new(big.Int).SetString(s, 10)\<close>: one optional sign, then digits only.\<close>

definition set_string10 :: "string \<Rightarrow> int option" where
  "set_string10 s =
     (case s of
        [] \<Rightarrow> None
      | c # t \<Rightarrow>
          if c = CHR ''-'' then map_option (\<lambda>n. - int n) (parse_nat t)
          else if c = CHR ''+'' then map_option int (parse_nat t)
          else map_option int (parse_nat s))"

section \<open>Lemmas\<close>

lemma digit_props [simp]:
  "d < 10 \<Longrightarrow> is_digit (digit d)"
  "d < 10 \<Longrightarrow> digit_val (digit d) = d"
  by (auto simp: is_digit_def digit_def digit_val_def)

lemma digits_val_Nil [simp]: "digits_val [] = 0"
  by (simp add: digits_val_def)

lemma digits_val_snoc [simp]: "digits_val (s @ [c]) = digits_val s * 10 + digit_val c"
  by (simp add: digits_val_def)

lemma digits_val_append:
  "digits_val (s @ t) = digits_val s * 10 ^ length t + digits_val t"
proof (induction t rule: rev_induct)
  case (snoc c t)
  have "digits_val (s @ t @ [c]) = digits_val (s @ t) * 10 + digit_val c"
    using digits_val_snoc [of "s @ t" c] by simp
  with snoc show ?case by (simp add: algebra_simps)
qed simp

lemma digits_val_bound: "list_all is_digit s \<Longrightarrow> digits_val s < 10 ^ length s"
proof (induction s rule: rev_induct)
  case (snoc c s)
  then have "digit_val c \<le> 9"
    by (auto simp: is_digit_def digit_val_def)
  with snoc show ?case by auto
qed simp

lemma digits_val_replicate [simp]: "digits_val (replicate n CHR ''0'') = 0"
proof (induction n)
  case (Suc n)
  then show ?case
    using digits_val_snoc [of "replicate n CHR ''0''" "CHR ''0''"]
    by (simp add: replicate_append_same digit_val_def)
qed simp

lemma is_digit_0 [simp]: "is_digit CHR ''0''"
  by (simp add: is_digit_def)

lemma dec_nat_digits [simp]: "list_all is_digit (dec_nat n)"
proof (induction n rule: dec_nat.induct)
  case (1 n)
  then show ?case by (simp add: dec_nat.simps [of n])
qed

lemma digits_val_dec_nat [simp]: "digits_val (dec_nat n) = n"
proof (induction n rule: dec_nat.induct)
  case (1 n)
  show ?case
  proof (cases "n < 10")
    case True
    then show ?thesis
      using digits_val_snoc [of "[]" "digit n"] by (simp add: dec_nat.simps [of n])
  next
    case False
    with 1 show ?thesis by (simp add: dec_nat.simps [of n] mult.commute)
  qed
qed

lemma dec_nat_not_Nil [simp]: "dec_nat n \<noteq> []"
  by (simp add: dec_nat.simps [of n])

lemma parse_nat_dec_nat [simp]: "parse_nat (dec_nat n) = Some n"
  by (simp add: parse_nat_def)

lemma dec_nat_inj: "dec_nat m = dec_nat n \<longleftrightarrow> m = n"
  using digits_val_dec_nat by metis

lemma length_dec_nat: "k > 0 \<Longrightarrow> n < 10 ^ k \<Longrightarrow> length (dec_nat n) \<le> k"
proof (induction n arbitrary: k rule: dec_nat.induct)
  case (1 n)
  show ?case
  proof (cases "n < 10")
    case False
    then obtain j where j: "k = Suc j" "j > 0"
      using 1 by (cases k; cases "k - 1") auto
    then have "n div 10 < 10 ^ j"
      using 1 by (simp add: less_mult_imp_div_less mult.commute)
    with 1 False j show ?thesis by (simp add: dec_nat.simps [of n])
  qed (use 1 in \<open>simp add: dec_nat.simps [of n]\<close>)
qed

lemma set_string10_digits:
  assumes "s \<noteq> []" "list_all is_digit s"
  shows "set_string10 s = Some (int (digits_val s))"
proof -
  obtain c t where "s = c # t" using assms by (cases s) auto
  with assms show ?thesis
    by (auto simp: set_string10_def parse_nat_def is_digit_def)
qed

lemma set_string10_dec_int: "set_string10 (dec_int n) = Some n"
  by (cases "n < 0") (simp_all add: dec_int_def set_string10_digits, simp add: set_string10_def)

end
