(* ===== verification/Rewards.thy ===== *)
theory Rewards
  imports State Chain_Config Decimal
begin

text \<open>
  The emission schedule: \<open>consensus/randomx/reward.go\<close> (block reward with halving, supply
  estimates, the 10/40/50 split between Main King, Rotating King and miner, formatting and
  parsing of amounts) and \<open>consensus/antartical/rewards.go\<close> (the four fixed shares of the
  Antartical fork). Log lines are left out; a panic of \<open>uint256.MustFromBig\<close> is None.
\<close>

section \<open>Constants\<close>

definition one_TKM :: int where
  "one_TKM = 10 ^ 18"

definition InitialBlockReward :: int where
  "InitialBlockReward = 200 * one_TKM"

definition GenesisPremine :: int where
  "GenesisPremine = 60000000 * one_TKM"

definition DefaultBlocksPerHalving :: u64 where
  "DefaultBlocksPerHalving = 4 * 365 * 24 * 60 * 60 div 120"

abbreviation BlocksPerHalving :: u64 where
  "BlocksPerHalving \<equiv> DefaultBlocksPerHalving"

definition MaxHalvings :: u64 where
  "MaxHalvings = 64"

section \<open>Block reward and supply\<close>

text \<open>The loop of \<open>CalculateBlockReward\<close> with \<open>n\<close> iterations left.\<close>

primrec halve_loop :: "nat \<Rightarrow> int \<Rightarrow> int" where
  "halve_loop 0 reward = reward"
| "halve_loop (Suc n) reward =
     (let reward' = reward div 2 in if reward' < one_TKM then 0 else halve_loop n reward')"

definition CalculateBlockReward :: "u64 \<Rightarrow> int" where
  "CalculateBlockReward blockNumber =
     (let halvingPeriod = blockNumber div BlocksPerHalving;
          halvingPeriod' = (if halvingPeriod > MaxHalvings then MaxHalvings else halvingPeriod)
      in halve_loop (unat halvingPeriod') InitialBlockReward)"

definition CalculateTotalReward :: "int \<Rightarrow> int option \<Rightarrow> int" where
  "CalculateTotalReward blockReward transactionFees =
     (case transactionFees of
        Some f \<Rightarrow> if f > 0 then blockReward + f else blockReward
      | None \<Rightarrow> blockReward)"

record receipt =
  rc_GasUsed :: u64
  rc_EffectiveGasPrice :: "int option"

text \<open>A nil receipt of the slice is None.\<close>

definition receipt_fee :: "int option \<Rightarrow> receipt option \<Rightarrow> int" where
  "receipt_fee baseFee r =
     (case r of
        None \<Rightarrow> 0
      | Some rc \<Rightarrow>
          if rc_GasUsed rc > 0 then
            (case (case rc_EffectiveGasPrice rc of None \<Rightarrow> baseFee | Some p \<Rightarrow> Some p) of
               None \<Rightarrow> 0
             | Some p \<Rightarrow> uint (rc_GasUsed rc) * p)
          else 0)"

definition GetTotalTransactionFees :: "header \<Rightarrow> receipt option list \<Rightarrow> int" where
  "GetTotalTransactionFees h receipts =
     foldl (\<lambda>totalFees r. totalFees + receipt_fee (BaseFee h) r) 0 receipts"

text \<open>
  The loops of \<open>CalculateTotalSupplyCap\<close> and \<open>CalculateCirculatingSupply\<close>; the first
  argument is the number of iterations that the bound on the halvings leaves.
\<close>

primrec supply_cap_loop :: "nat \<Rightarrow> int \<Rightarrow> int \<Rightarrow> int" where
  "supply_cap_loop 0 tot currentReward = tot"
| "supply_cap_loop (Suc n) tot currentReward =
     (let tot' = tot + currentReward * uint BlocksPerHalving;
          currentReward' = currentReward div 2
      in if currentReward' < one_TKM then tot' else supply_cap_loop n tot' currentReward')"

definition CalculateTotalSupplyCap :: int where
  "CalculateTotalSupplyCap =
     supply_cap_loop (unat MaxHalvings + 1) GenesisPremine InitialBlockReward"

primrec circulating_loop :: "nat \<Rightarrow> u64 \<Rightarrow> int \<Rightarrow> int \<Rightarrow> int" where
  "circulating_loop 0 remainingBlocks tot currentReward = tot"
| "circulating_loop (Suc n) remainingBlocks tot currentReward =
     (if remainingBlocks > 0 then
        let blocksInPeriod =
              (if remainingBlocks < BlocksPerHalving then remainingBlocks else BlocksPerHalving);
            tot' = tot + currentReward * uint blocksInPeriod;
            remainingBlocks' = remainingBlocks - blocksInPeriod;
            currentReward' = currentReward div 2
        in if currentReward' < one_TKM then tot'
           else circulating_loop n remainingBlocks' tot' currentReward'
      else tot)"

definition CalculateCirculatingSupply :: "u64 \<Rightarrow> int" where
  "CalculateCirculatingSupply blockNumber =
     circulating_loop (unat MaxHalvings + 1) blockNumber GenesisPremine InitialBlockReward"

section \<open>Distribution\<close>

text \<open>The integer split with the rounding remainder given to the miner.\<close>

definition split_reward :: "int \<Rightarrow> int \<times> int \<times> int" where
  "split_reward tot =
     (let mainKing = tot * 10 div 100;
          rotatingKing = tot * 40 div 100;
          miner = tot * 50 div 100;
          actualTotal = mainKing + rotatingKing + miner
      in (mainKing, rotatingKing,
          if actualTotal \<noteq> tot then miner + (tot - actualTotal) else miner))"

definition reward_amounts :: "address \<Rightarrow> address \<Rightarrow> int \<Rightarrow> int \<times> int \<times> int" where
  "reward_amounts mainKing rotatingKing tot =
     (let (mk, rk, mi) = split_reward tot;
          (mk, mi) = (if mainKing = 0 then (0, mi + mk) else (mk, mi))
      in if rotatingKing = 0
         then if mainKing \<noteq> 0 then (mk + rk, 0, mi) else (mk, 0, mi + rk)
         else (mk, rk, mi))"

definition DistributeRewards ::
    "'k statedb \<Rightarrow> address \<Rightarrow> address \<Rightarrow> address \<Rightarrow> int option \<Rightarrow> (int \<times> 'k statedb) option" where
  "DistributeRewards st mainKing rotatingKing miner totalReward =
     (case totalReward of
        None \<Rightarrow> Some (0, st)
      | Some tot \<Rightarrow>
          if tot = 0 then Some (0, st)
          else
            let (mk, rk, mi) = reward_amounts mainKing rotatingKing tot
            in map_option (\<lambda>st. (tot, st))
                 (pays [(mainKing, mk), (rotatingKing, rk), (miner, mi)] st))"

definition DistributeUncleReward ::
    "'k statedb \<Rightarrow> address \<Rightarrow> u64 \<Rightarrow> u64 \<Rightarrow> int \<Rightarrow> 'k statedb option" where
  "DistributeUncleReward st uncleCoinbase uncleNumber blockNumber blockReward =
     (let adjustment = uint uncleNumber + 8 - uint blockNumber
      in if adjustment > 0
         then map_option (\<lambda>v. AddBalance uncleCoinbase v st)
                (MustFromBig (blockReward * adjustment div 8))
         else Some st)"

section \<open>Amounts as text\<close>

function pad_left :: "string \<Rightarrow> string" where
  "pad_left s = (if length s < 18 then pad_left (CHR ''0'' # s) else s)"
  by pat_completeness auto
termination by (relation "measure (\<lambda>s. 18 - length s)") auto

function trim_zeros :: "string \<Rightarrow> string" where
  "trim_zeros s =
     (if length s > 6 \<and> last s = CHR ''0'' then trim_zeros (butlast s) else s)"
  by pat_completeness auto
termination by (relation "measure length") auto

function pad_right :: "string \<Rightarrow> string" where
  "pad_right s = (if length s < 18 then pad_right (s @ [CHR ''0'']) else s)"
  by pat_completeness auto
termination by (relation "measure (\<lambda>s. 18 - length s)") auto

declare pad_left.simps [simp del] trim_zeros.simps [simp del] pad_right.simps [simp del]

definition FormatANTD :: "int option \<Rightarrow> string" where
  "FormatANTD amount =
     (case amount of
        None \<Rightarrow> ''0''
      | Some a \<Rightarrow>
          let whole = a div one_TKM; remainder = a mod one_TKM
          in if remainder = 0 then dec_int whole
             else let remainderStr = trim_zeros (pad_left (dec_int remainder))
                  in dec_int whole @ ''.'' @ take (min 6 (length remainderStr)) remainderStr)"

datatype parse_error = InvalidNumberFormat | InvalidWholeNumber | InvalidFractionalPart

definition ParseANTD :: "string \<Rightarrow> parse_error + int" where
  "ParseANTD amountStr =
     (let wholeStr = takeWhile (\<lambda>c. c \<noteq> CHR ''.'') amountStr
      in if wholeStr = amountStr then
           (case set_string10 amountStr of
              None \<Rightarrow> Inl InvalidNumberFormat
            | Some whole \<Rightarrow> Inr (whole * one_TKM))
         else
           let fracStr = drop (length wholeStr + 1) amountStr
           in (case set_string10 wholeStr of
                 None \<Rightarrow> Inl InvalidWholeNumber
               | Some whole \<Rightarrow>
                   (case set_string10 (take 18 (pad_right fracStr)) of
                      None \<Rightarrow> Inl InvalidFractionalPart
                    | Some frac \<Rightarrow> Inr (whole * one_TKM + frac))))"

section \<open>Information for the RPC interface\<close>

record halving_info =
  hi_currentBlock :: u64
  hi_nextHalvingBlock :: u64
  hi_blocksUntil :: u64
  hi_currentReward :: string
  hi_nextReward :: string
  hi_halvingPeriod :: u64
  hi_currentRewardFormatted :: string
  hi_nextRewardFormatted :: string

definition GetNextHalvingInfo :: "u64 \<Rightarrow> halving_info" where
  "GetNextHalvingInfo blockNumber =
     (let currentPeriod = blockNumber div BlocksPerHalving;
          nextHalvingBlock = (currentPeriod + 1) * BlocksPerHalving;
          currentReward = CalculateBlockReward blockNumber;
          nextReward = CalculateBlockReward nextHalvingBlock
      in \<lparr>hi_currentBlock = blockNumber, hi_nextHalvingBlock = nextHalvingBlock,
          hi_blocksUntil = nextHalvingBlock - blockNumber,
          hi_currentReward = dec_int currentReward, hi_nextReward = dec_int nextReward,
          hi_halvingPeriod = currentPeriod,
          hi_currentRewardFormatted = FormatANTD (Some currentReward),
          hi_nextRewardFormatted = FormatANTD (Some nextReward)\<rparr>)"

record reward_info =
  ri_blockNumber :: u64
  ri_blockReward :: string
  ri_blockRewardFormatted :: string
  ri_transactionFees :: string
  ri_transactionFeesFormatted :: string
  ri_totalReward :: string
  ri_totalRewardFormatted :: string
  ri_distribution :: "int \<times> int \<times> int"
  ri_rewards :: "string \<times> string \<times> string"
  ri_rewardsFormatted :: "string \<times> string \<times> string"

text \<open>\<open>String\<close> of a nil \<open>*big.Int\<close> is \<open>"<nil>"\<close>; triples list Main King, Rotating King, miner.\<close>

definition big_String :: "int option \<Rightarrow> string" where
  "big_String x = (case x of None \<Rightarrow> ''<nil>'' | Some n \<Rightarrow> dec_int n)"

definition GetRewardInfo :: "u64 \<Rightarrow> int \<Rightarrow> int option \<Rightarrow> reward_info" where
  "GetRewardInfo blockNumber blockReward transactionFees =
     (let totalReward = CalculateTotalReward blockReward transactionFees;
          (mainKing, rotatingKing, miner) = split_reward totalReward
      in \<lparr>ri_blockNumber = blockNumber, ri_blockReward = dec_int blockReward,
          ri_blockRewardFormatted = FormatANTD (Some blockReward),
          ri_transactionFees = big_String transactionFees,
          ri_transactionFeesFormatted = FormatANTD transactionFees,
          ri_totalReward = dec_int totalReward,
          ri_totalRewardFormatted = FormatANTD (Some totalReward),
          ri_distribution = (10, 40, 50),
          ri_rewards = (dec_int mainKing, dec_int rotatingKing, dec_int miner),
          ri_rewardsFormatted = (FormatANTD (Some mainKing), FormatANTD (Some rotatingKing),
            FormatANTD (Some miner))\<rparr>)"

section \<open>Antartical shares\<close>

record reward_shares =
  sh_Miner :: int
  sh_Validator :: int
  sh_Rotating :: int
  sh_MainKing :: int

definition InitialRewardShares :: reward_shares where
  "InitialRewardShares =
     \<lparr>sh_Miner = 90 * one_TKM, sh_Validator = 70 * one_TKM,
      sh_Rotating = 35 * one_TKM, sh_MainKing = 5 * one_TKM\<rparr>"

definition shares_Total :: "reward_shares \<Rightarrow> int" where
  "shares_Total r = sh_Miner r + sh_Validator r + sh_Rotating r + sh_MainKing r"

definition halve_shares :: "reward_shares \<Rightarrow> reward_shares" where
  "halve_shares r =
     \<lparr>sh_Miner = sh_Miner r div 2, sh_Validator = sh_Validator r div 2,
      sh_Rotating = sh_Rotating r div 2, sh_MainKing = sh_MainKing r div 2\<rparr>"

definition RewardSharesAt :: "u64 \<Rightarrow> u64 \<Rightarrow> reward_shares" where
  "RewardSharesAt blockNumber blocksPerHalving =
     (if blocksPerHalving = 0 then InitialRewardShares
      else (halve_shares ^^ unat (blockNumber div blocksPerHalving)) InitialRewardShares)"


section \<open>The schedule in closed form\<close>

text \<open>The reward of a halving period, as the documentation of the chain states it.\<close>

definition period_reward :: "nat \<Rightarrow> int" where
  "period_reward p = (if p < 8 then InitialBlockReward div 2 ^ p else 0)"

lemma period_below_8: "(p::nat) < 8 \<longleftrightarrow> p \<in> {0, 1, 2, 3, 4, 5, 6, 7}"
  by auto

lemma reward_halves: "InitialBlockReward div 2 ^ p div 2 = InitialBlockReward div 2 ^ Suc p"
  by (simp add: zdiv_zmult2_eq [symmetric] mult.commute)

lemma reward_step_small: "InitialBlockReward div 2 ^ Suc p < one_TKM \<longleftrightarrow> 7 \<le> p"
proof (cases "p < 7")
  case True
  then have "p \<in> {0, 1, 2, 3, 4, 5, 6}" by auto
  then show ?thesis by (auto simp: InitialBlockReward_def one_TKM_def)
next
  case False
  then have "(2::int) ^ 8 \<le> 2 ^ Suc p" by (intro power_increasing) auto
  then have "InitialBlockReward div 2 ^ Suc p \<le> InitialBlockReward div 2 ^ 8"
    by (intro zdiv_mono2) (auto simp: InitialBlockReward_def one_TKM_def)
  also have "\<dots> < one_TKM" by (simp add: InitialBlockReward_def one_TKM_def)
  finally show ?thesis using False by simp
qed

lemma halve_loop_period:
  "p < 8 \<Longrightarrow> halve_loop n (InitialBlockReward div 2 ^ p) = period_reward (p + n)"
proof (induction n arbitrary: p)
  case 0
  then show ?case by (simp add: period_reward_def)
next
  case (Suc n)
  show ?case
  proof (cases "7 \<le> p")
    case True
    with Suc show ?thesis
      by (simp only: halve_loop.simps Let_def reward_halves reward_step_small)
        (simp add: period_reward_def)
  next
    case False
    then have "halve_loop n (InitialBlockReward div 2 ^ Suc p) = period_reward (Suc p + n)"
      by (intro Suc.IH) simp
    with False show ?thesis
      by (simp only: halve_loop.simps Let_def reward_halves reward_step_small) simp
  qed
qed

lemma BlocksPerHalving_val [simp]:
  "DefaultBlocksPerHalving = 1051200" "MaxHalvings = 64"
  by (simp_all add: DefaultBlocksPerHalving_def MaxHalvings_def)

lemma block_reward_period:
  "CalculateBlockReward n = period_reward (unat n div 1051200)"
proof -
  have u: "unat (n div 1051200) = unat n div 1051200"
    by (simp add: unat_div)
  show ?thesis
  proof (cases "n div 1051200 > 64")
    case True
    then have "64 < unat n div 1051200"
      by (simp add: word_less_nat_alt u)
    then show ?thesis
      using True halve_loop_period [of 0 64]
      by (simp add: CalculateBlockReward_def period_reward_def)
  next
    case False
    then show ?thesis
      using halve_loop_period [of 0 "unat n div 1051200"]
      by (simp add: CalculateBlockReward_def u)
  qed
qed

lemma sum_lessThan_add:
  fixes g :: "nat \<Rightarrow> int"
  shows "(\<Sum>b<m + k. g b) = (\<Sum>b<m. g b) + (\<Sum>b<k. g (m + b))"
  by (induction k) simp_all

lemma sum_blocks:
  fixes f :: "nat \<Rightarrow> int"
  assumes "0 < B"
  shows "(\<Sum>b<n. f (b div B)) =
    int (min n B) * f 0 + (\<Sum>b<n - B. f (Suc (b div B)))"
proof -
  have first: "(\<Sum>b<min n B. f (b div B)) = int (min n B) * f 0"
  proof -
    have "(\<Sum>b<min n B. f (b div B)) = (\<Sum>b<min n B. f 0)"
      by (intro sum.cong) auto
    then show ?thesis by simp
  qed
  show ?thesis
  proof (cases "n \<le> B")
    case True
    with first show ?thesis by (simp add: min_def)
  next
    case False
    have "(\<Sum>b<B + (n - B). f (b div B)) =
        (\<Sum>b<B. f (b div B)) + (\<Sum>b<n - B. f ((B + b) div B))"
      by (rule sum_lessThan_add)
    with False first assms show ?thesis by (simp add: min_def div_add_self1)
  qed
qed

lemma circulating_loop_sum:
  assumes "p < 8" "8 - p \<le> n"
  shows "circulating_loop n rest tot (InitialBlockReward div 2 ^ p) =
    tot + (\<Sum>b<unat rest. period_reward (p + b div 1051200))"
  using assms
proof (induction n arbitrary: p rest tot)
  case (Suc n)
  let ?B = "1051200 :: u64"
  let ?b = "if rest < ?B then rest else ?B"
  have "unat ?b = min (unat rest) 1051200"
    by (auto simp: word_less_nat_alt min_def)
  then have b: "uint ?b = int (min (unat rest) 1051200)"
    by (simp only: uint_nat)
  have r: "unat (rest - ?b) = unat rest - 1051200"
    by (auto simp: word_less_nat_alt unat_sub_if_size word_size)
  have now: "period_reward p = InitialBlockReward div 2 ^ p"
    using Suc.prems by (simp add: period_reward_def)
  have sum: "(\<Sum>b<unat rest. period_reward (p + b div 1051200)) =
      int (min (unat rest) 1051200) * period_reward p +
      (\<Sum>b<unat rest - 1051200. period_reward (Suc p + b div 1051200))"
    using sum_blocks [of 1051200 "\<lambda>q. period_reward (p + q)" "unat rest"] by simp
  show ?case
  proof (cases "7 \<le> p")
    case True
    then show ?thesis
      by (simp only: circulating_loop.simps Let_def reward_halves reward_step_small sum
          BlocksPerHalving_val b now) (auto simp: period_reward_def word_gt_0)
  next
    case False
    then have "circulating_loop n (rest - ?b) t (InitialBlockReward div 2 ^ Suc p) =
        t + (\<Sum>b<unat rest - 1051200. period_reward (Suc p + b div 1051200))" for t
      using Suc.IH [of "Suc p" "rest - ?b" t] Suc.prems by (simp only: r)
    with False show ?thesis
      by (simp only: circulating_loop.simps Let_def reward_halves reward_step_small sum
          BlocksPerHalving_val b now) (auto simp: word_gt_0)
  qed
qed simp

lemma circulating_sum:
  "CalculateCirculatingSupply n =
     GenesisPremine + (\<Sum>b<unat n. period_reward (b div 1051200))"
  using circulating_loop_sum [of 0 65 n GenesisPremine]
  by (simp add: CalculateCirculatingSupply_def)

lemma period_reward_nonneg: "0 \<le> period_reward p"
  by (simp add: period_reward_def InitialBlockReward_def one_TKM_def pos_imp_zdiv_nonneg_iff)

lemma supply_cap_loop_numeral:
  "supply_cap_loop (numeral k) tot r =
     (if r div 2 < one_TKM then tot + r * 1051200
      else supply_cap_loop (pred_numeral k) (tot + r * 1051200) (r div 2))"
  by (simp only: numeral_eq_Suc [of k] supply_cap_loop.simps Let_def) simp

lemma cap_value: "CalculateTotalSupplyCap = 478837500 * one_TKM"
  by (simp add: CalculateTotalSupplyCap_def GenesisPremine_def InitialBlockReward_def
      one_TKM_def supply_cap_loop_numeral)

lemma circulating_loop_numeral:
  "circulating_loop (numeral k) rest tot r =
     (if rest > 0 then
        let b = (if rest < 1051200 then rest else 1051200)
        in if r div 2 < one_TKM then tot + r * uint b
           else circulating_loop (pred_numeral k) (rest - b) (tot + r * uint b) (r div 2)
      else tot)"
  by (simp only: numeral_eq_Suc [of k] circulating_loop.simps Let_def BlocksPerHalving_val)

lemma cap_circulating: "CalculateCirculatingSupply 8409600 = CalculateTotalSupplyCap"
  by (simp add: CalculateCirculatingSupply_def cap_value GenesisPremine_def
      InitialBlockReward_def one_TKM_def circulating_loop_numeral)

lemma cap_as_sum:
  "CalculateTotalSupplyCap = GenesisPremine + (\<Sum>b<8409600. period_reward (b div 1051200))"
  using circulating_sum [of 8409600] by (simp add: cap_circulating)

lemma period_reward_pos: "p < 8 \<Longrightarrow> 0 < period_reward p"
  unfolding period_below_8 by (auto simp: period_reward_def InitialBlockReward_def one_TKM_def)

lemma circulating_below_cap:
  assumes "unat n < 8409600"
  shows "CalculateCirculatingSupply n < CalculateTotalSupplyCap"
proof -
  let ?f = "\<lambda>b::nat. period_reward (b div 1051200)"
  let ?k = "8409600 - unat n"
  have "0 < (\<Sum>b<?k. ?f (unat n + b))"
    using assms by (intro sum_pos) (auto intro!: period_reward_pos simp: lessThan_empty_iff)
  then show ?thesis
    using sum_lessThan_add [of ?f "unat n" ?k] assms by (simp add: circulating_sum cap_as_sum)
qed

lemma circulating_at_cap:
  assumes "8409600 \<le> unat n"
  shows "CalculateCirculatingSupply n = CalculateTotalSupplyCap"
proof -
  let ?f = "\<lambda>b::nat. period_reward (b div 1051200)"
  have "(\<Sum>b<unat n - 8409600. ?f (8409600 + b)) = 0"
    by (intro sum.neutral) (auto simp: period_reward_def)
  then show ?thesis
    using sum_lessThan_add [of ?f 8409600 "unat n - 8409600"] assms
    by (simp add: circulating_sum cap_as_sum)
qed

text \<open>
  C8: The reward of block n is the initial 200 TKM halved once for every 1051200 blocks before
  it, for the first eight periods, and zero from the ninth period on, for every block number.
\<close>

theorem block_reward_schedule:
  "CalculateBlockReward n =
     (let p = unat n div 1051200 in if p < 8 then 200 * 10 ^ 18 div 2 ^ p else 0)"
  by (simp add: block_reward_period period_reward_def InitialBlockReward_def one_TKM_def Let_def)

text \<open>
  C31: The supply estimate, which adds whole halving periods at a time, is the premine
  plus the reward of every block below the given height as \<open>CalculateBlockReward\<close> pays it.
\<close>

theorem circulating_supply_is_emission:
  "CalculateCirculatingSupply n =
     GenesisPremine + (\<Sum>b<unat n. CalculateBlockReward (of_nat b))"
proof -
  have "CalculateBlockReward (of_nat b) = period_reward (b div 1051200)" if "b < unat n" for b
  proof -
    have "unat (of_nat b :: u64) = b"
      using that by (intro unat_of_nat_below [of b n]) simp
    then show ?thesis by (simp add: block_reward_period)
  qed
  then show ?thesis by (simp add: circulating_sum)
qed

text \<open>
  The supply never exceeds \<open>CalculateTotalSupplyCap\<close>, which is 478837500 TKM, and
  reaches it exactly when eight halving periods have passed.
\<close>

theorem supply_cap_is_tight:
  "CalculateCirculatingSupply n \<le> CalculateTotalSupplyCap \<and>
   (CalculateCirculatingSupply n = CalculateTotalSupplyCap \<longleftrightarrow> 8 * 1051200 \<le> unat n) \<and>
   CalculateTotalSupplyCap = 478837500 * 10 ^ 18"
  using circulating_below_cap [of n] circulating_at_cap [of n] cap_value
  by (cases "unat n < 8409600") (auto simp: one_TKM_def)

section \<open>Distribution conserves the reward\<close>

lemma split_reward_eq:
  "split_reward tot =
     (tot * 10 div 100, tot * 40 div 100, tot - tot * 10 div 100 - tot * 40 div 100)"
  by (simp only: split_reward_def Let_def) auto

lemma split_reward_exact:
  assumes "split_reward tot = (mk, rk, mi)"
  shows "mk + rk + mi = tot" "0 \<le> tot \<Longrightarrow> 0 \<le> mk \<and> 0 \<le> rk \<and> 0 \<le> mi"
proof -
  have eq: "mk = tot * 10 div 100" "rk = tot * 40 div 100"
    "mi = tot - tot * 10 div 100 - tot * 40 div 100"
    using assms unfolding split_reward_eq prod.inject by blast+
  then show "mk + rk + mi = tot" by linarith
  show "0 \<le> mk \<and> 0 \<le> rk \<and> 0 \<le> mi" if "0 \<le> tot"
  proof -
    have div100: "a div 100 * 100 \<le> a" for a :: int
      using div_mult_mod_eq [of a 100] pos_mod_sign [of 100 a] by linarith
    have "0 \<le> tot - tot * 10 div 100 - tot * 40 div 100"
      using that div100 [of "tot * 10"]
        div100 [of "tot * 40"] by linarith
    then show ?thesis
      using that unfolding eq by (simp add: pos_imp_zdiv_nonneg_iff)
  qed
qed

lemma reward_amounts_exact:
  assumes "reward_amounts k r tot = (mk, rk, mi)"
  shows "mk + rk + mi = tot"
    and "0 \<le> tot \<Longrightarrow> 0 \<le> mk \<and> 0 \<le> rk \<and> 0 \<le> mi"
    and "k = 0 \<Longrightarrow> mk = 0" and "r = 0 \<Longrightarrow> rk = 0"
proof -
  obtain a b c where abc: "split_reward tot = (a, b, c)" by (cases "split_reward tot")
  note split = split_reward_exact [OF abc]
  show "mk + rk + mi = tot" "k = 0 \<Longrightarrow> mk = 0" "r = 0 \<Longrightarrow> rk = 0"
    using assms split(1) by (auto simp: reward_amounts_def abc split: if_splits)
  show "0 \<le> mk \<and> 0 \<le> rk \<and> 0 \<le> mi" if "0 \<le> tot"
    using assms split(2) [OF that] by (auto simp: reward_amounts_def abc split: if_splits)
qed

lemma reward_amounts_eq:
  "split_reward t = (k, r, m) \<Longrightarrow> reward_amounts mk rk t =
     (if mk = 0 then if rk = 0 then (0, 0, m + k + r) else (0, r, m + k)
      else if rk = 0 then (k + r, 0, m) else (k, r, m))"
  by (simp add: reward_amounts_def)

text \<open>
  C9: Distributing a block's reward to a miner creates exactly that reward: it never panics
  while the supply fits 256 bits, the sum of all balances grows by the reward whether or not
  there is a Main King or a Rotating King, storage is untouched, and the reward is returned.
\<close>

theorem distribute_rewards_conserves:
  assumes "0 \<le> t" "total_supply st + t < 2 ^ 256" "miner \<noteq> 0"
  shows "\<exists>st'. DistributeRewards st mainKing rotatingKing miner (Some t) = Some (t, st') \<and>
    total_supply st' = total_supply st + t \<and> storage st' = storage st"
proof -
  obtain mk rk mi where am: "reward_amounts mainKing rotatingKing t = (mk, rk, mi)"
    by (cases "reward_amounts mainKing rotatingKing t")
  note ex = reward_amounts_exact [OF am]
  have "\<exists>st'. pays [(mainKing, mk), (rotatingKing, rk), (miner, mi)] st = Some st' \<and>
      storage st' = storage st \<and> total_supply st' = total_supply st + t"
    using pays_total [of "[(mainKing, mk), (rotatingKing, rk), (miner, mi)]" st] ex assms
    by (auto split: if_splits)
  then show ?thesis
    by (cases "t = 0") (auto simp: DistributeRewards_def am)
qed

definition empty_state :: "unit statedb" where
  "empty_state = \<lparr>balances = (\<lambda>_. 0), storage = (\<lambda>_ _. 0)\<rparr>"

lemma empty_state_supply [simp]: "total_supply empty_state = 0"
  by (simp add: total_supply_def empty_state_def GetBalance_def)

theorem distribute_rewards_conserves_witness:
  "\<exists>st'. DistributeRewards empty_state 1 2 3 (Some 200) = Some (200, st') \<and>
    total_supply st' = 200 \<and> storage st' = storage empty_state"
  using distribute_rewards_conserves [of 200 empty_state 3 1 2] by simp

text \<open>
  Who receives what: 10% to the Main King, 40% to the Rotating King and the rest to the
  miner, the Rotating King's share going to the Main King, or with no Main King to the
  miner, when there is no Rotating King, and the Main King's share to the miner when there
  is no Main King. Stated for three distinct accounts on their 256-bit balances.
\<close>

theorem distribute_rewards_shares:
  assumes "DistributeRewards st mk rk mi (Some t) = Some (r, st')" "0 < t"
    and "mi \<noteq> 0" "mk \<noteq> mi" "rk \<noteq> mi" "mk \<noteq> rk \<or> mk = 0"
  shows "GetBalance st' mk = GetBalance st mk + (if mk = 0 then 0 else
           of_int (t * 10 div 100 + (if rk = 0 then t * 40 div 100 else 0))) \<and>
    GetBalance st' rk = GetBalance st rk + (if rk = 0 then 0 else of_int (t * 40 div 100)) \<and>
    GetBalance st' mi = GetBalance st mi +
           of_int (t - (if mk = 0 then 0 else t * 10 div 100)
                     - (if mk = 0 \<and> rk = 0 then 0 else t * 40 div 100))"
proof -
  obtain a b c where am: "reward_amounts mk rk t = (a, b, c)"
    by (cases "reward_amounts mk rk t")
  have "pays [(mk, a), (rk, b), (mi, c)] st = Some st'"
    using assms(1,2) by (auto simp: DistributeRewards_def am)
  then have bal: "GetBalance st' x = GetBalance st x + of_int (paid_to x [(mk, a), (rk, b), (mi, c)])"
    for x
    using reward_amounts_exact(2) [OF am] assms(2) by (intro pays_balance) auto
  define k where "k = t * 10 div 100"
  define r where "r = t * 40 div 100"
  have "split_reward t = (k, r, t - k - r)"
    unfolding k_def r_def by (rule split_reward_eq)
  from reward_amounts_eq [OF this, of mk rk] show ?thesis
    unfolding bal k_def [symmetric] r_def [symmetric] am
    using assms(3-) by (auto simp: paid_to_def split: if_splits)
qed

theorem distribute_rewards_shares_witness:
  "GetBalance (snd (the (DistributeRewards empty_state 1 2 3 (Some 200)))) 1 = 20 \<and>
   GetBalance (snd (the (DistributeRewards empty_state 1 2 3 (Some 200)))) 2 = 80 \<and>
   GetBalance (snd (the (DistributeRewards empty_state 1 2 3 (Some 200)))) 3 = 100"
proof -
  obtain st' where "DistributeRewards empty_state 1 2 3 (Some 200) = Some (200, st')"
    by (simp add: DistributeRewards_def reward_amounts_def split_reward_def pay_def MustFromBig_def)
  then show ?thesis
    using distribute_rewards_shares [of empty_state 1 2 3 200 200 st']
    by (simp add: empty_state_def GetBalance_def)
qed

section \<open>Amounts as text\<close>

lemma pad_left_eq: "pad_left s = replicate (18 - length s) CHR ''0'' @ s"
proof (induction s rule: pad_left.induct)
  case (1 s)
  show ?case
  proof (cases "length s < 18")
    case True
    then have "18 - length s = Suc (18 - Suc (length s))" by simp
    with 1 True show ?thesis
      by (simp add: pad_left.simps [of s] replicate_app_Cons_same)
  qed (simp add: pad_left.simps [of s])
qed

lemma pad_right_eq: "pad_right s = s @ replicate (18 - length s) CHR ''0''"
proof (induction s rule: pad_right.induct)
  case (1 s)
  show ?case
  proof (cases "length s < 18")
    case True
    then have "18 - length s = Suc (18 - Suc (length s))" by simp
    with 1 True show ?thesis
      by (simp add: pad_right.simps [of s])
  qed (simp add: pad_right.simps [of s])
qed

lemma trim_zeros_keeps:
  "6 \<le> length s \<Longrightarrow> 6 \<le> length (trim_zeros s) \<and> take 6 (trim_zeros s) = take 6 s"
proof (induction s rule: trim_zeros.induct)
  case (1 s)
  show ?case
  proof (cases "length s > 6 \<and> last s = CHR ''0''")
    case True
    with 1 show ?thesis by (auto simp: trim_zeros.simps [of s] take_butlast)
  next
    case False
    with 1 show ?thesis by (auto simp: trim_zeros.simps [of s])
  qed
qed

text \<open>The six digits after the point that \<open>FormatANTD\<close> prints, and their value.\<close>

definition six_digits :: "nat \<Rightarrow> string" where
  "six_digits r = take 6 (replicate (18 - length (dec_nat r)) CHR ''0'' @ dec_nat r)"

lemma six_digits_props:
  assumes "r < 10 ^ 18"
  shows "length (six_digits r) = 6" "list_all is_digit (six_digits r)"
    "digits_val (six_digits r) = r div 10 ^ 12"
proof -
  define s where "s = replicate (18 - length (dec_nat r)) CHR ''0'' @ dec_nat r"
  have six: "six_digits r = take 6 s" by (simp add: six_digits_def s_def)
  have len: "length s = 18"
    using length_dec_nat [of 18 r] assms by (simp add: s_def)
  have dig: "list_all is_digit s"
    using dec_nat_digits [of r] by (auto simp: list_all_iff s_def)
  have split: "s = six_digits r @ drop 6 s"
    unfolding six by (rule append_take_drop_id [symmetric])
  show "length (six_digits r) = 6" using len by (simp add: six)
  show "list_all is_digit (six_digits r)"
    using dig unfolding six list_all_iff by (meson in_set_takeD)
  have low: "digits_val (drop 6 s) < 10 ^ 12"
  proof -
    have "list_all is_digit (drop 6 s)"
      using dig unfolding list_all_iff by (meson in_set_dropD)
    then show ?thesis using digits_val_bound [of "drop 6 s"] len by simp
  qed
  have "r = digits_val s" by (simp add: s_def digits_val_append)
  also have "\<dots> = digits_val (six_digits r) * 10 ^ 12 + digits_val (drop 6 s)"
    using digits_val_append [of "six_digits r" "drop 6 s"] len split by simp
  finally have "r = digits_val (six_digits r) * 10 ^ 12 + digits_val (drop 6 s)" .
  then have "r div 10 ^ 12 = (digits_val (six_digits r) * 10 ^ 12 + digits_val (drop 6 s)) div 10 ^ 12"
    by (rule arg_cong)
  also have "\<dots> = digits_val (six_digits r)"
    using low by simp
  finally show "digits_val (six_digits r) = r div 10 ^ 12" by simp
qed

lemma FormatANTD_nonneg:
  assumes "0 \<le> x"
  shows "FormatANTD (Some x) = (if x mod one_TKM = 0 then dec_nat (nat (x div one_TKM))
    else dec_nat (nat (x div one_TKM)) @ ''.'' @ six_digits (nat (x mod one_TKM)))"
proof -
  let ?p = "pad_left (dec_nat (nat (x mod one_TKM)))"
  have "0 \<le> x div one_TKM" "0 \<le> x mod one_TKM"
    using assms by (simp_all add: one_TKM_def pos_imp_zdiv_nonneg_iff)
  moreover have "6 \<le> length (trim_zeros ?p) \<and> take 6 (trim_zeros ?p) = take 6 ?p"
    by (rule trim_zeros_keeps) (simp add: pad_left_eq)
  ultimately show ?thesis
    by (simp add: FormatANTD_def dec_int_def Let_def six_digits_def pad_left_eq min_def)
qed

lemma digits_no_point:
  assumes "list_all is_digit s"
  shows "takeWhile (\<lambda>c. c \<noteq> CHR ''.'') s = s"
    "takeWhile (\<lambda>c. c \<noteq> CHR ''.'') (s @ CHR ''.'' # t) = s"
proof -
  have "\<not> is_digit CHR ''.''" by (simp add: is_digit_def)
  then have all: "c \<noteq> CHR ''.''" if "c \<in> set s" for c
    using that assms unfolding list_all_iff by metis
  then show "takeWhile (\<lambda>c. c \<noteq> CHR ''.'') s = s"
    by (simp only: takeWhile_eq_all_conv) blast
  show "takeWhile (\<lambda>c. c \<noteq> CHR ''.'') (s @ CHR ''.'' # t) = s"
    using takeWhile_append2 [of s "\<lambda>c. c \<noteq> CHR ''.''" "CHR ''.'' # t"] all by simp
qed

lemma ParseANTD_digits:
  assumes "list_all is_digit w" "w \<noteq> []" "list_all is_digit f" "length f \<le> 18"
  shows "ParseANTD w = Inr (int (digits_val w) * one_TKM)"
    and "ParseANTD (w @ ''.'' @ f) =
      Inr (int (digits_val w) * one_TKM + int (digits_val f) * 10 ^ (18 - length f))"
proof -
  show "ParseANTD w = Inr (int (digits_val w) * one_TKM)"
    using assms by (simp add: ParseANTD_def digits_no_point set_string10_digits)
  let ?f = "f @ replicate (18 - length f) CHR ''0''"
  have "list_all is_digit ?f" "?f \<noteq> []"
    using assms(3,4) by (auto simp: list_all_iff)
  then have "set_string10 ?f = Some (int (digits_val f * 10 ^ (18 - length f)))"
    by (simp add: set_string10_digits digits_val_append)
  then show "ParseANTD (w @ ''.'' @ f) =
      Inr (int (digits_val w) * one_TKM + int (digits_val f) * 10 ^ (18 - length f))"
    using assms
    by (simp add: ParseANTD_def digits_no_point set_string10_digits pad_right_eq)
qed

text \<open>
  Printing an amount and parsing the text back gives the amount rounded down to a
  millionth of a TKM, for every non-negative amount: the printed text always parses, and an
  amount with at most six decimals survives unchanged.
\<close>

theorem format_parse_roundtrip:
  assumes "0 \<le> x"
  shows "ParseANTD (FormatANTD (Some x)) = Inr (x - x mod 10 ^ 12)"
proof -
  define W R where "W = nat (x div one_TKM)" and "R = nat (x mod one_TKM)"
  then have w: "int W = x div one_TKM" and r: "int R = x mod one_TKM" and r18: "R < 10 ^ 18"
    and format: "FormatANTD (Some x) = (if x mod one_TKM = 0 then dec_nat W
      else dec_nat W @ ''.'' @ six_digits R)"
    using assms
    by (simp_all add: FormatANTD_nonneg, simp_all add: one_TKM_def pos_imp_zdiv_nonneg_iff nat_less_iff)
  note six = six_digits_props [OF r18]
  have low: "x mod one_TKM mod 10 ^ 12 = x mod 10 ^ 12"
    by (simp add: one_TKM_def mod_mod_cancel)
  have val: "x div one_TKM * one_TKM + x mod one_TKM div 10 ^ 12 * 10 ^ 12 = x - x mod 10 ^ 12"
    using div_mult_mod_eq [of "x mod one_TKM" "10 ^ 12"] div_mult_mod_eq [of x one_TKM]
    unfolding low by linarith
  have div: "int (R div 10 ^ 12) = x mod one_TKM div 10 ^ 12"
    using r by (simp add: zdiv_int)
  have point: "ParseANTD (dec_nat W @ ''.'' @ six_digits R) = Inr (x - x mod 10 ^ 12)"
    using ParseANTD_digits(2) [of "dec_nat W" "six_digits R"] six div val w by simp
  have whole: "ParseANTD (dec_nat W) = Inr (x div one_TKM * one_TKM)"
    using ParseANTD_digits(1) [of "dec_nat W" "[]"] w by simp
  show ?thesis
  proof (cases "x mod one_TKM = 0")
    case True
    then show ?thesis
      using whole val by (simp add: format)
  next
    case False
    then show ?thesis
      using point by (simp add: format)
  qed
qed

theorem format_parse_roundtrip_witness:
  "ParseANTD (FormatANTD (Some 1500000000000000001)) = Inr 1500000000000000000"
  using format_parse_roundtrip [of 1500000000000000001] by simp

section \<open>Antartical shares follow the schedule\<close>

lemma halve_shares_pow:
  "(halve_shares ^^ n) r =
     \<lparr>sh_Miner = sh_Miner r div 2 ^ n, sh_Validator = sh_Validator r div 2 ^ n,
      sh_Rotating = sh_Rotating r div 2 ^ n, sh_MainKing = sh_MainKing r div 2 ^ n\<rparr>"
  by (induction n) (simp_all add: halve_shares_def zdiv_zmult2_eq [symmetric] mult.commute)

lemma shares_at_period:
  "RewardSharesAt n BlocksPerHalving = (halve_shares ^^ (unat n div 1051200)) InitialRewardShares"
  by (simp add: RewardSharesAt_def unat_div)

lemma shares_total_period:
  assumes "unat n div 1051200 < 8"
  shows "shares_Total (RewardSharesAt n BlocksPerHalving) = CalculateBlockReward n"
  using assms unfolding period_below_8 shares_at_period halve_shares_pow block_reward_period
  by (auto simp: shares_Total_def InitialRewardShares_def period_reward_def
      InitialBlockReward_def one_TKM_def)

text \<open>
  For the eight periods in which blocks are rewarded, the four Antartical shares of a
  block add up to exactly the reward of the RandomX schedule, with no rounding loss; after
  them, until the 66th halving, the shares stay positive although the block reward is zero.
\<close>

theorem antartical_shares_schedule:
  "(unat n div 1051200 < 8 \<longrightarrow>
      shares_Total (RewardSharesAt n BlocksPerHalving) = CalculateBlockReward n) \<and>
   (8 \<le> unat n div 1051200 \<and> unat n div 1051200 \<le> 66 \<longrightarrow>
      CalculateBlockReward n = 0 \<and> 0 < shares_Total (RewardSharesAt n BlocksPerHalving))"
proof -
  let ?p = "unat n div 1051200"
  have "0 < shares_Total (RewardSharesAt n BlocksPerHalving)"
    if "?p \<le> 66"
  proof -
    have "(2::int) ^ ?p \<le> 2 ^ 66" using that by (intro power_increasing) auto
    also have "\<dots> \<le> 90 * one_TKM" by (simp add: one_TKM_def)
    finally have "0 < 90 * one_TKM div 2 ^ ?p" by (simp add: pos_imp_zdiv_pos_iff)
    then show ?thesis
      unfolding shares_at_period halve_shares_pow
      by (simp add: shares_Total_def InitialRewardShares_def one_TKM_def pos_imp_zdiv_nonneg_iff
          add_pos_nonneg)
  qed
  then show ?thesis
    using shares_total_period [of n] by (auto simp: block_reward_period period_reward_def)
qed

theorem antartical_shares_schedule_witness:
  "shares_Total (RewardSharesAt 1051200 BlocksPerHalving) = CalculateBlockReward 1051200 \<and>
   CalculateBlockReward 8409600 = 0 \<and> 0 < shares_Total (RewardSharesAt 8409600 BlocksPerHalving)"
  using antartical_shares_schedule [of 1051200] antartical_shares_schedule [of 8409600] by simp

end
