(* ===== verification/King_Schedule.thy ===== *)
theory King_Schedule
  imports Prelude
begin

text \<open>
  The rotation loop that \<open>consensus/rotatingking\<close> (\<open>kingAtHeightLocked\<close>) and the two
  builds of \<open>consensus/randomx\<close> (\<open>getRotatingKing\<close>) share. The loop advances a 64-bit
  height by the rotation interval; the addition wraps, so the loop is a partial function and
  not returning is None. The locale \<open>king_schedule\<close> is the contract between the loop and
  the lists of active kings that the components compute: a king that is active stays active.
\<close>

section \<open>The loop\<close>

text \<open>\<open>indexOfKingAddress\<close> and \<open>indexOfRotatingKing\<close>; None is -1.\<close>

fun indexOfKingAddress :: "address list \<Rightarrow> address \<Rightarrow> nat option" where
  "indexOfKingAddress [] a = None"
| "indexOfKingAddress (c # cs) a =
     (if c = a then Some 0 else map_option Suc (indexOfKingAddress cs a))"

text \<open>The body of the loop at one height.\<close>

definition schedule_step :: "(u64 \<Rightarrow> address list) \<Rightarrow> u64 \<Rightarrow> address \<Rightarrow> address" where
  "schedule_step active height current =
     (case active height of
        [] \<Rightarrow> current
      | a # as \<Rightarrow>
          (case indexOfKingAddress (a # as) current of
             None \<Rightarrow> a
           | Some i \<Rightarrow>
               if current = 0 then a
               else if height \<noteq> 0 then (a # as) ! ((i + 1) mod length (a # as))
               else current))"

partial_function (option) schedule_loop ::
    "(u64 \<Rightarrow> address list) \<Rightarrow> u64 \<Rightarrow> u64 \<Rightarrow> u64 \<Rightarrow> address \<Rightarrow> address option" where
  "schedule_loop active interval limit height current =
     (if height \<le> limit
      then schedule_loop active interval limit (height + interval)
             (schedule_step active height current)
      else Some current)"

declare schedule_loop.simps [code]

section \<open>The king of a slot\<close>

text \<open>The specification: slot \<open>k\<close> starts at height \<open>k * interval\<close> and changes the king once.\<close>

definition slot_height :: "u64 \<Rightarrow> nat \<Rightarrow> u64" where
  "slot_height i k = of_nat (k * unat i)"

primrec slot_king :: "(u64 \<Rightarrow> address list) \<Rightarrow> u64 \<Rightarrow> nat \<Rightarrow> address" where
  "slot_king active interval 0 = schedule_step active 0 0"
| "slot_king active interval (Suc k) =
     schedule_step active (slot_height interval (Suc k)) (slot_king active interval k)"

lemma slot_height_0 [simp]: "slot_height i 0 = 0"
  by (simp add: slot_height_def)

lemma slot_height_Suc: "slot_height i k + i = slot_height i (Suc k)"
  by (simp add: slot_height_def algebra_simps)

lemma unat_slot_height: "k * unat i < 2 ^ 64 \<Longrightarrow> unat (slot_height i k) = k * unat i"
  unfolding slot_height_def by (rule unat_of_nat_u64)

lemma slot_height_le:
  "k * unat i < 2 ^ 64 \<Longrightarrow> slot_height i k \<le> limit \<longleftrightarrow> k * unat i \<le> unat limit"
  by (simp add: word_le_nat_alt unat_slot_height)

lemma schedule_loop_slots:
  assumes "0 < unat i" "unat limit + unat i < 2 ^ 64" "k \<le> unat limit div unat i"
  shows "schedule_loop active i limit (slot_height i (Suc k)) (slot_king active i k) =
    Some (slot_king active i (unat limit div unat i))"
  using assms(3)
proof (induction "unat limit div unat i - k" arbitrary: k)
  case 0
  then have k: "k = unat limit div unat i" by simp
  have "unat limit < Suc k * unat i"
    using assms(1) k by (simp add: dividend_less_div_times add.commute)
  moreover have "Suc k * unat i \<le> unat limit + unat i"
    using div_times_less_eq_dividend [of "unat limit" "unat i"] k by simp
  ultimately have "\<not> slot_height i (Suc k) \<le> limit"
    using assms(2) slot_height_le [of "Suc k" i limit] by linarith
  then show ?case by (subst schedule_loop.simps) (simp add: k)
next
  case (Suc d)
  then have k: "Suc k \<le> unat limit div unat i" by simp
  have "Suc k * unat i \<le> unat limit"
    using mult_le_mono1 [OF k, of "unat i"] div_times_less_eq_dividend [of "unat limit" "unat i"]
    by linarith
  then have "slot_height i (Suc k) \<le> limit"
    using slot_height_le [of "Suc k" i limit] assms(2) by linarith
  then show ?case
    using Suc.hyps(1) [of "Suc k"] Suc.hyps(2) k
    by (subst schedule_loop.simps) (simp add: slot_height_Suc)
qed

lemma schedule_loop_terminates:
  assumes "0 < i" "unat limit + unat i < 2 ^ 64"
  shows "schedule_loop active i limit 0 0 = Some (slot_king active i (unat limit div unat i))"
proof -
  have "0 < unat i" using assms(1) by (simp add: word_less_nat_alt)
  from schedule_loop_slots [OF this assms(2), of 0 active]
  show ?thesis using slot_height_Suc [of i 0] by (subst schedule_loop.simps) simp
qed

lemma schedule_loop_diverges: "schedule_loop active i max_u64 h c = None"
proof (cases "schedule_loop active i max_u64 h c")
  case (Some y)
  have "schedule_loop active i l h c = Some y \<Longrightarrow> l \<noteq> max_u64" for active i l h c y
    by (erule schedule_loop.raw_induct [rotated]) (auto split: if_splits)
  with Some show ?thesis by blast
qed

section \<open>What the schedule guarantees\<close>

lemma indexOfKingAddress_Some:
  "indexOfKingAddress l a = Some i \<Longrightarrow> i < length l \<and> l ! i = a"
  by (induction l arbitrary: i) (auto split: if_splits)

lemma indexOfKingAddress_None: "indexOfKingAddress l a = None \<longleftrightarrow> a \<notin> set l"
  by (induction l) auto

lemma indexOfKingAddress_nth:
  assumes "distinct l" "i < length l"
  shows "indexOfKingAddress l (l ! i) = Some i"
proof (cases "indexOfKingAddress l (l ! i)")
  case None
  then show ?thesis using assms(2) by (simp add: indexOfKingAddress_None)
next
  case (Some j)
  then have "j < length l" "l ! j = l ! i" using indexOfKingAddress_Some by blast+
  with Some assms show ?thesis by (metis nth_eq_iff_index_eq)
qed

lemma schedule_step_active:
  assumes "active h \<noteq> []"
  shows "schedule_step active h c \<in> set (active h)"
proof -
  obtain a as where act: "active h = a # as" using assms by (cases "active h") auto
  show ?thesis
  proof (cases "indexOfKingAddress (a # as) c")
    case (Some i)
    then have "c \<in> set (a # as)" using indexOfKingAddress_None [of "a # as" c] by fastforce
    moreover have "(a # as) ! ((i + 1) mod length (a # as)) \<in> set (a # as)"
      by (intro nth_mem mod_less_divisor) simp
    ultimately show ?thesis using act Some by (simp add: schedule_step_def)
  qed (simp add: schedule_step_def act)
qed

lemma schedule_step_round_robin:
  assumes "active h = ks" "distinct ks" "0 \<notin> set ks" "h \<noteq> 0" "j < length ks"
  shows "schedule_step active h (ks ! j) = ks ! (Suc j mod length ks)"
proof -
  obtain a as where ks: "ks = a # as" using assms(5) by (cases ks) auto
  have "ks ! j \<noteq> 0" using assms(3,5) nth_mem by metis
  then show ?thesis
    using indexOfKingAddress_nth [OF assms(2,5)] assms(1,4) by (simp add: schedule_step_def ks)
qed

locale king_schedule =
  fixes active :: "'c \<Rightarrow> u64 \<Rightarrow> address list"
  assumes active_mono: "h \<le> h' \<Longrightarrow> set (active c h) \<subseteq> set (active c h')"
begin

lemma slot_king_active:
  "k * unat i < 2 ^ 64 \<Longrightarrow> slot_king (active c) i k \<noteq> 0 \<Longrightarrow>
     slot_king (active c) i k \<in> set (active c (slot_height i k))"
proof (induction k)
  case 0
  then show ?case
    using schedule_step_active [of "active c" 0 0]
    by (cases "active c 0") (auto simp: schedule_step_def)
next
  case (Suc k)
  show ?case
  proof (cases "active c (slot_height i (Suc k)) = []")
    case False
    then show ?thesis using schedule_step_active by simp
  next
    case True
    then have eq: "slot_king (active c) i (Suc k) = slot_king (active c) i k"
      by (simp add: schedule_step_def)
    have "slot_height i k \<le> slot_height i (Suc k)"
      using Suc.prems(1) by (simp add: word_le_nat_alt unat_slot_height)
    with Suc eq active_mono show ?thesis by fastforce
  qed
qed

lemma king_is_active:
  assumes "0 < i" "unat limit + unat i < 2 ^ 64"
    and "schedule_loop (active c) i limit 0 0 = Some a" "a \<noteq> 0"
  shows "a \<in> set (active c limit)"
proof -
  let ?k = "unat limit div unat i"
  have le: "?k * unat i \<le> unat limit" by simp
  then have lt: "?k * unat i < 2 ^ 64" using unat_u64_bound [of limit] by linarith
  have a: "a = slot_king (active c) i ?k"
    using schedule_loop_terminates [OF assms(1,2), of "active c"] assms(3) by simp
  then have "a \<in> set (active c (slot_height i ?k))"
    using slot_king_active [OF lt, of c] assms(4) by blast
  moreover have "slot_height i ?k \<le> limit"
    using slot_height_le [OF lt] le by blast
  ultimately show ?thesis using active_mono by blast
qed

lemma round_robin:
  assumes "0 < i" "unat limit + unat i < 2 ^ 64"
    and act: "\<And>h. active c h = ks" and ks: "distinct ks" "0 \<notin> set ks" "ks \<noteq> []"
  shows "schedule_loop (active c) i limit 0 0 = Some (ks ! ((unat limit div unat i) mod length ks))"
proof -
  have i: "0 < unat i" using assms(1) by (simp add: word_less_nat_alt)
  have "k * unat i \<le> unat limit \<Longrightarrow> slot_king (active c) i k = ks ! (k mod length ks)" for k
  proof (induction k)
    case 0
    have "indexOfKingAddress ks 0 = None" using ks(2) by (simp add: indexOfKingAddress_None)
    then show ?case using ks(3) by (cases ks) (simp_all add: schedule_step_def act)
  next
    case (Suc k)
    then have "unat (slot_height i (Suc k)) = Suc k * unat i"
      using unat_u64_bound [of limit] by (intro unat_slot_height) linarith
    then have "slot_height i (Suc k) \<noteq> 0" using i by auto
    then have "schedule_step (active c) (slot_height i (Suc k)) (ks ! (k mod length ks)) =
        ks ! (Suc (k mod length ks) mod length ks)"
      using ks by (intro schedule_step_round_robin act) auto
    with Suc show ?case by (simp add: mod_Suc_eq)
  qed
  then show ?thesis
    using schedule_loop_terminates [OF assms(1,2), of "active c"] by simp
qed

end

end
