(* ===== verification/Rotating_King.thy ===== *)
theory Rotating_King
  imports State King_Schedule
begin

text \<open>
  \<open>consensus/rotatingking\<close>: the manager of the rotating kings (\<open>manager.go\<close>), the
  registration rules and the registration commitment (\<open>registration.go\<close>) with their data
  (\<open>types.go\<close>). Mutex operations and log lines are left out; \<open>time.Now()\<close> is an argument;
  an index out of range, which panics, is None. \<open>keccak\<close> is an argument.
\<close>

section \<open>Data\<close>

definition EligibilityThreshold :: int where
  "EligibilityThreshold = 100000 * 10 ^ 18"

record king_rotation =
  kr_BlockHeight :: u64
  kr_PreviousKing :: address
  kr_NewKing :: address
  kr_Timestamp :: int
  kr_Reward :: int
  kr_WasEligible :: bool
  kr_Reason :: string

record king_state =
  ks_CurrentKingIndex :: nat
  ks_RotationHeight :: u64
  ks_NextRotationAt :: u64
  ks_LastUpdated :: int
  ks_RotationCount :: u64
  ks_KingsHistory :: "king_rotation list"
  ks_TotalRewardsDistributed :: int
  ks_KingRewards :: "address \<rightharpoonup> int"

record king_config =
  kc_ChainID :: "int option"
  kc_RotationInterval :: u64
  kc_RotationOffset :: u64
  kc_KingAddresses :: "address list"
  kc_ActivationHeights :: "address \<rightharpoonup> u64"
  kc_ActivationDelay :: u64
  kc_MinStakeRequired :: int

record king_manager =
  km_config :: king_config
  km_state :: king_state
  km_mainKing :: address

record king_registration =
  reg_Address :: address
  reg_Stake :: int
  reg_AddedHeight :: u64
  reg_ActivationHeight :: u64
  reg_RegistrationHash :: hash

section \<open>Construction and queries\<close>

definition NewRotatingKingManagerForChain ::
    "int \<Rightarrow> int option \<Rightarrow> address \<Rightarrow> address list \<Rightarrow> u64 \<Rightarrow> king_manager" where
  "NewRotatingKingManagerForChain now chainID mainKing kingAddresses rotationInterval =
     \<lparr>km_config =
        \<lparr>kc_ChainID = chainID, kc_RotationInterval = rotationInterval, kc_RotationOffset = 0,
         kc_KingAddresses = kingAddresses, kc_ActivationHeights = Map.empty,
         kc_ActivationDelay = 2, kc_MinStakeRequired = EligibilityThreshold\<rparr>,
      km_state =
        \<lparr>ks_CurrentKingIndex = 0, ks_RotationHeight = 0, ks_NextRotationAt = rotationInterval,
         ks_LastUpdated = now, ks_RotationCount = 0, ks_KingsHistory = [],
         ks_TotalRewardsDistributed = 0, ks_KingRewards = Map.empty\<rparr>,
      km_mainKing = mainKing\<rparr>"

definition NewRotatingKingManager :: "int \<Rightarrow> address \<Rightarrow> address list \<Rightarrow> u64 \<Rightarrow> king_manager" where
  "NewRotatingKingManager now mainKing kingAddresses rotationInterval =
     NewRotatingKingManagerForChain now None mainKing kingAddresses rotationInterval"

abbreviation kings :: "king_manager \<Rightarrow> address list" where
  "kings m \<equiv> kc_KingAddresses (km_config m)"

abbreviation king_index :: "king_manager \<Rightarrow> nat" where
  "king_index m \<equiv> ks_CurrentKingIndex (km_state m)"

definition GetCurrentKing :: "king_manager \<Rightarrow> address option" where
  "GetCurrentKing m = (if kings m = [] then Some 0 else index_get (kings m) (king_index m))"

definition GetNextKing :: "king_manager \<Rightarrow> address option" where
  "GetNextKing m =
     (if kings m = [] then Some 0
      else index_get (kings m) ((king_index m + 1) mod length (kings m)))"

text \<open>A missing entry of the map of activation heights reads as 0.\<close>

definition activeKingAddressesAtLocked :: "king_manager \<Rightarrow> u64 \<Rightarrow> address list" where
  "activeKingAddressesAtLocked m blockHeight =
     filter (\<lambda>a. \<not> (case kc_ActivationHeights (km_config m) a of None \<Rightarrow> 0 | Some h \<Rightarrow> h) > blockHeight)
       (kings m)"

definition kingAtHeightLocked :: "king_manager \<Rightarrow> u64 \<Rightarrow> address option" where
  "kingAtHeightLocked m blockHeight =
     (let interval = kc_RotationInterval (km_config m);
          interval = (if interval = 0 then 100 else interval)
      in schedule_loop (activeKingAddressesAtLocked m) interval blockHeight 0 0)"

definition IsCurrentKing :: "king_manager \<Rightarrow> address \<Rightarrow> bool option" where
  "IsCurrentKing m a =
     (if kings m = [] then Some False
      else map_option (\<lambda>k. k = a) (index_get (kings m) (king_index m)))"

definition IsMainKing :: "king_manager \<Rightarrow> address \<Rightarrow> bool" where
  "IsMainKing m a \<longleftrightarrow> km_mainKing m = a"

definition IsKing :: "king_manager \<Rightarrow> address \<Rightarrow> bool option" where
  "IsKing m a = (if IsMainKing m a then Some True else IsCurrentKing m a)"

definition ShouldRotate :: "king_manager \<Rightarrow> u64 \<Rightarrow> bool" where
  "ShouldRotate m blockHeight \<longleftrightarrow> blockHeight \<ge> ks_NextRotationAt (km_state m)"

record rotation_info =
  ro_mainKing :: address
  ro_currentKing :: address
  ro_nextKing :: address
  ro_blocksUntilRotation :: u64
  ro_rotationHeight :: u64
  ro_nextRotationAt :: u64
  ro_rotationInterval :: u64
  ro_kingCount :: nat
  ro_rotationCount :: u64

text \<open>The inner None is the empty map that the code returns without kings.\<close>

definition GetRotationInfo :: "king_manager \<Rightarrow> u64 \<Rightarrow> rotation_info option option" where
  "GetRotationInfo m height =
     (if kings m = [] then Some None
      else
        Option.bind (index_get (kings m) (king_index m)) (\<lambda>currentKing.
        map_option
          (\<lambda>nextKing. Some
             \<lparr>ro_mainKing = km_mainKing m, ro_currentKing = currentKing, ro_nextKing = nextKing,
              ro_blocksUntilRotation =
                (if ks_NextRotationAt (km_state m) > height
                 then ks_NextRotationAt (km_state m) - height else 0),
              ro_rotationHeight = ks_RotationHeight (km_state m),
              ro_nextRotationAt = ks_NextRotationAt (km_state m),
              ro_rotationInterval = kc_RotationInterval (km_config m),
              ro_kingCount = length (kings m),
              ro_rotationCount = ks_RotationCount (km_state m)\<rparr>)
          (index_get (kings m) ((king_index m + 1) mod length (kings m)))))"

section \<open>Registration\<close>

datatype king_error =
    ErrInvalidRegistration
  | ErrInsufficientStake
  | ErrDuplicateRegistration
  | NoKingAddressesConfigured
  | RotationNotDueYet
  | NoEligibleRotatingKing

definition registration_payload ::
    "int option \<Rightarrow> address \<Rightarrow> int option \<Rightarrow> u64 \<Rightarrow> u64 \<Rightarrow> bytes" where
  "registration_payload chainID a stake addedHeight activationHeight =
     (let chainWord =
            (case chainID of
               Some c \<Rightarrow> if c \<ge> 0 then right_aligned 32 c else replicate 32 0
             | None \<Rightarrow> replicate 32 0);
          stakeWord = right_aligned 32 (case stake of None \<Rightarrow> 0 | Some s \<Rightarrow> s)
      in str_bytes ''TKM-ROTATING-KING-REGISTRATION-V2'' @ chainWord @ addr_bytes a @ stakeWord @
         u64_bytes addedHeight @ u64_bytes activationHeight)"

definition RegistrationHashForChain ::
    "(bytes \<Rightarrow> hash) \<Rightarrow> int option \<Rightarrow> address \<Rightarrow> int option \<Rightarrow> u64 \<Rightarrow> u64 \<Rightarrow> hash" where
  "RegistrationHashForChain keccak chainID a stake addedHeight activationHeight =
     keccak (registration_payload chainID a stake addedHeight activationHeight)"

definition RegistrationHash :: "(bytes \<Rightarrow> hash) \<Rightarrow> address \<Rightarrow> int option \<Rightarrow> u64 \<Rightarrow> u64 \<Rightarrow> hash" where
  "RegistrationHash keccak a stake addedHeight activationHeight =
     RegistrationHashForChain keccak None a stake addedHeight activationHeight"

text \<open>None is the nil error.\<close>

definition ValidateRegistration ::
    "address \<Rightarrow> int option \<Rightarrow> u64 \<Rightarrow> u64 \<Rightarrow> int option \<Rightarrow> king_error option" where
  "ValidateRegistration a stake currentHeight activationDelay minimumStake =
     (case (stake, minimumStake) of
        (Some s, Some ms) \<Rightarrow>
          if a = 0 \<or> s < 0 \<or> ms < 0 then Some ErrInvalidRegistration
          else if s < ms then Some ErrInsufficientStake
          else if currentHeight > max_u64 - activationDelay then Some ErrInvalidRegistration
          else None
      | _ \<Rightarrow> Some ErrInvalidRegistration)"

section \<open>Operations that change the manager\<close>

definition mgr_SetRotationInterval :: "u64 \<Rightarrow> king_manager \<Rightarrow> king_manager" where
  "mgr_SetRotationInterval interval m =
     (if interval = 0 then m
      else m\<lparr>km_config := (km_config m)\<lparr>kc_RotationInterval := interval\<rparr>,
             km_state := (km_state m)\<lparr>ks_NextRotationAt := ks_RotationHeight (km_state m) + interval\<rparr>\<rparr>)"

definition AddKingAddressAt :: "address \<Rightarrow> u64 \<Rightarrow> king_manager \<Rightarrow> king_manager" where
  "AddKingAddressAt a activationHeight m =
     (let cfg = km_config m in
      if a = 0 then m
      else if a \<in> set (kc_KingAddresses cfg) then
        (case kc_ActivationHeights cfg a of
           Some currentHeight \<Rightarrow>
             if activationHeight \<noteq> 0 \<and> activationHeight < currentHeight
             then m\<lparr>km_config := cfg\<lparr>kc_ActivationHeights :=
                      (kc_ActivationHeights cfg)(a \<mapsto> activationHeight)\<rparr>\<rparr>
             else m
         | None \<Rightarrow> m)
      else m\<lparr>km_config := cfg
             \<lparr>kc_KingAddresses := kc_KingAddresses cfg @ [a],
              kc_ActivationHeights :=
                (if activationHeight \<noteq> 0
                 then (kc_ActivationHeights cfg)(a \<mapsto> activationHeight)
                 else kc_ActivationHeights cfg)\<rparr>\<rparr>)"

definition AddKingAddress :: "address \<Rightarrow> king_manager \<Rightarrow> king_manager" where
  "AddKingAddress a m = AddKingAddressAt a 0 m"

definition RegisterKingAt ::
    "(bytes \<Rightarrow> hash) \<Rightarrow> address \<Rightarrow> u64 \<Rightarrow> int option \<Rightarrow> king_manager \<Rightarrow>
     king_error + (king_registration \<times> king_manager)" where
  "RegisterKingAt keccak a currentHeight balance m =
     (let cfg = km_config m in
      case ValidateRegistration a balance currentHeight (kc_ActivationDelay cfg)
             (Some (kc_MinStakeRequired cfg)) of
        Some e \<Rightarrow> Inl e
      | None \<Rightarrow>
          if a \<in> set (kc_KingAddresses cfg) then Inl ErrDuplicateRegistration
          else
            let activationHeight = currentHeight + kc_ActivationDelay cfg
            in Inr
                 (\<lparr>reg_Address = a, reg_Stake = (case balance of None \<Rightarrow> 0 | Some b \<Rightarrow> b),
                   reg_AddedHeight = currentHeight, reg_ActivationHeight = activationHeight,
                   reg_RegistrationHash =
                     RegistrationHashForChain keccak (kc_ChainID cfg) a balance currentHeight
                       activationHeight\<rparr>,
                  m\<lparr>km_config := cfg
                    \<lparr>kc_KingAddresses := kc_KingAddresses cfg @ [a],
                     kc_ActivationHeights :=
                       (kc_ActivationHeights cfg)(a \<mapsto> activationHeight)\<rparr>\<rparr>))"

text \<open>\<open>balance != nil && balance.Cmp(MinStakeRequired) >= 0\<close>.\<close>

definition eligible :: "king_manager \<Rightarrow> (address \<Rightarrow> int option) \<Rightarrow> address \<Rightarrow> bool" where
  "eligible m getBalance a =
     (case getBalance a of None \<Rightarrow> False | Some b \<Rightarrow> b \<ge> kc_MinStakeRequired (km_config m))"

text \<open>The search loop: the first eligible candidate among the offsets that are left.\<close>

fun find_eligible :: "king_manager \<Rightarrow> (address \<Rightarrow> int option) \<Rightarrow> nat list \<Rightarrow> nat option" where
  "find_eligible m getBalance [] = None"
| "find_eligible m getBalance (i # is) =
     (let candidateIndex = (king_index m + i) mod length (kings m)
      in if eligible m getBalance (kings m ! candidateIndex) then Some candidateIndex
         else find_eligible m getBalance is)"

text \<open>The new index: the next king if there is no state provider or it is eligible.\<close>

definition next_king_index :: "king_manager \<Rightarrow> (address \<Rightarrow> int option) option \<Rightarrow> nat option" where
  "next_king_index m stateProvider =
     (let newIndex = (king_index m + 1) mod length (kings m)
      in case stateProvider of
           None \<Rightarrow> Some newIndex
         | Some getBalance \<Rightarrow>
             if eligible m getBalance (kings m ! newIndex) then Some newIndex
             else find_eligible m getBalance [1..<length (kings m)])"

text \<open>The outer None is the panic of an index out of range.\<close>

definition RotateToNextKing ::
    "int \<Rightarrow> int \<Rightarrow> u64 \<Rightarrow> (address \<Rightarrow> int option) option \<Rightarrow> king_manager \<Rightarrow>
     (king_error + king_manager) option" where
  "RotateToNextKing now now' blockHeight stateProvider m =
     (if kings m = [] then Some (Inl NoKingAddressesConfigured)
      else if blockHeight < ks_NextRotationAt (km_state m) then Some (Inl RotationNotDueYet)
      else
        Option.bind (index_get (kings m) (king_index m)) (\<lambda>previousKing.
        case next_king_index m stateProvider of
          None \<Rightarrow> Some (Inl NoEligibleRotatingKing)
        | Some newIndex \<Rightarrow>
            let rotation =
                  \<lparr>kr_BlockHeight = blockHeight, kr_PreviousKing = previousKing,
                   kr_NewKing = kings m ! newIndex, kr_Timestamp = now, kr_Reward = 0,
                   kr_WasEligible = True, kr_Reason = []\<rparr>;
                history = ks_KingsHistory (km_state m) @ [rotation];
                history = (if length history > 100 then tl history else history)
            in Some (Inr (m\<lparr>km_state := (km_state m)
                 \<lparr>ks_KingsHistory := history, ks_CurrentKingIndex := newIndex,
                  ks_RotationHeight := blockHeight,
                  ks_NextRotationAt := blockHeight + kc_RotationInterval (km_config m),
                  ks_RotationCount := ks_RotationCount (km_state m) + 1,
                  ks_LastUpdated := now'\<rparr>\<rparr>))))"

section \<open>The legacy distribution with floating-point percentages\<close>

text \<open>
  \<open>DistributeRewards\<close> of \<open>rewards.go\<close> multiplies \<open>big.Float\<close> values. The percentages
  are the doubles nearest to 0.1, 0.4 and 0.5, here mantissa and negative binary exponent;
  the precision of the product is that of the larger operand, which for an integer is its bit
  length but at least 64; rounding is to nearest, ties to even, and \<open>Int\<close> truncates.
\<close>

definition round_even :: "nat \<Rightarrow> nat \<Rightarrow> nat" where
  "round_even prec n =
     (if bit_length n \<le> prec then n
      else
        let s = 2 ^ (bit_length n - prec); q = n div s; r = n mod s
        in (if 2 * r > s \<or> (2 * r = s \<and> odd q) then q + 1 else q) * s)"

definition float_share :: "nat \<Rightarrow> nat \<times> nat \<Rightarrow> int" where
  "float_share total_reward percent =
     int (round_even (max (max (bit_length total_reward) 64) 53) (total_reward * fst percent)
          div 2 ^ snd percent)"

definition float_10 :: "nat \<times> nat" where "float_10 = (3602879701896397, 55)"
definition float_40 :: "nat \<times> nat" where "float_40 = (3602879701896397, 53)"
definition float_50 :: "nat \<times> nat" where "float_50 = (1, 1)"

text \<open>The amounts of the three recipients for a positive total.\<close>

definition legacy_amounts :: "address \<Rightarrow> address \<Rightarrow> nat \<Rightarrow> int \<times> int \<times> int" where
  "legacy_amounts mainKing rotatingKing total_reward =
     (let mk = float_share total_reward float_10;
          rk = float_share total_reward float_40;
          mi = float_share total_reward float_50;
          (mk, mi) = (if mainKing = 0 then (0, mi + mk) else (mk, mi))
      in if rotatingKing = 0
         then if mainKing \<noteq> 0 then (mk + rk, 0, mi) else (mk, 0, mi + rk)
         else (mk, rk, mi))"

text \<open>The Main King and the miner are paid without a test for the zero address.\<close>

definition credit_positive :: "address \<Rightarrow> int \<Rightarrow> 'k statedb \<Rightarrow> 'k statedb option" where
  "credit_positive a v st =
     (if v > 0 then map_option (\<lambda>w. AddBalance a w st) (MustFromBig v) else Some st)"

definition legacy_DistributeRewards ::
    "'k statedb \<Rightarrow> address \<Rightarrow> address \<Rightarrow> address \<Rightarrow> nat \<Rightarrow> (int \<times> 'k statedb) option" where
  "legacy_DistributeRewards st mainKing rotatingKing miner total_reward =
     (if total_reward = 0 then Some (0, st)
      else
        let (mk, rk, mi) = legacy_amounts mainKing rotatingKing total_reward
        in Option.bind (credit_positive mainKing mk st) (\<lambda>st.
           Option.bind (pay rotatingKing rk st) (\<lambda>st.
           map_option (\<lambda>st. (int total_reward, st)) (credit_positive miner mi st))))"

section \<open>The schedule of the manager\<close>

interpretation mgr_schedule: king_schedule activeKingAddressesAtLocked
  by unfold_locales (auto simp: activeKingAddressesAtLocked_def)

abbreviation mgr_interval :: "king_manager \<Rightarrow> u64" where
  "mgr_interval m \<equiv>
     (if kc_RotationInterval (km_config m) = 0 then 100 else kc_RotationInterval (km_config m))"

lemma mgr_interval_pos: "0 < mgr_interval m"
  by (simp add: word_gt_0)

text \<open>
  C28: Looking up the king of a height returns, as long as the height plus the rotation
  interval fits 64 bits, and the king it returns is a configured king whose activation
  height has been reached, or the zero address when no king was active at any slot.
\<close>

theorem king_at_height_active:
  assumes "unat blockHeight + unat (mgr_interval m) < 2 ^ 64"
  shows "\<exists>a. kingAtHeightLocked m blockHeight = Some a \<and>
    (a \<noteq> 0 \<longrightarrow> a \<in> set (kings m) \<and>
      (\<forall>h. kc_ActivationHeights (km_config m) a = Some h \<longrightarrow> h \<le> blockHeight))"
proof -
  obtain a where a: "schedule_loop (activeKingAddressesAtLocked m) (mgr_interval m) blockHeight 0 0
      = Some a"
    using schedule_loop_terminates [OF mgr_interval_pos assms] by blast
  have "a \<noteq> 0 \<longrightarrow> a \<in> set (activeKingAddressesAtLocked m blockHeight)"
    using mgr_schedule.king_is_active [OF mgr_interval_pos assms a] by blast
  with a show ?thesis
    by (auto simp: kingAtHeightLocked_def activeKingAddressesAtLocked_def Let_def)
qed

text \<open>
  C29: Kings that are active from genesis take turns: with distinct non-zero kings the king of
  a height is the one at position (height / interval) modulo the number of kings.
\<close>

theorem king_round_robin:
  assumes "unat blockHeight + unat (mgr_interval m) < 2 ^ 64"
    and "kc_ActivationHeights (km_config m) = Map.empty"
    and "distinct (kings m)" "0 \<notin> set (kings m)" "kings m \<noteq> []"
  shows "kingAtHeightLocked m blockHeight =
    Some (kings m ! ((unat blockHeight div unat (mgr_interval m)) mod length (kings m)))"
proof -
  have "activeKingAddressesAtLocked m h = kings m" for h
    using assms(2) by (simp add: activeKingAddressesAtLocked_def)
  from mgr_schedule.round_robin [OF mgr_interval_pos assms(1) this assms(3-5)]
  show ?thesis by (simp add: kingAtHeightLocked_def Let_def)
qed

definition three_kings :: king_manager where
  "three_kings = NewRotatingKingManager 0 9 [1, 2, 3] 100"

lemma three_kings_simps [simp]:
  "kings three_kings = [1, 2, 3]" "kc_RotationInterval (km_config three_kings) = 100"
  "kc_ActivationHeights (km_config three_kings) = Map.empty"
  by (simp_all add: three_kings_def NewRotatingKingManager_def NewRotatingKingManagerForChain_def)

theorem king_at_height_active_witness:
  "\<exists>a. kingAtHeightLocked three_kings 450 = Some a \<and> (a \<noteq> 0 \<longrightarrow> a \<in> set (kings three_kings))"
  using king_at_height_active [of 450 three_kings] by auto

theorem king_round_robin_witness: "kingAtHeightLocked three_kings 450 = Some 2"
  using king_round_robin [of 450 three_kings] by simp

text \<open>
  C34: At the largest block height the lookup never returns, whatever the kings: the loop
  condition holds for every 64-bit height, and the height wraps around.
\<close>

theorem king_at_max_height_diverges: "kingAtHeightLocked m max_u64 = None"
  by (simp add: kingAtHeightLocked_def Let_def schedule_loop_diverges)

section \<open>Reachable managers\<close>

text \<open>One call of an exported method that changes the manager.\<close>

inductive mgr_step :: "(bytes \<Rightarrow> hash) \<Rightarrow> king_manager \<Rightarrow> king_manager \<Rightarrow> bool" for keccak where
  step_interval: "mgr_step keccak m (mgr_SetRotationInterval i m)"
| step_add: "mgr_step keccak m (AddKingAddressAt a h m)"
| step_register: "RegisterKingAt keccak a h b m = Inr (r, m') \<Longrightarrow> mgr_step keccak m m'"
| step_rotate: "RotateToNextKing now now' h sp m = Some (Inr m') \<Longrightarrow> mgr_step keccak m m'"

text \<open>The managers that such calls make of the ones the constructor builds for the kings \<open>ks\<close>.\<close>

inductive mgr_reachable :: "(bytes \<Rightarrow> hash) \<Rightarrow> address list \<Rightarrow> king_manager \<Rightarrow> bool" for keccak ks where
  reach_new: "mgr_reachable keccak ks (NewRotatingKingManagerForChain now chainID mainKing ks interval)"
| reach_step: "mgr_reachable keccak ks m \<Longrightarrow> mgr_step keccak m m' \<Longrightarrow> mgr_reachable keccak ks m'"

text \<open>The kings are those of the constructor and new ones that are distinct and not zero.\<close>

definition kings_extend :: "address list \<Rightarrow> king_manager \<Rightarrow> bool" where
  "kings_extend ks m \<longleftrightarrow>
     (\<exists>added. kings m = ks @ added \<and> distinct added \<and> 0 \<notin> set added \<and> set added \<inter> set ks = {})"

text \<open>Consecutive entries of the history: each king is deposed by its successor.\<close>

fun history_chain :: "king_rotation list \<Rightarrow> bool" where
  "history_chain (r # s # rest) \<longleftrightarrow> kr_PreviousKing s = kr_NewKing r \<and> history_chain (s # rest)"
| "history_chain _ \<longleftrightarrow> True"

definition mgr_ok :: "king_manager \<Rightarrow> bool" where
  "mgr_ok m \<longleftrightarrow>
     (if kings m = [] then king_index m = 0 \<and> ks_KingsHistory (km_state m) = []
      else king_index m < length (kings m)) \<and>
     (\<forall>a. kc_ActivationHeights (km_config m) a \<noteq> None \<longrightarrow> a \<in> set (kings m)) \<and>
     ks_NextRotationAt (km_state m) =
       ks_RotationHeight (km_state m) + kc_RotationInterval (km_config m) \<and>
     length (ks_KingsHistory (km_state m)) \<le> 100 \<and>
     history_chain (ks_KingsHistory (km_state m)) \<and>
     (ks_KingsHistory (km_state m) \<noteq> [] \<longrightarrow>
        kr_NewKing (last (ks_KingsHistory (km_state m))) = kings m ! king_index m)"

lemma history_chain_snoc:
  "history_chain (h @ [r]) \<longleftrightarrow> history_chain h \<and> (h \<noteq> [] \<longrightarrow> kr_PreviousKing r = kr_NewKing (last h))"
  by (induction h rule: history_chain.induct) auto

lemma history_chain_tl: "history_chain h \<Longrightarrow> history_chain (tl h)"
  by (cases h rule: history_chain.cases) auto

lemma find_eligible_Some:
  assumes "find_eligible m gb is = Some n" "kings m \<noteq> []"
  shows "n < length (kings m) \<and> eligible m gb (kings m ! n) \<and>
    (\<exists>i \<in> set is. n = (king_index m + i) mod length (kings m))"
  using assms by (induction "is") (auto simp: Let_def split: if_splits)

lemma find_eligible_first:
  assumes "find_eligible m gb [a..<b] = Some n"
  shows "\<exists>i \<in> {a..<b}. n = (king_index m + i) mod length (kings m) \<and> eligible m gb (kings m ! n) \<and>
    (\<forall>j \<in> {a..<i}. \<not> eligible m gb (kings m ! ((king_index m + j) mod length (kings m))))"
  using assms
proof (induction "b - a" arbitrary: a)
  case (Suc d)
  then have ab: "[a..<b] = a # [Suc a..<b]" by (simp add: upt_conv_Cons)
  show ?case
  proof (cases "eligible m gb (kings m ! ((king_index m + a) mod length (kings m)))")
    case True
    with Suc ab show ?thesis by (intro bexI [of _ a]) (auto simp: Let_def)
  next
    case False
    then have "find_eligible m gb [Suc a..<b] = Some n"
      using Suc.prems ab by (simp add: Let_def)
    moreover have "d = b - Suc a" using Suc.hyps(2) by simp
    ultimately obtain i where "i \<in> {Suc a..<b}" "n = (king_index m + i) mod length (kings m)"
      "eligible m gb (kings m ! n)"
      "\<forall>j \<in> {Suc a..<i}. \<not> eligible m gb (kings m ! ((king_index m + j) mod length (kings m)))"
      using Suc.hyps(1) [of "Suc a"] by blast
    with False show ?thesis
      by (intro bexI [of _ i]) (auto simp: Suc_le_eq order.order_iff_strict)
  qed
qed simp

lemma find_eligible_None:
  "find_eligible m gb is = None \<longleftrightarrow>
     (\<forall>i \<in> set is. \<not> eligible m gb (kings m ! ((king_index m + i) mod length (kings m))))"
  by (induction "is") (auto simp: Let_def)

lemma next_king_index_Some:
  assumes "next_king_index m sp = Some n" "kings m \<noteq> []"
  shows "n < length (kings m)"
  using assms find_eligible_Some
  by (auto simp: next_king_index_def Let_def split: option.splits if_splits)

lemma mgr_ok_new: "mgr_ok (NewRotatingKingManagerForChain now chainID mainKing ks interval)"
  by (simp add: mgr_ok_def NewRotatingKingManagerForChain_def)

lemma mgr_ok_interval: "mgr_ok m \<Longrightarrow> mgr_ok (mgr_SetRotationInterval i m)"
  by (auto simp: mgr_ok_def mgr_SetRotationInterval_def)

text \<open>Appending a new king keeps the invariant, whatever its activation height.\<close>

lemma mgr_ok_append:
  assumes "mgr_ok m" "\<And>b. ah b \<noteq> None \<Longrightarrow> b \<in> insert a (set (kings m))"
  shows "mgr_ok (m\<lparr>km_config := (km_config m)
    \<lparr>kc_KingAddresses := kings m @ [a], kc_ActivationHeights := ah\<rparr>\<rparr>)"
  using assms by (auto simp: mgr_ok_def nth_append split: if_splits)

lemma mgr_ok_add:
  assumes "mgr_ok m"
  shows "mgr_ok (AddKingAddressAt a h m)"
proof (cases "a = 0 \<or> a \<in> set (kings m)")
  case True
  then show ?thesis
    using assms by (auto simp: AddKingAddressAt_def Let_def mgr_ok_def split: option.splits)
next
  case False
  then show ?thesis
    using assms mgr_ok_append [OF assms, where a = a]
    by (auto simp: AddKingAddressAt_def Let_def mgr_ok_def)
qed

lemma RegisterKingAt_Inr:
  assumes "RegisterKingAt keccak a h b m = Inr (r, m')"
  shows "a \<noteq> 0" "a \<notin> set (kings m)" "h \<le> max_u64 - kc_ActivationDelay (km_config m)"
    "\<exists>s. b = Some s \<and> kc_MinStakeRequired (km_config m) \<le> s"
    "m' = m\<lparr>km_config := (km_config m)
      \<lparr>kc_KingAddresses := kings m @ [a], kc_ActivationHeights :=
        (kc_ActivationHeights (km_config m))(a \<mapsto> h + kc_ActivationDelay (km_config m))\<rparr>\<rparr>"
    "reg_ActivationHeight r = h + kc_ActivationDelay (km_config m)"
  using assms
  by (auto simp: RegisterKingAt_def ValidateRegistration_def Let_def
      split: option.splits if_splits)

lemma mgr_ok_register:
  assumes "mgr_ok m" "RegisterKingAt keccak a h b m = Inr (r, m')"
  shows "mgr_ok m'"
  unfolding RegisterKingAt_Inr(5) [OF assms(2)]
  using assms(1) by (intro mgr_ok_append) (auto simp: mgr_ok_def split: if_splits)

lemma history_capped:
  assumes "history_chain (h @ [r])" "length h \<le> 100"
    and "H = (if length (h @ [r]) > 100 then tl (h @ [r]) else h @ [r])"
  shows "history_chain H" "length H \<le> 100" "last H = r"
  using assms history_chain_tl [OF assms(1)] by (cases h; auto)+

lemma mgr_ok_rotate:
  assumes "mgr_ok m" "RotateToNextKing now now' h sp m = Some (Inr m')"
  shows "mgr_ok m'"
proof -
  obtain n prev where n: "next_king_index m sp = Some n" and ne: "kings m \<noteq> []"
    and prev: "index_get (kings m) (king_index m) = Some prev"
    using assms(2) by (auto simp: RotateToNextKing_def split: if_splits bind_splits option.splits)
  let ?h = "ks_KingsHistory (km_state m)"
  define r where "r = \<lparr>kr_BlockHeight = h, kr_PreviousKing = prev, kr_NewKing = kings m ! n,
    kr_Timestamp = now, kr_Reward = 0, kr_WasEligible = True, kr_Reason = []\<rparr>"
  define H where "H = (if length (?h @ [r]) > 100 then tl (?h @ [r]) else ?h @ [r])"
  have m': "m' = m\<lparr>km_state := (km_state m)\<lparr>ks_KingsHistory := H, ks_CurrentKingIndex := n,
      ks_RotationHeight := h, ks_NextRotationAt := h + kc_RotationInterval (km_config m),
      ks_RotationCount := ks_RotationCount (km_state m) + 1, ks_LastUpdated := now'\<rparr>\<rparr>"
    using assms(2) n ne prev by (simp add: RotateToNextKing_def Let_def H_def r_def split: if_splits)
  have "prev = kings m ! king_index m"
    using prev by (auto simp: index_get_def split: if_splits)
  then have "history_chain (?h @ [r])"
    using assms(1) by (auto simp: history_chain_snoc mgr_ok_def r_def)
  moreover have "length ?h \<le> 100" using assms(1) by (simp add: mgr_ok_def)
  ultimately have H: "history_chain H" "length H \<le> 100" "last H = r"
    using history_capped [OF _ _ H_def] by blast+
  have "kr_NewKing r = kings m ! n" by (simp add: r_def)
  with H show ?thesis
    using assms(1) ne next_king_index_Some [OF n ne] unfolding m' by (auto simp: mgr_ok_def)
qed

lemma mgr_reachable_ok: "mgr_reachable keccak ks m \<Longrightarrow> mgr_ok m"
proof (induction rule: mgr_reachable.induct)
  case (reach_step m m')
  from reach_step(2) show ?case
    by (cases rule: mgr_step.cases)
      (use reach_step.IH mgr_ok_interval mgr_ok_add mgr_ok_register mgr_ok_rotate in blast)+
qed (rule mgr_ok_new)

text \<open>Each call leaves the kings or appends one that is new and not zero.\<close>

lemma mgr_step_kings:
  assumes "mgr_step keccak m m'"
  shows "kings m' = kings m \<or> (\<exists>a. a \<noteq> 0 \<and> a \<notin> set (kings m) \<and> kings m' = kings m @ [a])"
  using assms
proof (cases rule: mgr_step.cases)
  case (step_register a h b r)
  from RegisterKingAt_Inr(1,2,5) [OF this] show ?thesis by simp
next
  case (step_rotate now now' h sp)
  then show ?thesis by (auto simp: RotateToNextKing_def Let_def split: if_splits bind_splits option.splits)
qed (auto simp: mgr_SetRotationInterval_def AddKingAddressAt_def Let_def split: option.splits)

lemma mgr_reachable_kings: "mgr_reachable keccak ks m \<Longrightarrow> kings_extend ks m"
proof (induction rule: mgr_reachable.induct)
  case (reach_new now chainID mainKing interval)
  then show ?case by (simp add: kings_extend_def NewRotatingKingManagerForChain_def)
next
  case (reach_step m m')
  from reach_step.IH obtain added where a: "kings m = ks @ added" "distinct added" "0 \<notin> set added"
    "set added \<inter> set ks = {}" by (auto simp: kings_extend_def)
  from mgr_step_kings [OF reach_step.hyps(2)] show ?case
  proof
    assume "\<exists>b. b \<noteq> 0 \<and> b \<notin> set (kings m) \<and> kings m' = kings m @ [b]"
    then obtain b where "b \<noteq> 0" "b \<notin> set (kings m)" "kings m' = kings m @ [b]" by blast
    with a show ?case unfolding kings_extend_def by (intro exI [of _ "added @ [b]"]) auto
  qed (use a in \<open>auto simp: kings_extend_def\<close>)
qed

text \<open>
  C30: In every manager that calls of its methods can produce, the kings are those given to the
  constructor, which checks nothing, followed by kings that are distinct, not zero and not among the
  former, so they are distinct and non-zero if the given ones are; only registered kings have an
  activation height, the next rotation is one interval after the last, the history has at most 100
  entries in which every king is deposed by its successor and the last one is in office, and the
  current king, the next king and the next rotation are found without an index panic.
\<close>

theorem manager_invariant:
  assumes "mgr_reachable keccak ks m"
  shows "kings_extend ks m \<and> (distinct ks \<and> 0 \<notin> set ks \<longrightarrow> distinct (kings m) \<and> 0 \<notin> set (kings m)) \<and>
    mgr_ok m \<and> (\<exists>a. GetCurrentKing m = Some a \<and> (kings m \<noteq> [] \<longrightarrow> a \<in> set (kings m))) \<and>
    (\<exists>b. GetNextKing m = Some b) \<and> (\<exists>r. RotateToNextKing now now' h sp m = Some r)"
proof -
  have ext: "kings_extend ks m" using assms by (rule mgr_reachable_kings)
  then have dist: "distinct ks \<and> 0 \<notin> set ks \<longrightarrow> distinct (kings m) \<and> 0 \<notin> set (kings m)"
    by (auto simp: kings_extend_def)
  have ok: "mgr_ok m" using assms by (rule mgr_reachable_ok)
  then have "kings m \<noteq> [] \<Longrightarrow> king_index m < length (kings m)"
    by (auto simp: mgr_ok_def split: if_splits)
  with ok ext dist show ?thesis
    by (auto simp: GetCurrentKing_def GetNextKing_def RotateToNextKing_def index_get_def Let_def
        split: option.splits)
qed

theorem manager_invariant_witness:
  "\<exists>m. m = AddKingAddressAt 4 50 (NewRotatingKingManagerForChain 0 None 9 [1, 2, 3] 100) \<and>
     distinct (kings m) \<and> (\<exists>r. RotateToNextKing 0 0 100 None m = Some r)"
proof -
  let ?m = "NewRotatingKingManagerForChain 0 None 9 [1, 2, 3] 100"
  have "mgr_reachable (\<lambda>_. 0) [1, 2, 3] (AddKingAddressAt 4 50 ?m)"
    by (rule reach_step [OF reach_new step_add])
  from manager_invariant [OF this] show ?thesis by simp
qed

text \<open>
  A rotation that is due fails only when no king other than the one in office has the
  required balance, and otherwise installs a king with that balance, the nearest one after
  the king in office, at the given height; the next rotation is due one interval later.
\<close>

theorem rotation_picks_eligible:
  assumes "mgr_ok m" "kings m \<noteq> []" "ks_NextRotationAt (km_state m) \<le> h" "length (kings m) > 1"
  shows "(RotateToNextKing now now' h (Some gb) m = Some (Inl NoEligibleRotatingKing) \<longleftrightarrow>
      (\<forall>i \<in> {1..<length (kings m)}.
        \<not> eligible m gb (kings m ! ((king_index m + i) mod length (kings m))))) \<and>
    (\<forall>m'. RotateToNextKing now now' h (Some gb) m = Some (Inr m') \<longrightarrow>
      (\<exists>i \<in> {1..<length (kings m)}. king_index m' = (king_index m + i) mod length (kings m) \<and>
        eligible m gb (kings m ! king_index m') \<and>
        (\<forall>j \<in> {1..<i}. \<not> eligible m gb (kings m ! ((king_index m + j) mod length (kings m))))) \<and>
      ks_RotationHeight (km_state m') = h \<and>
      ks_NextRotationAt (km_state m') = h + kc_RotationInterval (km_config m) \<and>
      kings m' = kings m)"
proof -
  let ?prev = "kings m ! king_index m"
  have "king_index m < length (kings m)" using assms by (simp add: mgr_ok_def)
  then have prev: "index_get (kings m) (king_index m) = Some ?prev" by (simp add: index_get_def)
  have nxt: "next_king_index m (Some gb) = find_eligible m gb [1..<length (kings m)]"
    using assms(4) by (simp add: next_king_index_def Let_def upt_conv_Cons)
  show ?thesis
  proof (cases "find_eligible m gb [1..<length (kings m)]")
    case None
    then have "\<forall>i \<in> {1..<length (kings m)}.
        \<not> eligible m gb (kings m ! ((king_index m + i) mod length (kings m)))"
      using find_eligible_None [of m gb "[1..<length (kings m)]"] by simp
    with nxt None prev assms(2,3) show ?thesis
      by (simp add: RotateToNextKing_def)
  next
    case (Some n)
    then have "\<not> (\<forall>i \<in> {1..<length (kings m)}.
        \<not> eligible m gb (kings m ! ((king_index m + i) mod length (kings m))))"
      using find_eligible_None [of m gb "[1..<length (kings m)]"] by simp
    with nxt Some find_eligible_first [OF Some] prev assms(2,3) show ?thesis
      by (simp add: RotateToNextKing_def Let_def)
  qed
qed

theorem rotation_picks_eligible_witness:
  "\<exists>m'. RotateToNextKing 0 0 100 (Some (\<lambda>a. if a = 3 then Some EligibilityThreshold else None))
     three_kings = Some (Inr m') \<and> ks_NextRotationAt (km_state m') = 200"
proof -
  let ?gb = "\<lambda>a::address. if a = 3 then Some EligibilityThreshold else None"
  have ok: "mgr_ok three_kings"
    unfolding three_kings_def NewRotatingKingManager_def by (rule mgr_ok_new)
  obtain m' where "RotateToNextKing 0 0 100 (Some ?gb) three_kings = Some (Inr m')"
    by (simp add: RotateToNextKing_def three_kings_def NewRotatingKingManager_def
        NewRotatingKingManagerForChain_def index_get_def next_king_index_def eligible_def
        Let_def upt_rec)
  moreover have "ks_NextRotationAt (km_state three_kings) = 100"
    by (simp add: three_kings_def NewRotatingKingManager_def NewRotatingKingManagerForChain_def)
  ultimately show ?thesis
    using rotation_picks_eligible [OF ok, of 100 0 0 ?gb] by auto
qed

section \<open>Registration\<close>

text \<open>
  A successful registration needs the minimum stake, cannot wrap its activation height,
  leaves the schedule unchanged below the activation height and appends the new king to it
  from that height on.
\<close>

theorem registration_delays_activation:
  assumes "RegisterKingAt keccak a h b m = Inr (r, m')"
  shows "(\<exists>s. b = Some s \<and> kc_MinStakeRequired (km_config m) \<le> s) \<and>
    unat (reg_ActivationHeight r) = unat h + unat (kc_ActivationDelay (km_config m)) \<and>
    activeKingAddressesAtLocked m' k =
      activeKingAddressesAtLocked m k @ (if reg_ActivationHeight r \<le> k then [a] else [])"
proof -
  note reg = RegisterKingAt_Inr [OF assms]
  let ?d = "kc_ActivationDelay (km_config m)"
  have "unat (max_u64 - ?d) = 2 ^ 64 - 1 - unat ?d"
    using unat_sub [of ?d max_u64] by (simp add: unat_max_u64)
  then have "unat h + unat ?d < 2 ^ 64"
    using reg(3) unat_u64_bound [of ?d] by (simp add: word_le_nat_alt)
  then have "unat (reg_ActivationHeight r) = unat h + unat ?d"
    using reg(6) by (simp add: unat_word_ariths)
  moreover have "filter (\<lambda>x. \<not> k < (case (ah(a \<mapsto> v)) x of None \<Rightarrow> 0 | Some h \<Rightarrow> h)) (kings m) =
      filter (\<lambda>x. \<not> k < (case ah x of None \<Rightarrow> 0 | Some h \<Rightarrow> h)) (kings m)" for ah v
    by (rule filter_cong [OF refl]) (use reg(2) in auto)
  then have "activeKingAddressesAtLocked m' k =
      activeKingAddressesAtLocked m k @ (if reg_ActivationHeight r \<le> k then [a] else [])"
    unfolding reg(5,6) activeKingAddressesAtLocked_def by (simp add: not_less)
  ultimately show ?thesis using reg(4) by blast
qed

theorem registration_delays_activation_witness:
  "\<exists>r m'. RegisterKingAt (\<lambda>_. 0) 5 7 (Some EligibilityThreshold) three_kings = Inr (r, m') \<and>
     unat (reg_ActivationHeight r) = 9 \<and>
     activeKingAddressesAtLocked m' 8 = activeKingAddressesAtLocked three_kings 8"
proof -
  obtain r m' where ok: "RegisterKingAt (\<lambda>_. 0) 5 7 (Some EligibilityThreshold) three_kings = Inr (r, m')"
    by (simp add: RegisterKingAt_def three_kings_def NewRotatingKingManager_def
        NewRotatingKingManagerForChain_def ValidateRegistration_def EligibilityThreshold_def Let_def)
  moreover have "kc_ActivationDelay (km_config three_kings) = 2"
    by (simp add: three_kings_def NewRotatingKingManager_def NewRotatingKingManagerForChain_def)
  ultimately show ?thesis
    using registration_delays_activation [OF ok, of 8] by (auto simp: word_le_nat_alt)
qed

text \<open>What the commitment keeps of a chain ID and of a stake.\<close>

definition committed_chain :: "int option \<Rightarrow> int" where
  "committed_chain c = (case c of None \<Rightarrow> 0 | Some n \<Rightarrow> if n < 0 then 0 else n mod 2 ^ 256)"

definition committed_stake :: "int option \<Rightarrow> int" where
  "committed_stake s = (case s of None \<Rightarrow> 0 | Some n \<Rightarrow> \<bar>n\<bar> mod 2 ^ 256)"

lemma be_bytes_eq_iff: "be_bytes n x = be_bytes n y \<longleftrightarrow> x mod 256 ^ n = y mod 256 ^ n"
  by (metis be_nat_be_bytes be_bytes_be_nat length_be_bytes)

lemma be_bytes_32_eq:
  "be_bytes 32 (nat \<bar>x\<bar>) = be_bytes 32 (nat \<bar>y\<bar>) \<longleftrightarrow> \<bar>x\<bar> mod 2 ^ 256 = \<bar>y\<bar> mod 2 ^ 256"
proof -
  have p: "(256::nat) ^ 32 = 2 ^ 256" by simp
  have "nat \<bar>z\<bar> mod 2 ^ 256 = nat (\<bar>z\<bar> mod 2 ^ 256)" for z :: int
    by (simp add: nat_mod_distrib)
  then show ?thesis
    unfolding be_bytes_eq_iff p by (simp add: eq_nat_nat_iff)
qed

lemma chain_word_eq:
  "(case c of Some n \<Rightarrow> if n \<ge> 0 then right_aligned 32 n else replicate 32 0
     | None \<Rightarrow> replicate 32 0) = be_bytes 32 (nat \<bar>committed_chain c\<bar>)"
proof -
  have reduce: "be_bytes 32 (nat \<bar>n\<bar>) = be_bytes 32 (nat \<bar>n mod 2 ^ 256\<bar>)" if "n \<ge> 0" for n :: int
    using that by (subst be_bytes_32_eq) simp
  show ?thesis
  proof (cases "\<exists>n \<ge> 0. c = Some n")
    case True
    then obtain n where n: "n \<ge> 0" "c = Some n" by blast
    then have "committed_chain c = n mod 2 ^ 256" by (simp add: committed_chain_def)
    then show ?thesis
      using reduce [OF n(1)] n by (simp only: option.case if_True right_aligned_be_bytes)
  next
    case False
    then have "committed_chain c = 0" by (auto simp: committed_chain_def split: option.split)
    then show ?thesis using False by (auto simp: be_bytes_0 split: option.split)
  qed
qed

lemma payload_eq_iff:
  "registration_payload c a s h k = registration_payload c' a' s' h' k' \<longleftrightarrow>
     committed_chain c = committed_chain c' \<and> a = a' \<and> committed_stake s = committed_stake s' \<and>
     h = h' \<and> k = k'"
proof -
  have range: "\<bar>committed_chain c\<bar> mod 2 ^ 256 = committed_chain c" for c
    by (auto simp: committed_chain_def split: option.split)
  have stake: "\<bar>case s of None \<Rightarrow> 0 | Some n \<Rightarrow> n\<bar> mod 2 ^ 256 = committed_stake s" for s
    by (auto simp: committed_stake_def split: option.split)
  have chain_eq: "be_bytes 32 (nat \<bar>committed_chain c\<bar>) = be_bytes 32 (nat \<bar>committed_chain c'\<bar>) \<longleftrightarrow>
      committed_chain c = committed_chain c'" for c c'
    by (simp only: be_bytes_32_eq range)
  have stake_eq: "right_aligned 32 (case s of None \<Rightarrow> 0 | Some n \<Rightarrow> n) =
      right_aligned 32 (case s' of None \<Rightarrow> 0 | Some n \<Rightarrow> n) \<longleftrightarrow>
      committed_stake s = committed_stake s'" for s s'
    by (simp only: right_aligned_be_bytes be_bytes_32_eq stake)
  have len: "length (right_aligned 32 x) = 32" for x
    by (simp only: right_aligned_be_bytes length_be_bytes)
  show ?thesis
    unfolding registration_payload_def Let_def chain_word_eq
    by (simp add: append_eq_append_conv chain_eq stake_eq len)
qed

text \<open>
  With a hash that does not collide on the two payloads, equal registration commitments
  mean the same chain, king, stake and heights: a registration cannot be replayed with
  another chain ID, height or stake. Chain IDs and stakes count modulo 2^256, and a missing
  or negative chain ID counts as 0.
\<close>

theorem registration_hash_binds:
  assumes "inj_on keccak {registration_payload c a s h k, registration_payload c' a' s' h' k'}"
  shows "RegistrationHashForChain keccak c a s h k = RegistrationHashForChain keccak c' a' s' h' k' \<longleftrightarrow>
    committed_chain c = committed_chain c' \<and> a = a' \<and> committed_stake s = committed_stake s' \<and>
    h = h' \<and> k = k'"
proof -
  have "RegistrationHashForChain keccak c a s h k = RegistrationHashForChain keccak c' a' s' h' k' \<longleftrightarrow>
      registration_payload c a s h k = registration_payload c' a' s' h' k'"
    unfolding RegistrationHashForChain_def by (rule inj_on_eq_iff [OF assms]) simp_all
  then show ?thesis by (simp only: payload_eq_iff)
qed

theorem registration_hash_binds_witness:
  "RegistrationHashForChain (\<lambda>p. if p = registration_payload (Some 1) 7 (Some 5) 1 3 then 1 else 0)
       (Some 1) 7 (Some 5) 1 3 \<noteq>
   RegistrationHashForChain (\<lambda>p. if p = registration_payload (Some 1) 7 (Some 5) 1 3 then 1 else 0)
       (Some 2) 7 (Some 5) 1 3"
proof -
  let ?k = "\<lambda>p. if p = registration_payload (Some 1) 7 (Some 5) 1 3 then 1 else (0 :: hash)"
  have "inj_on ?k {registration_payload (Some 1) 7 (Some 5) 1 3,
      registration_payload (Some 2) 7 (Some 5) 1 3}"
    by (auto simp: inj_on_def)
  from registration_hash_binds [OF this] show ?thesis
    by (simp add: committed_chain_def)
qed

section \<open>Over-payment by the legacy distribution\<close>

text \<open>
  The floating-point distribution of \<open>rewards.go\<close> creates money: for the block reward of
  200 TKM it reports 200 TKM distributed but credits 5551 wei more than that.
\<close>

theorem legacy_distribution_overpays:
  "legacy_amounts 1 2 (200 * 10 ^ 18) =
     (20 * 10 ^ 18 + 1110, 80 * 10 ^ 18 + 4441, 100 * 10 ^ 18)"
  by (simp add: legacy_amounts_def float_share_def float_10_def float_40_def float_50_def
      round_even_def Let_def bit_length_numeral)

end
