(* ===== verification/Reward_Tx.thy ===== *)
theory Reward_Tx
  imports Prelude
begin

text \<open>
  Transactions, as far as the reward rules read them, and the synthetic reward transactions of
  \<open>core/types/transaction.go\<close>. The hash of a transaction is computed from its encoding by
  code outside this development and is an argument where it is compared.
\<close>

record transaction =
  tx_Type :: u8
  tx_Nonce :: u64
  tx_To :: "address option"
  tx_Value :: int
  tx_Gas :: u64
  tx_GasPrice :: int
  tx_Data :: bytes

definition LegacyTxType :: u8 where "LegacyTxType = 0"

definition blockRewardTxPrefix :: bytes where
  "blockRewardTxPrefix = str_bytes ''tkmchain:blockreward:v1:''"

definition BlockRewardMainKing :: nat where "BlockRewardMainKing = 0"
definition BlockRewardRotatingKing :: nat where "BlockRewardRotatingKing = 1"
definition BlockRewardMiner :: nat where "BlockRewardMiner = 2"
definition BlockRewardValidator :: nat where "BlockRewardValidator = 3"

lemmas reward_kinds = BlockRewardMainKing_def BlockRewardRotatingKing_def BlockRewardMiner_def
  BlockRewardValidator_def

definition NewBlockRewardTx :: "u64 \<Rightarrow> nat \<Rightarrow> address \<Rightarrow> int option \<Rightarrow> transaction" where
  "NewBlockRewardTx blockNumber kind to amount =
     \<lparr>tx_Type = LegacyTxType, tx_Nonce = blockNumber * 3 + of_nat kind, tx_To = Some to,
      tx_Value = (case amount of None \<Rightarrow> 0 | Some a \<Rightarrow> a), tx_Gas = 0, tx_GasPrice = 0,
      tx_Data = blockRewardTxPrefix @ u64_bytes blockNumber @ [of_nat kind]\<rparr>"

definition NewValidatorRewardTx :: "u64 \<Rightarrow> address \<Rightarrow> int option \<Rightarrow> transaction" where
  "NewValidatorRewardTx blockNumber to amount =
     \<lparr>tx_Type = LegacyTxType, tx_Nonce = blockNumber * 4 + of_nat BlockRewardValidator,
      tx_To = Some to, tx_Value = (case amount of None \<Rightarrow> 0 | Some a \<Rightarrow> a), tx_Gas = 0,
      tx_GasPrice = 0,
      tx_Data = blockRewardTxPrefix @ u64_bytes blockNumber @ [of_nat BlockRewardValidator]\<rparr>"

text \<open>A nil transaction is None.\<close>

definition IsBlockRewardTx :: "transaction option \<Rightarrow> bool" where
  "IsBlockRewardTx t =
     (case t of
        None \<Rightarrow> False
      | Some tx \<Rightarrow>
          \<not> (tx_Type tx \<noteq> LegacyTxType \<or> tx_Gas tx \<noteq> 0 \<or> tx_GasPrice tx \<noteq> 0) \<and>
          length (tx_Data tx) = length blockRewardTxPrefix + 9 \<and>
          take (length blockRewardTxPrefix) (tx_Data tx) = blockRewardTxPrefix)"

definition BlockRewardKind :: "transaction option \<Rightarrow> nat option" where
  "BlockRewardKind t =
     (case t of
        Some tx \<Rightarrow> if IsBlockRewardTx t then Some (unat (last (tx_Data tx))) else None
      | None \<Rightarrow> None)"

definition IsValidatorRewardTx :: "transaction option \<Rightarrow> bool" where
  "IsValidatorRewardTx t \<longleftrightarrow> BlockRewardKind t = Some BlockRewardValidator"

section \<open>Reward transactions are recognised\<close>

lemma length_reward_prefix [simp]: "length blockRewardTxPrefix = 24"
  by (simp add: blockRewardTxPrefix_def)

lemma IsBlockRewardTx_new [simp]:
  "IsBlockRewardTx (Some (NewBlockRewardTx n k a v))"
  "IsBlockRewardTx (Some (NewValidatorRewardTx n a v))"
  by (simp_all add: IsBlockRewardTx_def NewBlockRewardTx_def NewValidatorRewardTx_def)

lemma BlockRewardKind_new:
  "k < 256 \<Longrightarrow> BlockRewardKind (Some (NewBlockRewardTx n k a v)) = Some k"
  "BlockRewardKind (Some (NewValidatorRewardTx n a v)) = Some BlockRewardValidator"
  by (simp_all add: BlockRewardKind_def)
    (simp_all add: NewBlockRewardTx_def NewValidatorRewardTx_def reward_kinds)

lemma NewBlockRewardTx_sel [simp]:
  "tx_To (NewBlockRewardTx n k a (Some v)) = Some a" "tx_Value (NewBlockRewardTx n k a (Some v)) = v"
  "tx_Data (NewBlockRewardTx n k a (Some v)) = blockRewardTxPrefix @ u64_bytes n @ [of_nat k]"
  by (simp_all add: NewBlockRewardTx_def)

text \<open>
  Every reward transaction built for a block is recognised as one, with the kind it was
  built for, and two of them carry the same data only if block and kind agree, so the
  markers of different blocks and of different recipients are different transactions.
\<close>

theorem reward_tx_recognised:
  assumes "k < 4" "j < 4"
  shows "BlockRewardKind (Some (NewBlockRewardTx n k a v)) = Some k \<and>
    IsValidatorRewardTx (Some (NewValidatorRewardTx n a v)) \<and>
    (tx_Data (NewBlockRewardTx n k a v) = tx_Data (NewBlockRewardTx m j b w) \<longleftrightarrow> n = m \<and> k = j)"
proof -
  have "(of_nat k :: byte) = of_nat j \<longleftrightarrow> k = j"
  proof -
    have "unat (of_nat k :: byte) = k" "unat (of_nat j :: byte) = j" using assms by simp_all
    then show ?thesis by metis
  qed
  then show ?thesis
    using assms BlockRewardKind_new
    by (simp add: IsValidatorRewardTx_def NewBlockRewardTx_def append_eq_append_conv)
qed

theorem reward_tx_recognised_witness:
  "BlockRewardKind (Some (NewBlockRewardTx 7 1 5 None)) = Some 1 \<and>
   tx_Data (NewBlockRewardTx 7 1 5 None) \<noteq> tx_Data (NewBlockRewardTx 7 2 5 None)"
  using reward_tx_recognised [of 1 2 7 5 None 7 5 None] by simp

text \<open>
  The nonces of validator reward markers are not separate from those of the other reward
  markers, although their comment says they can never collide: the validator marker of block
  3 has the nonce of the Main King's marker of block 5.
\<close>

theorem validator_nonce_collides:
  "tx_Nonce (NewValidatorRewardTx 3 a v) = tx_Nonce (NewBlockRewardTx 5 BlockRewardMainKing a v)"
  by (simp add: NewValidatorRewardTx_def NewBlockRewardTx_def reward_kinds)

end
