(* ===== verification/Randomx_Rewards.thy ===== *)
theory Randomx_Rewards
  imports Rewards Rotating_King Reward_Tx "HOL-Library.Monad_Syntax"
begin

text \<open>
  The reward path of the RandomX engine: \<open>consensus/randomx/randomx.go\<close> from
  \<open>FinalizeAndAssemble\<close> to \<open>activeRotatingKingsAtLocked\<close>, and where the build without cgo
  (\<open>randomx_nocgo.go\<close>) differs, that variant. A function returns None when it panics (a nil
  block number, an amount above 256 bits) or does not return (the rotation loop at heights
  close to 2^64). The interface \<open>chain\<close> is the chain configuration it gives, None for nil.
  The storage slot of the rotating king, a hash, and the hash of a transaction are arguments.
\<close>

section \<open>The engine\<close>

record rx_configuration =
  rxc_PostQuantumMainKingAddress :: address
  rxc_QuantumResistantTime :: "u64 option"
  rxc_AntarticalTime :: "u64 option"

record randomx =
  rx_config :: "rx_configuration option"
  rx_mainKing :: address
  rx_rotatingKings :: "address list"
  rx_rotatingKingActivations :: "address \<rightharpoonup> u64"
  rx_rotationInterval :: u64
  rx_miningThreads :: int
  rx_chain :: "chain_config option"

record withdrawal =
  wd_Address :: address
  wd_Amount :: u64

record body =
  bd_Transactions :: "transaction list"
  bd_Withdrawals :: "withdrawal list"

definition SystemAddress :: address where
  "SystemAddress = 0xfffffffffffffffffffffffffffffffffffffffe"

text \<open>
  The engine that \<open>New\<close> returns for a given configuration when the cache of epoch 0 could be
  built: cgo keeps every non-zero address, the other build adds them one by one.
\<close>

definition New :: "rx_configuration \<Rightarrow> int \<Rightarrow> int \<Rightarrow> address \<Rightarrow> address list \<Rightarrow> randomx" where
  "New config numCPU threads mainKing kingAddresses =
     (let kings = filter (\<lambda>k. k \<noteq> 0) kingAddresses
      in \<lparr>rx_config = Some config, rx_mainKing = mainKing, rx_rotatingKings = kings,
          rx_rotatingKingActivations = (\<lambda>k. if k \<in> set kings then Some 0 else None),
          rx_rotationInterval = 100,
          rx_miningThreads = (if threads \<le> 0 then numCPU else threads), rx_chain = None\<rparr>)"

definition rx_SetRotationInterval :: "u64 \<Rightarrow> randomx \<Rightarrow> randomx" where
  "rx_SetRotationInterval interval rx =
     (if interval = 0 then rx else rx\<lparr>rx_rotationInterval := interval\<rparr>)"

definition SetThreads :: "int \<Rightarrow> int \<Rightarrow> randomx \<Rightarrow> randomx" where
  "SetThreads numCPU threads rx =
     rx\<lparr>rx_miningThreads := (if threads \<le> 0 then numCPU else threads)\<rparr>"

definition getMiningThreads :: "int \<Rightarrow> randomx \<Rightarrow> int" where
  "getMiningThreads numCPU rx = (if rx_miningThreads rx \<le> 0 then numCPU else rx_miningThreads rx)"

definition AddRotatingKingAt :: "address \<Rightarrow> u64 \<Rightarrow> randomx \<Rightarrow> randomx" where
  "AddRotatingKingAt a activationHeight rx =
     (let act = rx_rotatingKingActivations rx in
      if a = 0 then rx
      else if a \<in> set (rx_rotatingKings rx) then
        (case act a of
           Some current \<Rightarrow>
             if activationHeight < current
             then rx\<lparr>rx_rotatingKingActivations := act(a \<mapsto> activationHeight)\<rparr> else rx
         | None \<Rightarrow> rx\<lparr>rx_rotatingKingActivations := act(a \<mapsto> activationHeight)\<rparr>)
      else rx\<lparr>rx_rotatingKings := rx_rotatingKings rx @ [a],
              rx_rotatingKingActivations := act(a \<mapsto> activationHeight)\<rparr>)"

definition AddRotatingKing :: "address \<Rightarrow> randomx \<Rightarrow> randomx" where
  "AddRotatingKing a rx = AddRotatingKingAt a 0 rx"

definition activeRotatingKingsAtLocked :: "randomx \<Rightarrow> u64 \<Rightarrow> address list" where
  "activeRotatingKingsAtLocked rx blockNumber =
     filter (\<lambda>a. \<not> (case rx_rotatingKingActivations rx a of None \<Rightarrow> 0 | Some h \<Rightarrow> h) > blockNumber)
       (rx_rotatingKings rx)"

definition getRotatingKing :: "randomx \<Rightarrow> u64 \<Rightarrow> address option" where
  "getRotatingKing rx blockNumber =
     (if rx_rotatingKings rx = [] \<or> rx_rotationInterval rx = 0 then Some 0
      else schedule_loop (activeRotatingKingsAtLocked rx) (rx_rotationInterval rx) blockNumber 0 0)"

text \<open>The build without cgo.\<close>

definition nocgo_activeRotatingKingsAtLocked :: "randomx \<Rightarrow> u64 \<Rightarrow> address list" where
  "nocgo_activeRotatingKingsAtLocked rx blockNumber =
     filter (\<lambda>a. case rx_rotatingKingActivations rx a of
                   None \<Rightarrow> True | Some activation \<Rightarrow> blockNumber \<ge> activation)
       (rx_rotatingKings rx)"

definition nocgo_getRotatingKing :: "randomx \<Rightarrow> u64 \<Rightarrow> address option" where
  "nocgo_getRotatingKing rx blockNumber =
     (if rx_rotatingKings rx = [] \<or> rx_rotationInterval rx = 0 then Some 0
      else schedule_loop (nocgo_activeRotatingKingsAtLocked rx) (rx_rotationInterval rx)
             blockNumber 0 0)"

definition nocgo_New :: "rx_configuration \<Rightarrow> int \<Rightarrow> address \<Rightarrow> address list \<Rightarrow> randomx" where
  "nocgo_New config threads mainKing kingAddresses =
     fold AddRotatingKing kingAddresses
       \<lparr>rx_config = Some config, rx_mainKing = mainKing, rx_rotatingKings = [],
        rx_rotatingKingActivations = Map.empty, rx_rotationInterval = 100,
        rx_miningThreads = (if threads \<le> 0 then 1 else threads), rx_chain = None\<rparr>"

definition mainKingAt :: "randomx \<Rightarrow> header \<Rightarrow> address" where
  "mainKingAt rx h =
     (case rx_config rx of
        None \<Rightarrow> 0
      | Some c \<Rightarrow>
          if rxc_PostQuantumMainKingAddress c \<noteq> 0 \<and>
             (case rxc_QuantumResistantTime c of None \<Rightarrow> False | Some t \<Rightarrow> Time h \<ge> t)
          then rxc_PostQuantumMainKingAddress c
          else rx_mainKing rx)"

definition antarticalActive :: "randomx \<Rightarrow> header \<Rightarrow> bool" where
  "antarticalActive rx h \<longleftrightarrow>
     Number h \<noteq> None \<and>
     ((case rx_chain rx of None \<Rightarrow> False | Some c \<Rightarrow> IsAntartical c (Number h) (Time h)) \<or>
      (case rx_config rx of
         None \<Rightarrow> False
       | Some c \<Rightarrow> (case rxc_AntarticalTime c of None \<Rightarrow> False | Some t \<Rightarrow> Time h \<ge> t)))"

section \<open>Shares\<close>

record shares6 =
  s_mainKing :: address
  s_mainKingReward :: int
  s_rotatingKing :: address
  s_rotatingKingReward :: int
  s_miner :: address
  s_minerReward :: int

text \<open>The Antartical branch that \<open>rewardShares\<close> and \<open>rewardMarkerShares\<close> have in common.\<close>

definition antartical_amounts :: "address \<Rightarrow> address \<Rightarrow> u64 \<Rightarrow> int \<times> int \<times> int" where
  "antartical_amounts mainKing rotatingKing blockNumber =
     (let shares = RewardSharesAt blockNumber DefaultBlocksPerHalving;
          (mk, mi) = (if mainKing = 0 then (0, sh_Miner shares + sh_MainKing shares)
                      else (sh_MainKing shares, sh_Miner shares));
          (rk, mi) = (if rotatingKing = 0 then (0, mi + sh_Rotating shares)
                      else (sh_Rotating shares, mi))
      in (mk, rk, mi))"

definition rewardShares :: "randomx \<Rightarrow> header \<Rightarrow> int option \<Rightarrow> shares6 option" where
  "rewardShares rx h totalReward =
     do { n \<leftarrow> Number h;
          let blockNumber = big_u64 n;
          rotatingKing \<leftarrow> getRotatingKing rx blockNumber;
          let mainKing = mainKingAt rx h;
          let (mk, rk, mi) =
            (case totalReward of
               None \<Rightarrow> (0, 0, 0)
             | Some t \<Rightarrow>
                 if t = 0 then (0, 0, 0)
                 else if antarticalActive rx h
                 then antartical_amounts mainKing rotatingKing blockNumber
                 else reward_amounts mainKing rotatingKing t);
          Some \<lparr>s_mainKing = mainKing, s_mainKingReward = mk, s_rotatingKing = rotatingKing,
                s_rotatingKingReward = rk, s_miner = Coinbase h, s_minerReward = mi\<rparr> }"

definition rewardMarkerShares :: "randomx \<Rightarrow> header \<Rightarrow> int option \<Rightarrow> shares6 option" where
  "rewardMarkerShares rx h totalReward =
     do { n \<leftarrow> Number h;
          let blockNumber = big_u64 n;
          rotatingKing \<leftarrow> getRotatingKing rx blockNumber;
          let mainKing = mainKingAt rx h;
          let (mk, rk, mi) =
            (case totalReward of
               None \<Rightarrow> (0, 0, 0)
             | Some t \<Rightarrow>
                 if t = 0 then (0, 0, 0)
                 else if antarticalActive rx h
                 then antartical_amounts mainKing rotatingKing blockNumber
                 else
                   let (mk, rk, mi) = split_reward t
                   in if mainKing = 0 then (0, 0, mi + mk + rk) else (mk, rk, mi));
          Some \<lparr>s_mainKing = mainKing, s_mainKingReward = mk, s_rotatingKing = rotatingKing,
                s_rotatingKingReward = rk, s_miner = Coinbase h, s_minerReward = mi\<rparr> }"

text \<open>The build without cgo tests the chain's Antartical fork a second time.\<close>

definition nocgo_rewardShares :: "randomx \<Rightarrow> header \<Rightarrow> int option \<Rightarrow> shares6 option" where
  "nocgo_rewardShares rx h totalReward =
     do { n \<leftarrow> Number h;
          let blockNumber = big_u64 n;
          rotatingKing \<leftarrow> nocgo_getRotatingKing rx blockNumber;
          let mainKing = mainKingAt rx h;
          let (mk, rk, mi) =
            (case totalReward of
               None \<Rightarrow> (0, 0, 0)
             | Some t \<Rightarrow>
                 if t = 0 then (0, 0, 0)
                 else if antarticalActive rx h
                 then antartical_amounts mainKing rotatingKing blockNumber
                 else if (case rx_chain rx of None \<Rightarrow> False
                          | Some c \<Rightarrow> IsAntartical c (Number h) (Time h))
                 then antartical_amounts mainKing rotatingKing blockNumber
                 else reward_amounts mainKing rotatingKing t);
          Some \<lparr>s_mainKing = mainKing, s_mainKingReward = mk, s_rotatingKing = rotatingKing,
                s_rotatingKingReward = rk, s_miner = Coinbase h, s_minerReward = mi\<rparr> }"

section \<open>Paying rewards into the state\<close>

definition distributeRewardsToState ::
    "randomx \<Rightarrow> header \<Rightarrow> int option \<Rightarrow> 'k statedb \<Rightarrow> 'k statedb option" where
  "distributeRewardsToState rx h totalReward st =
     do { s \<leftarrow> rewardShares rx h totalReward;
          pays [(s_mainKing s, s_mainKingReward s), (s_rotatingKing s, s_rotatingKingReward s),
                (s_miner s, s_minerReward s)] st }"

definition distributeRewardsToStateWithRotatingKing ::
    "randomx \<Rightarrow> header \<Rightarrow> int option \<Rightarrow> address \<Rightarrow> 'k statedb \<Rightarrow> 'k statedb option" where
  "distributeRewardsToStateWithRotatingKing rx h totalReward rotatingKing st =
     do { s \<leftarrow> rewardShares rx h totalReward;
          let (mk, rk, mi) =
            (if rotatingKing = 0
             then if s_mainKing s \<noteq> 0
                  then (s_mainKingReward s + s_rotatingKingReward s, 0, s_minerReward s)
                  else (s_mainKingReward s, 0, s_minerReward s + s_rotatingKingReward s)
             else (s_mainKingReward s, s_rotatingKingReward s, s_minerReward s));
          pays [(s_mainKing s, mk), (rotatingKing, rk), (s_miner s, mi)] st }"

definition writeRotatingKingToStateValue :: "'k \<Rightarrow> address \<Rightarrow> 'k statedb \<Rightarrow> 'k statedb" where
  "writeRotatingKingToStateValue slot rotatingKing st =
     SetState SystemAddress slot (ucast rotatingKing) st"

definition writeRotatingKingToState ::
    "randomx \<Rightarrow> 'k \<Rightarrow> u64 \<Rightarrow> 'k statedb \<Rightarrow> 'k statedb option" where
  "writeRotatingKingToState rx slot blockNumber st =
     map_option (\<lambda>k. writeRotatingKingToStateValue slot k st) (getRotatingKing rx blockNumber)"

definition applyWithdrawals :: "body option \<Rightarrow> 'k statedb \<Rightarrow> 'k statedb" where
  "applyWithdrawals bd st =
     (case bd of
        None \<Rightarrow> st
      | Some b \<Rightarrow>
          fold (\<lambda>w st. AddBalance (wd_Address w) (ucast (wd_Amount w) * 1000000000) st)
            (bd_Withdrawals b) st)"

definition skipImplicitRewards :: "chain_config option \<Rightarrow> header \<Rightarrow> body option \<Rightarrow> bool" where
  "skipImplicitRewards chain h bd =
     (case chain of
        None \<Rightarrow> False
      | Some c \<Rightarrow>
          IsKyoto c (Number h) (Time h) \<and>
          (case bd of
             None \<Rightarrow> True
           | Some b \<Rightarrow> \<not> list_ex (\<lambda>tx. IsBlockRewardTx (Some tx)) (bd_Transactions b)))"

definition distributeKyotoEmptyBlockRewards ::
    "randomx \<Rightarrow> header \<Rightarrow> int option \<Rightarrow> 'k statedb \<Rightarrow> 'k statedb option" where
  "distributeKyotoEmptyBlockRewards rx h blockReward st =
     (case blockReward of
        None \<Rightarrow> Some st
      | Some r \<Rightarrow>
          if r = 0 then Some st
          else
            let mainKingReward = r * 50 div 100;
                minerReward = r - mainKingReward
            in pays [(mainKingAt rx h, mainKingReward), (Coinbase h, minerReward)] st)"

definition rewardKind :: "transaction \<Rightarrow> int" where
  "rewardKind tx = (if tx_Data tx = [] then - 1 else uint (last (tx_Data tx)))"

text \<open>The payment of one reward transaction of the body.\<close>

definition body_payment :: "randomx \<Rightarrow> transaction \<Rightarrow> 'k statedb \<Rightarrow> 'k statedb option" where
  "body_payment rx tx st =
     (case tx_To tx of
        None \<Rightarrow> Some st
      | Some to \<Rightarrow>
          if tx_Value tx = 0 then Some st
          else
            let recipient =
                  (if rewardKind tx = int BlockRewardRotatingKing \<and> to = 0 \<and> rx_mainKing rx \<noteq> 0
                   then rx_mainKing rx else to)
            in if recipient = 0 then Some st
               else map_option (\<lambda>v. AddBalance recipient v st) (MustFromBig (tx_Value tx)))"

primrec body_payments :: "randomx \<Rightarrow> transaction list \<Rightarrow> 'k statedb \<Rightarrow> 'k statedb option" where
  "body_payments rx [] st = Some st"
| "body_payments rx (tx # txs) st = Option.bind (body_payment rx tx st) (body_payments rx txs)"

text \<open>The Boolean result and the state; the transactions before the first reward are skipped.\<close>

definition distributeBodyRewardTransactions ::
    "randomx \<Rightarrow> body option \<Rightarrow> 'k statedb \<Rightarrow> (bool \<times> 'k statedb) option" where
  "distributeBodyRewardTransactions rx bd st =
     (case bd of
        None \<Rightarrow> Some (False, st)
      | Some b \<Rightarrow>
          let tail = dropWhile (\<lambda>tx. \<not> IsBlockRewardTx (Some tx)) (bd_Transactions b)
          in if tail = [] then Some (False, st)
             else if \<not> list_all (\<lambda>tx. IsBlockRewardTx (Some tx)) tail then Some (False, st)
             else map_option (\<lambda>st. (True, st)) (body_payments rx tail st))"

definition finalizeRewards ::
    "randomx \<Rightarrow> 'k \<Rightarrow> chain_config option \<Rightarrow> header \<Rightarrow> body option \<Rightarrow> 'k statedb \<Rightarrow> 'k statedb option"
  where
  "finalizeRewards rx slot chain h bd st =
     do { let st = applyWithdrawals bd st;
          n \<leftarrow> Number h;
          let blockNumber = big_u64 n;
          st \<leftarrow> writeRotatingKingToState rx slot blockNumber st;
          if Coinbase h = 0 then Some st
          else do {
            (done, st) \<leftarrow> distributeBodyRewardTransactions rx bd st;
            if done then Some st
            else if skipImplicitRewards chain h bd
            then distributeKyotoEmptyBlockRewards rx h (Some (CalculateBlockReward blockNumber)) st
            else
              let blockReward = CalculateBlockReward blockNumber
              in if blockReward > 0 then distributeRewardsToState rx h (Some blockReward) st
                 else Some st } }"

section \<open>Historical finalization\<close>

definition historicalRotatingKingAddresses :: "address list" where
  "historicalRotatingKingAddresses =
     [0x08959f2d8aaeb6a1a27a2dc3f6d0b07fd1fba21a, 0xa934a0a34a11eaeadc9a850d1017db2cb2216672,
      0xa76a7a2ec8c25400739ef5556cca8ae0c6247123, 0x577ebcf6d33f394e153156b1570fef0ab0ab4b3a,
      0x7a1e6b083943a95d45e8f3a07b90f93e63c0dbae, 0x4901ae660c6346c633d09a800056368d3cd6199c,
      0xcea49fe4228945e23aa5fa3ddfdc643ceabae1e7, 0x5a23aeec3ae9d21c93f5c560b4e080a6e3a68479,
      0xa5fa147d3705e2fc6aa80314c22f2673fef7a0ba, 0x618d891c7faafc4769c398100d9ff0eca1e48ffb,
      0xf4829bb30f5f0b8d009a1f1f2fffb891878b2f73, 0xb53681fc516570aa8c73266762c5494db7e5a260,
      0x4f8194062c21cfe921d294e79c6b913efc8f70ce]"

text \<open>The candidates in the order in which the code tries them.\<close>

definition kyoto_candidates ::
    "randomx \<Rightarrow> 'k \<Rightarrow> header \<Rightarrow> u64 \<Rightarrow> ('k statedb \<Rightarrow> 'k statedb option) list" where
  "kyoto_candidates rx slot h blockNumber =
     (let reward = Some (CalculateBlockReward blockNumber);
          slot_written = writeRotatingKingToState rx slot blockNumber
      in [\<lambda>s. Option.bind (slot_written s) (distributeKyotoEmptyBlockRewards rx h reward),
          distributeKyotoEmptyBlockRewards rx h reward,
          slot_written,
          Some,
          \<lambda>s. Option.bind (slot_written s) (distributeRewardsToState rx h reward)] @
         concat (map (\<lambda>king.
           [\<lambda>s. distributeKyotoEmptyBlockRewards rx h reward (writeRotatingKingToStateValue slot king s),
            \<lambda>s. Some (writeRotatingKingToStateValue slot king s),
            \<lambda>s. distributeRewardsToStateWithRotatingKing rx h reward king
                  (writeRotatingKingToStateValue slot king s)])
           historicalRotatingKingAddresses))"

text \<open>The loop over the candidates; \<open>root\<close> is \<open>IntermediateRoot\<close> of the copied state.\<close>

fun try_candidates ::
    "('s \<Rightarrow> hash) \<Rightarrow> hash \<Rightarrow> ('s \<Rightarrow> 's option) list \<Rightarrow> 's \<Rightarrow> (bool \<times> 's) option" where
  "try_candidates root targetRoot [] st = Some (False, st)"
| "try_candidates root targetRoot (apply_to # cs) st =
     do { st' \<leftarrow> apply_to st;
          if root st' \<noteq> targetRoot then try_candidates root targetRoot cs st
          else Some (True, st') }"

definition FinalizeKyotoEmptyBlockForRoot ::
    "randomx \<Rightarrow> 'k \<Rightarrow> ('k statedb \<Rightarrow> hash) \<Rightarrow> chain_config option \<Rightarrow> header \<Rightarrow> body option \<Rightarrow> hash \<Rightarrow>
     'k statedb \<Rightarrow> (bool \<times> 'k statedb) option" where
  "FinalizeKyotoEmptyBlockForRoot rx slot root chain h bd targetRoot st =
     (case chain of
        None \<Rightarrow> Some (False, st)
      | Some c \<Rightarrow>
          if \<not> IsKyoto c (Number h) (Time h) then Some (False, st)
          else
            (case bd of
               None \<Rightarrow> Some (False, st)
             | Some b \<Rightarrow>
                 if Coinbase h = 0 then Some (False, st)
                 else if list_ex (\<lambda>tx. IsBlockRewardTx (Some tx)) (bd_Transactions b)
                 then Some (False, st)
                 else
                   do { n \<leftarrow> Number h;
                        try_candidates root targetRoot
                          (kyoto_candidates rx slot h (big_u64 n)) st }))"

section \<open>Reward transactions\<close>

definition RewardTransactions :: "randomx \<Rightarrow> header \<Rightarrow> transaction list option" where
  "RewardTransactions rx h =
     do { n \<leftarrow> Number h;
          let blockNumber = big_u64 n;
          let totalReward = CalculateTotalReward (CalculateBlockReward blockNumber) None;
          s \<leftarrow> rewardMarkerShares rx h (Some totalReward);
          Some
            ((if s_mainKingReward s > 0 \<and> s_mainKing s \<noteq> 0
              then [NewBlockRewardTx blockNumber BlockRewardMainKing (s_mainKing s)
                      (Some (s_mainKingReward s))] else []) @
             (if s_rotatingKingReward s > 0
              then [NewBlockRewardTx blockNumber BlockRewardRotatingKing (s_rotatingKing s)
                      (Some (s_rotatingKingReward s))] else []) @
             (if s_minerReward s > 0 \<and> s_miner s \<noteq> 0
              then [NewBlockRewardTx blockNumber BlockRewardMiner (s_miner s)
                      (Some (s_minerReward s))] else [])) }"

definition fallbackRewardTransactions :: "randomx \<Rightarrow> header \<Rightarrow> transaction list option" where
  "fallbackRewardTransactions rx h =
     do { n \<leftarrow> Number h;
          let blockNumber = big_u64 n;
          let totalReward = CalculateTotalReward (CalculateBlockReward blockNumber) None;
          s \<leftarrow> rewardShares rx h (Some totalReward);
          Some
            ((if s_mainKingReward s > 0 \<and> s_mainKing s \<noteq> 0
              then [NewBlockRewardTx blockNumber BlockRewardMainKing (s_mainKing s)
                      (Some (s_mainKingReward s))] else []) @
             (if (s_rotatingKingReward s > 0 \<and> s_rotatingKing s \<noteq> 0) \<or>
                 (s_rotatingKing s = 0 \<and> s_mainKingReward s > 0 \<and> s_mainKing s \<noteq> 0)
              then [NewBlockRewardTx blockNumber BlockRewardRotatingKing (s_rotatingKing s)
                      (Some (s_rotatingKingReward s))] else []) @
             (if s_minerReward s > 0 \<and> s_miner s \<noteq> 0
              then [NewBlockRewardTx blockNumber BlockRewardMiner (s_miner s)
                      (Some (s_minerReward s))] else [])) }"

definition legacyRewardTransactions :: "randomx \<Rightarrow> header \<Rightarrow> transaction list option" where
  "legacyRewardTransactions rx h =
     do { n \<leftarrow> Number h;
          let blockNumber = big_u64 n;
          let totalReward = CalculateTotalReward (CalculateBlockReward blockNumber) None;
          rotatingKing \<leftarrow> getRotatingKing rx blockNumber;
          let (mk, rk, mi) = (if totalReward > 0 then split_reward totalReward else (0, 0, 0));
          Some [NewBlockRewardTx blockNumber BlockRewardMainKing (mainKingAt rx h) (Some mk),
                NewBlockRewardTx blockNumber BlockRewardRotatingKing rotatingKing (Some rk),
                NewBlockRewardTx blockNumber BlockRewardMiner (Coinbase h) (Some mi)] }"

definition sameRewardTransactions ::
    "(transaction \<Rightarrow> hash) \<Rightarrow> transaction list \<Rightarrow> transaction list \<Rightarrow> bool" where
  "sameRewardTransactions txHash a b \<longleftrightarrow>
     length a = length b \<and> list_all (\<lambda>(x, y). txHash x = txHash y) (zip a b)"

definition containsRewardTransactionSet ::
    "(transaction \<Rightarrow> hash) \<Rightarrow> transaction list list \<Rightarrow> transaction list \<Rightarrow> bool" where
  "containsRewardTransactionSet txHash candidates target \<longleftrightarrow>
     list_ex (\<lambda>c. sameRewardTransactions txHash c target) candidates"

definition CompatibleRewardTransactions ::
    "(transaction \<Rightarrow> hash) \<Rightarrow> randomx \<Rightarrow> header \<Rightarrow> transaction list list option" where
  "CompatibleRewardTransactions txHash rx h =
     do { canonical \<leftarrow> RewardTransactions rx h;
          if antarticalActive rx h then Some [canonical]
          else do {
            legacy \<leftarrow> legacyRewardTransactions rx h;
            fallback \<leftarrow> fallbackRewardTransactions rx h;
            Some (foldl (\<lambda>candidates candidate.
                    if candidate \<noteq> [] \<and> \<not> containsRewardTransactionSet txHash candidates candidate
                    then candidates @ [candidate] else candidates)
                  [canonical] [legacy, fallback]) } }"

definition appendRewardTransactions ::
    "(transaction \<Rightarrow> hash) \<Rightarrow> transaction list \<Rightarrow> transaction list \<Rightarrow> transaction list" where
  "appendRewardTransactions txHash txs rewards =
     (if rewards = [] then txs
      else if length txs \<ge> length rewards \<and>
              list_all (\<lambda>(x, y). txHash x = txHash y)
                (zip (drop (length txs - length rewards) txs) rewards)
      then txs
      else txs @ rewards)"

record reward_receipt =
  rr_Type :: u8
  rr_Successful :: bool
  rr_CumulativeGasUsed :: u64
  rr_TxHash :: hash
  rr_GasUsed :: u64
  rr_EffectiveGasPrice :: int

definition rewardReceipts ::
    "(transaction \<Rightarrow> hash) \<Rightarrow> transaction list \<Rightarrow> u64 \<Rightarrow> reward_receipt list" where
  "rewardReceipts txHash txs cumulativeGas =
     map (\<lambda>tx. \<lparr>rr_Type = tx_Type tx, rr_Successful = True, rr_CumulativeGasUsed = cumulativeGas,
                rr_TxHash = txHash tx, rr_GasUsed = 0, rr_EffectiveGasPrice = 0\<rparr>) txs"

text \<open>
  \<open>FinalizeAndAssemble\<close> up to the roots of the new block: the state, the transactions of
  the block and the receipts it appends. A nil body is an empty one.
\<close>

definition FinalizeAndAssemble ::
    "(transaction \<Rightarrow> hash) \<Rightarrow> randomx \<Rightarrow> 'k \<Rightarrow> chain_config option \<Rightarrow> header \<Rightarrow> body option \<Rightarrow>
     'k statedb \<Rightarrow> ('k statedb \<times> transaction list \<times> reward_receipt list) option" where
  "FinalizeAndAssemble txHash rx slot chain h bd st =
     (let b = (case bd of None \<Rightarrow> \<lparr>bd_Transactions = [], bd_Withdrawals = []\<rparr> | Some b \<Rightarrow> b);
          txs = bd_Transactions b
      in do { st' \<leftarrow> finalizeRewards rx slot chain h (Some b) st;
              if Coinbase h \<noteq> 0 \<and> \<not> skipImplicitRewards chain h (Some b)
              then do {
                rewards \<leftarrow> RewardTransactions rx h;
                let txs' = appendRewardTransactions txHash txs rewards;
                let added = drop (length txs) txs';
                Some (st', txs', if added \<noteq> [] then rewardReceipts txHash added (GasUsed h) else []) }
              else Some (st', txs, []) })"

section \<open>The schedule of the engine\<close>

interpretation rx_schedule: king_schedule activeRotatingKingsAtLocked
  by unfold_locales (auto simp: activeRotatingKingsAtLocked_def)

interpretation nocgo_schedule: king_schedule nocgo_activeRotatingKingsAtLocked
  by unfold_locales (auto simp: nocgo_activeRotatingKingsAtLocked_def split: option.splits)

lemma nocgo_active_eq: "nocgo_activeRotatingKingsAtLocked = activeRotatingKingsAtLocked"
  by (intro ext) (auto simp: nocgo_activeRotatingKingsAtLocked_def activeRotatingKingsAtLocked_def
      intro!: filter_cong split: option.splits)

text \<open>
  The builds with and without cgo pay the same shares to the same kings: for every
  engine, header and reward, \<open>rewardShares\<close> and the rotation give equal results, including
  where they panic or do not return.
\<close>

theorem nocgo_same_shares:
  "nocgo_getRotatingKing rx n = getRotatingKing rx n \<and>
   nocgo_rewardShares rx h totalReward = rewardShares rx h totalReward"
proof -
  have king: "nocgo_getRotatingKing rx n = getRotatingKing rx n" for n
    by (simp add: nocgo_getRotatingKing_def getRotatingKing_def nocgo_active_eq)
  have "nocgo_rewardShares rx h totalReward = rewardShares rx h totalReward"
  proof (cases "antarticalActive rx h \<or> Number h = None")
    case True
    then show ?thesis
      by (cases totalReward) (auto simp: king nocgo_rewardShares_def rewardShares_def Let_def
          cong: if_cong)
  next
    case False
    then have "\<not> (case rx_chain rx of None \<Rightarrow> False | Some c \<Rightarrow> IsAntartical c (Number h) (Time h))"
      by (auto simp: antarticalActive_def)
    with False show ?thesis
      by (cases totalReward) (simp_all add: king nocgo_rewardShares_def rewardShares_def Let_def
          cong: if_cong)
  qed
  with king show ?thesis by blast
qed

text \<open>
  Engine and manager agree: with the same kings, activation heights and non-zero interval,
  \<open>getRotatingKing\<close> of the engine is the king that the rotating-king manager reports.
\<close>

theorem engine_manager_same_king:
  assumes "rx_rotatingKings rx = kings m" "kings m \<noteq> []"
    and "rx_rotatingKingActivations rx = kc_ActivationHeights (km_config m)"
    and "rx_rotationInterval rx = kc_RotationInterval (km_config m)" "rx_rotationInterval rx \<noteq> 0"
  shows "getRotatingKing rx n = kingAtHeightLocked m n"
proof -
  have "activeRotatingKingsAtLocked rx = activeKingAddressesAtLocked m"
    using assms by (intro ext) (simp add: activeRotatingKingsAtLocked_def activeKingAddressesAtLocked_def)
  with assms show ?thesis by (simp add: getRotatingKing_def kingAtHeightLocked_def Let_def)
qed

definition plain_engine :: randomx where
  "plain_engine =
     \<lparr>rx_config = Some \<lparr>rxc_PostQuantumMainKingAddress = 0, rxc_QuantumResistantTime = None,
        rxc_AntarticalTime = None\<rparr>,
      rx_mainKing = 9, rx_rotatingKings = [1, 2, 3], rx_rotatingKingActivations = Map.empty,
      rx_rotationInterval = 100, rx_miningThreads = 1, rx_chain = None\<rparr>"

theorem engine_manager_same_king_witness:
  "getRotatingKing plain_engine 450 = kingAtHeightLocked three_kings 450"
  by (rule engine_manager_same_king) (simp_all add: plain_engine_def)

text \<open>
  An address that the configuration lists twice in a row starves the kings after it: the
  lookup finds its first position, moves to the second and finds the first again, so the
  engine built with cgo, which keeps duplicates, never pays the third king, at any height.
\<close>

theorem duplicate_king_starves:
  assumes "a \<noteq> 0" "b \<noteq> 0" "unat n + 100 < 2 ^ 64"
  shows "getRotatingKing (New c cpus threads mk [a, a, b]) n = Some a"
proof -
  let ?act = "activeRotatingKingsAtLocked (New c cpus threads mk [a, a, b])"
  have act: "?act k = [a, a, b]" for k
    using assms by (auto simp: activeRotatingKingsAtLocked_def New_def Let_def)
  have "slot_king ?act 100 k = a" for k
    using assms(1) by (induction k) (auto simp: schedule_step_def act)
  then have "schedule_loop ?act 100 n 0 0 = Some a"
    using schedule_loop_terminates [of 100 n ?act] assms(3) by simp
  then show ?thesis using assms by (simp add: getRotatingKing_def New_def Let_def)
qed

theorem duplicate_king_starves_witness:
  "getRotatingKing (New \<lparr>rxc_PostQuantumMainKingAddress = 0, rxc_QuantumResistantTime = None,
     rxc_AntarticalTime = None\<rparr> 4 1 9 [1, 1, 2]) 250 = Some 1"
  by (rule duplicate_king_starves) simp_all

section \<open>Reward markers and implicit rewards\<close>

text \<open>The transactions that \<open>RewardTransactions\<close> builds from shares.\<close>

definition reward_markers :: "u64 \<Rightarrow> shares6 \<Rightarrow> transaction list" where
  "reward_markers n s =
     (if s_mainKingReward s > 0 \<and> s_mainKing s \<noteq> 0
      then [NewBlockRewardTx n BlockRewardMainKing (s_mainKing s) (Some (s_mainKingReward s))] else []) @
     (if s_rotatingKingReward s > 0
      then [NewBlockRewardTx n BlockRewardRotatingKing (s_rotatingKing s)
              (Some (s_rotatingKingReward s))] else []) @
     (if s_minerReward s > 0 \<and> s_miner s \<noteq> 0
      then [NewBlockRewardTx n BlockRewardMiner (s_miner s) (Some (s_minerReward s))] else [])"

lemma RewardTransactions_markers:
  "RewardTransactions rx h =
     do { n \<leftarrow> Number h;
          s \<leftarrow> rewardMarkerShares rx h (Some (CalculateBlockReward (big_u64 n)));
          Some (reward_markers (big_u64 n) s) }"
  by (simp add: RewardTransactions_def reward_markers_def CalculateTotalReward_def Let_def)

lemma reward_markers_are_rewards: "list_all (\<lambda>tx. IsBlockRewardTx (Some tx)) (reward_markers n s)"
  by (simp add: reward_markers_def)

lemma rewardKind_new [simp]: "k < 256 \<Longrightarrow> rewardKind (NewBlockRewardTx n k a (Some v)) = int k"
  by (simp add: rewardKind_def unsigned_of_nat take_bit_nat_eq_self)

text \<open>Where the engine redirects the Rotating King's reward when there is no such king.\<close>

definition marker_recipient :: "randomx \<Rightarrow> address \<Rightarrow> address" where
  "marker_recipient rx rotatingKing =
     (if rotatingKing = 0 \<and> rx_mainKing rx \<noteq> 0 then rx_mainKing rx else rotatingKing)"

lemma body_payment_marker:
  assumes "0 < v" "k < 256"
  shows "body_payment rx (NewBlockRewardTx n k a (Some v)) st =
    pay (if k = BlockRewardRotatingKing then marker_recipient rx a else a) v st"
  using assms by (auto simp: body_payment_def marker_recipient_def pay_def Let_def reward_kinds)

lemma body_payments_Nil [simp]: "body_payments rx [] = Some"
  by (simp add: fun_eq_iff)

lemma body_payments_append:
  "body_payments rx (xs @ ys) st = Option.bind (body_payments rx xs st) (body_payments rx ys)"
  by (induction xs arbitrary: st) (auto simp: bind_assoc split: bind_splits)

lemma body_payments_segment:
  assumes "0 \<le> v"
  shows "k < 256 \<Longrightarrow> k \<noteq> BlockRewardRotatingKing \<Longrightarrow>
      body_payments rx (if v > 0 \<and> a \<noteq> 0 then [NewBlockRewardTx n k a (Some v)] else []) = pay a v"
    and "body_payments rx (if v > 0 then [NewBlockRewardTx n BlockRewardRotatingKing a (Some v)] else []) =
      pay (marker_recipient rx a) v"
  using assms by (auto simp: body_payment_marker reward_kinds order.order_iff_strict intro!: ext)

lemma body_payments_markers:
  assumes "0 \<le> s_mainKingReward s" "0 \<le> s_rotatingKingReward s" "0 \<le> s_minerReward s"
  shows "body_payments rx (reward_markers n s) st =
    pays [(s_mainKing s, s_mainKingReward s),
          (marker_recipient rx (s_rotatingKing s), s_rotatingKingReward s),
          (s_miner s, s_minerReward s)] st"
proof -
  have kinds: "BlockRewardMainKing < 256" "BlockRewardMainKing \<noteq> BlockRewardRotatingKing"
    "BlockRewardMiner < 256" "BlockRewardMiner \<noteq> BlockRewardRotatingKing"
    by (simp_all add: reward_kinds)
  show ?thesis
    unfolding reward_markers_def body_payments_append body_payments_segment(2) [OF assms(2)]
      body_payments_segment(1) [OF assms(1) kinds(1,2)] body_payments_segment(1) [OF assms(3) kinds(3,4)]
    by (simp add: pays_fun)
qed

lemma shares_nonneg:
  "0 \<le> sh_Miner (RewardSharesAt n DefaultBlocksPerHalving)"
  "0 \<le> sh_Validator (RewardSharesAt n DefaultBlocksPerHalving)"
  "0 \<le> sh_Rotating (RewardSharesAt n DefaultBlocksPerHalving)"
  "0 \<le> sh_MainKing (RewardSharesAt n DefaultBlocksPerHalving)"
  unfolding shares_at_period halve_shares_pow
  by (simp_all add: InitialRewardShares_def one_TKM_def pos_imp_zdiv_nonneg_iff)

lemma antartical_amounts_exact:
  assumes "antartical_amounts k r n = (mk, rk, mi)"
  shows "mk + rk + mi = shares_Total (RewardSharesAt n DefaultBlocksPerHalving) -
      sh_Validator (RewardSharesAt n DefaultBlocksPerHalving)"
    and "0 \<le> mk" "0 \<le> rk" "0 \<le> mi" "k = 0 \<Longrightarrow> mk = 0" "r = 0 \<Longrightarrow> rk = 0"
  using assms shares_nonneg [of n]
  by (auto simp: antartical_amounts_def shares_Total_def Let_def split: if_splits)

lemma block_reward_bounds: "0 \<le> CalculateBlockReward n" "CalculateBlockReward n \<le> 200 * 10 ^ 18"
proof -
  show "0 \<le> CalculateBlockReward n"
    unfolding block_reward_period by (rule period_reward_nonneg)
  have "InitialBlockReward div 2 ^ p \<le> InitialBlockReward div 1" for p
    by (rule zdiv_mono2) (simp_all add: InitialBlockReward_def one_TKM_def)
  then show "CalculateBlockReward n \<le> 200 * 10 ^ 18"
    by (auto simp: block_reward_period period_reward_def InitialBlockReward_def one_TKM_def)
qed

text \<open>The amounts of the implicit distribution and of the markers for a positive reward.\<close>

definition implicit_amounts :: "randomx \<Rightarrow> header \<Rightarrow> u64 \<Rightarrow> address \<Rightarrow> int \<Rightarrow> int \<times> int \<times> int" where
  "implicit_amounts rx h n k t =
     (if antarticalActive rx h then antartical_amounts (mainKingAt rx h) k n
      else reward_amounts (mainKingAt rx h) k t)"

definition marker_amounts :: "randomx \<Rightarrow> header \<Rightarrow> u64 \<Rightarrow> address \<Rightarrow> int \<Rightarrow> int \<times> int \<times> int" where
  "marker_amounts rx h n k t =
     (if antarticalActive rx h then antartical_amounts (mainKingAt rx h) k n
      else let (mk, rk, mi) = split_reward t
           in if mainKingAt rx h = 0 then (0, 0, mi + mk + rk) else (mk, rk, mi))"

definition shares_of :: "randomx \<Rightarrow> header \<Rightarrow> address \<Rightarrow> int \<times> int \<times> int \<Rightarrow> shares6" where
  "shares_of rx h k a =
     \<lparr>s_mainKing = mainKingAt rx h, s_mainKingReward = fst a, s_rotatingKing = k,
      s_rotatingKingReward = fst (snd a), s_miner = Coinbase h, s_minerReward = snd (snd a)\<rparr>"

lemma shares_eqs:
  assumes "Number h = Some n" "getRotatingKing rx (big_u64 n) = Some k" "t \<noteq> 0"
  shows "rewardShares rx h (Some t) = Some (shares_of rx h k (implicit_amounts rx h (big_u64 n) k t))"
    and "rewardMarkerShares rx h (Some t) = Some (shares_of rx h k (marker_amounts rx h (big_u64 n) k t))"
  using assms
  by (auto simp: rewardShares_def rewardMarkerShares_def shares_of_def implicit_amounts_def
      marker_amounts_def Let_def split: prod.splits)

lemma shares_zero:
  assumes "Number h = Some n" "getRotatingKing rx (big_u64 n) = Some k"
  shows "rewardMarkerShares rx h (Some 0) = Some (shares_of rx h k (0, 0, 0))"
  using assms by (simp add: rewardMarkerShares_def shares_of_def)

lemma RewardTransactions_returns:
  assumes "Number h = Some n" "getRotatingKing rx (big_u64 n) = Some k"
  shows "\<exists>rs. RewardTransactions rx h = Some rs"
  using shares_zero [OF assms] shares_eqs(2) [OF assms] assms(1)
  by (cases "CalculateBlockReward (big_u64 n) = 0") (auto simp: RewardTransactions_markers)

text \<open>When the markers of a block stand for the same payments as its implicit rewards.\<close>

definition markers_faithful :: "randomx \<Rightarrow> header \<Rightarrow> address \<Rightarrow> bool" where
  "markers_faithful rx h k \<longleftrightarrow>
     antarticalActive rx h \<or>
     (if k = 0 then rx_mainKing rx = mainKingAt rx h else mainKingAt rx h \<noteq> 0)"

lemma marker_amounts_nonneg:
  assumes "0 \<le> t" "marker_amounts rx h n k t = (mk, rk, mi)"
  shows "0 \<le> mk" "0 \<le> rk" "0 \<le> mi"
proof -
  obtain a b c where abc: "split_reward t = (a, b, c)" by (cases "split_reward t")
  note split = split_reward_exact [OF abc]
  show "0 \<le> mk" "0 \<le> rk" "0 \<le> mi"
    using assms split(2) antartical_amounts_exact [of "mainKingAt rx h" k n]
    by (auto simp: marker_amounts_def abc split: if_splits)
qed

lemma marker_payments_agree:
  assumes "markers_faithful rx h k" "0 \<le> t" "t < 2 ^ 256"
    and m: "marker_amounts rx h n k t = (mk, rk, mi)" and i: "implicit_amounts rx h n k t = (mk', rk', mi')"
  shows "pays [(mainKingAt rx h, mk), (marker_recipient rx k, rk), (c, mi)] st =
    pays [(mainKingAt rx h, mk'), (k, rk'), (c, mi')] st"
proof (cases "antarticalActive rx h")
  case True
  then have eq: "mk' = mk" "rk' = rk" "mi' = mi" and z: "k = 0 \<Longrightarrow> rk = 0"
    using m i antartical_amounts_exact(6) [of "mainKingAt rx h" k n mk rk mi]
    by (auto simp: marker_amounts_def implicit_amounts_def)
  then show ?thesis by (cases "k = 0") (simp_all add: marker_recipient_def pays_fun)
next
  case False
  obtain a b c' where abc: "split_reward t = (a, b, c')" by (cases "split_reward t")
  note split = split_reward_exact [OF abc]
  have sum: "a + b < 2 ^ 256" "0 \<le> a" "0 \<le> b" "0 \<le> c'"
    using split assms(2,3) by auto
  show ?thesis
  proof (cases "k = 0 \<and> mainKingAt rx h \<noteq> 0")
    case True
    then have r: "marker_recipient rx k = mainKingAt rx h"
      using assms(1) False by (simp add: markers_faithful_def marker_recipient_def)
    have "Option.bind (pay (mainKingAt rx h) a st) (\<lambda>st. Option.bind (pay (mainKingAt rx h) b st) f) =
        Option.bind (pay (mainKingAt rx h) (a + b) st) f" for f :: "'a statedb \<Rightarrow> 'a statedb option"
      using pay_pay_same [OF sum(2,3,1), of "mainKingAt rx h" st]
      by (metis bind_assoc)
    then show ?thesis
      using True False m i reward_amounts_eq [OF abc] r
      by (auto simp: marker_amounts_def implicit_amounts_def abc pays_fun)
  next
    case other: False
    then show ?thesis
      using assms(1) False m i reward_amounts_eq [OF abc]
      by (auto simp: markers_faithful_def marker_recipient_def marker_amounts_def
          implicit_amounts_def abc split: if_splits)
  qed
qed

lemma reward_markers_zero [simp]: "reward_markers n (shares_of rx h k (0, 0, 0)) = []"
  by (simp add: reward_markers_def shares_of_def)

lemma FinalizeAndAssemble_Some:
  assumes "FinalizeAndAssemble txHash rx slot chain h (Some b) st = Some (st', txs, rs)"
  shows "finalizeRewards rx slot chain h (Some b) st = Some st'"
    and "txs = bd_Transactions b \<or> Coinbase h \<noteq> 0 \<and> \<not> skipImplicitRewards chain h (Some b) \<and>
      (\<exists>rewards. RewardTransactions rx h = Some rewards \<and> rewards \<noteq> [] \<and>
        txs = bd_Transactions b @ rewards)"
  using assms
  by (auto simp: FinalizeAndAssemble_def appendRewardTransactions_def Let_def
      split: bind_splits if_splits)

lemma distributeBody_no_rewards:
  assumes "list_all (\<lambda>tx. \<not> IsBlockRewardTx (Some tx)) (bd_Transactions b)"
  shows "distributeBodyRewardTransactions rx (Some b) st = Some (False, st)"
proof -
  have "dropWhile (\<lambda>tx. \<not> IsBlockRewardTx (Some tx)) (bd_Transactions b) = []"
    using assms by (simp add: dropWhile_eq_Nil_conv list_all_iff)
  then show ?thesis by (simp add: distributeBodyRewardTransactions_def)
qed

lemma distributeBody_rewards:
  assumes "bd_Transactions b = txs @ rewards" "list_all (\<lambda>tx. \<not> IsBlockRewardTx (Some tx)) txs"
    and "list_all (\<lambda>tx. IsBlockRewardTx (Some tx)) rewards" "rewards \<noteq> []"
  shows "distributeBodyRewardTransactions rx (Some b) st =
    map_option (\<lambda>st. (True, st)) (body_payments rx rewards st)"
proof -
  have "dropWhile (\<lambda>tx. \<not> IsBlockRewardTx (Some tx)) (txs @ rewards) = rewards"
    using assms by (cases rewards) (simp_all add: dropWhile_append list_all_iff dropWhile_eq_Nil_conv)
  then show ?thesis using assms by (simp add: distributeBodyRewardTransactions_def)
qed

text \<open>
  C6: Sealer and importer agree. When a miner assembles a block from user transactions, every
  node that finalizes the assembled block, which carries the reward markers, reaches the
  miner's state, where the rewards were paid implicitly. The lookup of the Rotating King
  has to return (a king or the zero address); it holds from the Antartical fork on, and before it
  when a Rotating King meets a Main King that is not zero, or no Rotating King the configured
  Main King. Elsewhere the two differ, as \<open>markers_ignore_rotating_king\<close> shows.
\<close>

theorem assembled_block_reproduces_state:
  assumes "FinalizeAndAssemble txHash rx slot chain h (Some b) st = Some (st', txs, rs)"
    and "list_all (\<lambda>tx. \<not> IsBlockRewardTx (Some tx)) (bd_Transactions b)"
    and "Number h = Some n" "getRotatingKing rx (big_u64 n) = Some k"
    and "antarticalActive rx h \<or>
      (if k = 0 then rx_mainKing rx = mainKingAt rx h else mainKingAt rx h \<noteq> 0)"
  shows "finalizeRewards rx slot chain h (Some (b\<lparr>bd_Transactions := txs\<rparr>)) st = Some st'"
  using FinalizeAndAssemble_Some(2) [OF assms(1)]
proof
  assume "txs = bd_Transactions b"
  then show ?thesis using FinalizeAndAssemble_Some(1) [OF assms(1)] by simp
next
  assume a: "Coinbase h \<noteq> 0 \<and> \<not> skipImplicitRewards chain h (Some b) \<and>
      (\<exists>rewards. RewardTransactions rx h = Some rewards \<and> rewards \<noteq> [] \<and>
        txs = bd_Transactions b @ rewards)"
  then obtain rewards where r: "RewardTransactions rx h = Some rewards" "rewards \<noteq> []"
    and txs: "txs = bd_Transactions b @ rewards" by blast
  let ?n = "big_u64 n" and ?t = "CalculateBlockReward (big_u64 n)"
  have faithful: "markers_faithful rx h k" using assms(5) by (simp only: markers_faithful_def)
  have t: "?t \<noteq> 0"
    using r shares_zero [OF assms(3,4)] assms(3) by (auto simp: RewardTransactions_markers)
  obtain mk rk mi mk' rk' mi' where am: "marker_amounts rx h ?n k ?t = (mk, rk, mi)"
    and ai: "implicit_amounts rx h ?n k ?t = (mk', rk', mi')" by (metis prod.exhaust)
  note nn = marker_amounts_nonneg [OF block_reward_bounds(1) am]
  have rewards: "rewards = reward_markers ?n (shares_of rx h k (mk, rk, mi))"
    using r shares_eqs(2) [OF assms(3,4) t] assms(3) by (simp add: RewardTransactions_markers am)
  have bound: "?t < 2 ^ 256" using block_reward_bounds(2) [of ?n] by simp
  have pay: "body_payments rx rewards s = distributeRewardsToState rx h (Some ?t) s" for s :: "'a statedb"
    using marker_payments_agree [OF faithful block_reward_bounds(1) bound am ai, of "Coinbase h" s]
      body_payments_markers [of "shares_of rx h k (mk, rk, mi)" rx ?n s] nn
      shares_eqs(1) [OF assms(3,4) t]
    by (simp add: rewards distributeRewardsToState_def ai) (simp add: shares_of_def)
  have w: "applyWithdrawals (Some (b\<lparr>bd_Transactions := txs\<rparr>)) st = applyWithdrawals (Some b) st"
    by (simp add: applyWithdrawals_def)
  have body: "distributeBodyRewardTransactions rx (Some (b\<lparr>bd_Transactions := txs\<rparr>)) s =
      map_option (\<lambda>st. (True, st)) (distributeRewardsToState rx h (Some ?t) s)" for s :: "'a statedb"
    using distributeBody_rewards [OF _ assms(2) _ r(2), of "b\<lparr>bd_Transactions := txs\<rparr>" rx s]
      reward_markers_are_rewards [of ?n "shares_of rx h k (mk, rk, mi)"]
    by (simp add: txs rewards [symmetric] pay)
  have nobody: "distributeBodyRewardTransactions rx (Some b) s = Some (False, s)" for s :: "'a statedb"
    by (rule distributeBody_no_rewards [OF assms(2)])
  have pos: "?t > 0" using t block_reward_bounds(1) [of ?n] by linarith
  obtain st1 where "writeRotatingKingToState rx slot ?n (applyWithdrawals (Some b) st) = Some st1"
    "distributeRewardsToState rx h (Some ?t) st1 = Some st'"
    using FinalizeAndAssemble_Some(1) [OF assms(1)] a pos assms(3)
    by (auto simp: finalizeRewards_def nobody Let_def split: bind_splits)
  then show ?thesis
    using a assms(3) by (simp add: finalizeRewards_def w body Let_def)
qed

section \<open>Issuance\<close>

lemma getRotatingKing_returns:
  assumes "unat n + unat (rx_rotationInterval rx) < 2 ^ 64"
  shows "\<exists>k. getRotatingKing rx n = Some k"
proof (cases "rx_rotatingKings rx = [] \<or> rx_rotationInterval rx = 0")
  case False
  then have "0 < rx_rotationInterval rx" by (simp add: word_gt_0)
  from schedule_loop_terminates [OF this assms] False show ?thesis
    by (auto simp: getRotatingKing_def)
qed (auto simp: getRotatingKing_def)

text \<open>The wei that the withdrawals of a body create.\<close>

definition withdrawn :: "body option \<Rightarrow> int" where
  "withdrawn bd =
     (case bd of None \<Rightarrow> 0 | Some b \<Rightarrow> \<Sum>w \<leftarrow> bd_Withdrawals b. uint (wd_Amount w) * 1000000000)"

lemma uint_gwei: "uint (ucast (x :: u64) * 1000000000 :: u256) = uint x * 1000000000"
proof -
  have x: "0 \<le> uint x" "uint x < 2 ^ 64" using uint_lt2p [of x] by simp_all
  have "uint (ucast x :: u256) = take_bit 256 (uint x)"
    by (simp add: unsigned_ucast_eq)
  also have "\<dots> = uint x" using x by (intro take_bit_int_eq_self) auto
  finally have u: "uint (ucast x :: u256) = uint x" .
  have "uint x * 1000000000 < 2 ^ 256" using x(2) by simp
  then show ?thesis
    using x(1) by (subst uint_word_ariths(3)) (simp add: u)
qed

lemma applyWithdrawals_supply:
  assumes "total_supply st + withdrawn bd < 2 ^ 256"
  shows "total_supply (applyWithdrawals bd st) = total_supply st + withdrawn bd"
    and "storage (applyWithdrawals bd st) = storage st"
proof -
  let ?f = "\<lambda>w st. AddBalance (wd_Address w) (ucast (wd_Amount w) * 1000000000) st"
  have "total_supply s + (\<Sum>w \<leftarrow> ws. uint (wd_Amount w) * 1000000000) < 2 ^ 256 \<Longrightarrow>
    total_supply (fold ?f ws s) = total_supply s + (\<Sum>w \<leftarrow> ws. uint (wd_Amount w) * 1000000000) \<and>
    storage (fold ?f ws s) = storage s" for ws :: "withdrawal list" and s :: "'a statedb"
  proof (induction ws arbitrary: s)
    case (Cons w ws)
    have rest: "0 \<le> (\<Sum>w \<leftarrow> ws. uint (wd_Amount w) * 1000000000)"
      by (intro sum_list_nonneg) auto
    have "total_supply (?f w s) = total_supply s + uint (wd_Amount w) * 1000000000"
      using total_supply_AddBalance [of s "ucast (wd_Amount w) * 1000000000" "wd_Address w"]
        Cons.prems rest by (simp add: uint_gwei)
    with Cons.IH [of "?f w s"] Cons.prems show ?case by (simp add: AddBalance_def)
  qed simp
  then show "total_supply (applyWithdrawals bd st) = total_supply st + withdrawn bd"
    "storage (applyWithdrawals bd st) = storage st"
    using assms by (auto simp: applyWithdrawals_def withdrawn_def split: option.split)
qed

lemma distribute_supply:
  assumes "Number h = Some n" "getRotatingKing rx (big_u64 n) = Some k" "\<not> antarticalActive rx h"
    and "0 < t" "total_supply st + t < 2 ^ 256" "Coinbase h \<noteq> 0"
  shows "\<exists>st'. distributeRewardsToState rx h (Some t) st = Some st' \<and>
    storage st' = storage st \<and> total_supply st' = total_supply st + t"
proof -
  obtain mk rk mi where am: "reward_amounts (mainKingAt rx h) k t = (mk, rk, mi)"
    by (cases "reward_amounts (mainKingAt rx h) k t")
  note ex = reward_amounts_exact [OF am]
  have "t \<noteq> 0" using assms(4) by simp
  from shares_eqs(1) [OF assms(1,2) this]
  have s: "rewardShares rx h (Some t) = Some (shares_of rx h k (mk, rk, mi))"
    using assms(3) by (simp add: implicit_amounts_def am)
  show ?thesis
    using pays_total [of "[(mainKingAt rx h, mk), (k, rk), (Coinbase h, mi)]" st] ex assms(4-6)
    by (auto simp: distributeRewardsToState_def s shares_of_def split: if_splits)
qed

lemma finalize_supply:
  assumes "Number h = Some n" "unat (big_u64 n) + unat (rx_rotationInterval rx) < 2 ^ 64"
    and "Coinbase h \<noteq> 0" "\<not> antarticalActive rx h" "\<not> skipImplicitRewards chain h (Some b)"
    and "list_all (\<lambda>tx. \<not> IsBlockRewardTx (Some tx)) (bd_Transactions b)"
    and "total_supply st + withdrawn (Some b) + 200 * 10 ^ 18 < 2 ^ 256"
  shows "\<exists>st' k. finalizeRewards rx slot chain h (Some b) st = Some st' \<and>
    total_supply st' = total_supply st + withdrawn (Some b) + CalculateBlockReward (big_u64 n) \<and>
    getRotatingKing rx (big_u64 n) = Some k \<and> GetState st' SystemAddress slot = ucast k"
proof -
  let ?t = "CalculateBlockReward (big_u64 n)"
  obtain k where k: "getRotatingKing rx (big_u64 n) = Some k"
    using getRotatingKing_returns [OF assms(2)] by blast
  define st1 where "st1 = writeRotatingKingToStateValue slot k (applyWithdrawals (Some b) st)"
  have "total_supply (applyWithdrawals (Some b) st) = total_supply st + withdrawn (Some b)"
    using assms(7) by (intro applyWithdrawals_supply) simp
  then have st1: "total_supply st1 = total_supply st + withdrawn (Some b)"
    "GetState st1 SystemAddress slot = ucast k"
    by (simp_all add: st1_def writeRotatingKingToStateValue_def)
  have body: "distributeBodyRewardTransactions rx (Some b) st1 = Some (False, st1)"
    by (rule distributeBody_no_rewards [OF assms(6)])
  have fin: "finalizeRewards rx slot chain h (Some b) st =
      (if ?t > 0 then distributeRewardsToState rx h (Some ?t) st1 else Some st1)"
    using assms(1,3,5) k body
    by (simp add: finalizeRewards_def writeRotatingKingToState_def st1_def Let_def)
  show ?thesis
  proof (cases "?t > 0")
    case True
    have "total_supply st1 + ?t < 2 ^ 256"
      using assms(7) block_reward_bounds(2) [of "big_u64 n"] st1(1) by simp
    with distribute_supply [OF assms(1) k assms(4) True _ assms(3)] True fin st1 k
    show ?thesis by (fastforce simp: GetState_def)
  next
    case False
    with block_reward_bounds(1) [of "big_u64 n"] fin st1 k show ?thesis by auto
  qed
qed

text \<open>
  C10: Finalizing a block before Kyoto and Antartical that names a coinbase and carries no reward
  markers creates exactly the scheduled block reward and the withdrawals: the call returns, the sum
  of all balances grows by that amount, and the rotating king of the block is written to its system
  slot. The height is at least a rotation interval below 2^64, and the sum of all balances, with
  withdrawals and the largest reward, below 2^256.
\<close>

theorem finalize_issues_schedule:
  assumes "Number h = Some n" "unat (big_u64 n) + unat (rx_rotationInterval rx) < 2 ^ 64"
    and "Coinbase h \<noteq> 0" "\<not> antarticalActive rx h" "\<not> skipImplicitRewards chain h (Some b)"
    and "list_all (\<lambda>tx. \<not> IsBlockRewardTx (Some tx)) (bd_Transactions b)"
    and "total_supply st + withdrawn (Some b) + 200 * 10 ^ 18 < 2 ^ 256"
  shows "\<exists>st' k. finalizeRewards rx slot chain h (Some b) st = Some st' \<and>
    total_supply st' = total_supply st + withdrawn (Some b) + CalculateBlockReward (big_u64 n) \<and>
    getRotatingKing rx (big_u64 n) = Some k \<and> GetState st' SystemAddress slot = ucast k"
  using assms by (rule finalize_supply)

definition block_1 :: header where
  "block_1 = \<lparr>ParentHash = 0, Coinbase = 5, Difficulty = Some 3, Number = Some 1, GasLimit = 0,
     GasUsed = 0, Time = 0, Extra = [], MixDigest = 0, BaseFee = None,
     UncleHash = 0, Root = 0, TxHash = 0, ReceiptHash = 0, Bloom = [], Nonce = []\<rparr>"

definition empty_body :: body where
  "empty_body = \<lparr>bd_Transactions = [], bd_Withdrawals = []\<rparr>"

lemma block_1_simps [simp]:
  "Number block_1 = Some 1" "Coinbase block_1 = 5" "Time block_1 = 0"
  "bd_Transactions empty_body = []" "withdrawn (Some empty_body) = 0"
  "rx_rotationInterval plain_engine = 100" "rx_mainKing plain_engine = 9"
  "mainKingAt plain_engine block_1 = 9" "\<not> antarticalActive plain_engine block_1"
  "skipImplicitRewards None h bd = False" "big_u64 1 = 1"
  by (simp_all add: block_1_def empty_body_def plain_engine_def mainKingAt_def antarticalActive_def
      skipImplicitRewards_def withdrawn_def big_u64_def)

lemma plain_engine_king [simp]: "getRotatingKing plain_engine 1 = Some 1"
proof -
  have "activeRotatingKingsAtLocked plain_engine h = [1, 2, 3]" for h
    by (simp add: activeRotatingKingsAtLocked_def plain_engine_def)
  then show ?thesis
    using rx_schedule.round_robin [of 100 1 plain_engine "[1, 2, 3]"]
    by (simp add: getRotatingKing_def plain_engine_def)
qed

theorem finalize_issues_schedule_witness:
  "\<exists>st'. finalizeRewards plain_engine () None block_1 (Some empty_body) empty_state = Some st' \<and>
     total_supply st' = CalculateBlockReward 1"
  using finalize_issues_schedule [of block_1 1 plain_engine None empty_body empty_state "()"]
  by auto

lemma plain_assembly:
  "\<exists>st' txs rs. FinalizeAndAssemble (\<lambda>_. 0) plain_engine () None block_1 (Some empty_body) empty_state =
     Some (st', txs, rs)"
proof -
  obtain st' where "finalizeRewards plain_engine () None block_1 (Some empty_body) empty_state = Some st'"
    using finalize_supply [of block_1 1 plain_engine None empty_body empty_state "()"] by auto
  moreover obtain rs where "RewardTransactions plain_engine block_1 = Some rs"
    using RewardTransactions_returns [of block_1 1 plain_engine 1] by auto
  ultimately show ?thesis
    by (simp add: FinalizeAndAssemble_def Let_def)
qed

theorem assembled_block_reproduces_state_witness:
  "\<exists>st' txs rs. FinalizeAndAssemble (\<lambda>_. 0) plain_engine () None block_1 (Some empty_body) empty_state =
       Some (st', txs, rs) \<and>
     finalizeRewards plain_engine () None block_1 (Some (empty_body\<lparr>bd_Transactions := txs\<rparr>)) empty_state =
       Some st'"
proof -
  obtain st' txs rs where asm: "FinalizeAndAssemble (\<lambda>_. 0) plain_engine () None block_1
      (Some empty_body) empty_state = Some (st', txs, rs)"
    using plain_assembly by blast
  with assembled_block_reproduces_state [OF asm, of 1 1] show ?thesis by auto
qed

text \<open>
  Without a Main King, and with a Rotating King, sealer and importer disagree before the
  Antartical fork: the assembling node pays 40% of the reward to the Rotating King, the markers
  it puts into the block pay everything to the miner.
\<close>

theorem markers_ignore_rotating_king:
  assumes "Number h = Some n" "getRotatingKing rx (big_u64 n) = Some k" "k \<noteq> 0"
    and "mainKingAt rx h = 0" "\<not> antarticalActive rx h" "t \<noteq> 0"
  shows "map_option s_rotatingKingReward (rewardShares rx h (Some t)) = Some (t * 40 div 100) \<and>
    map_option s_rotatingKingReward (rewardMarkerShares rx h (Some t)) = Some 0 \<and>
    map_option s_minerReward (rewardMarkerShares rx h (Some t)) = Some t"
proof -
  have "split_reward t = (t * 10 div 100, t * 40 div 100, t - t * 10 div 100 - t * 40 div 100)"
    by (rule split_reward_eq)
  from reward_amounts_eq [OF this, of 0 k] this
  show ?thesis
    using shares_eqs [OF assms(1,2,6)] assms(3-5)
    by (simp only: implicit_amounts_def marker_amounts_def if_False if_True) (simp add: shares_of_def)
qed

theorem markers_ignore_rotating_king_witness:
  "map_option s_rotatingKingReward (rewardMarkerShares (plain_engine\<lparr>rx_mainKing := 0\<rparr>) block_1 (Some 200)) =
     Some 0"
proof -
  have "getRotatingKing (plain_engine\<lparr>rx_mainKing := 0\<rparr>) (big_u64 1) = Some 1"
  proof -
    have "activeRotatingKingsAtLocked (plain_engine\<lparr>rx_mainKing := 0\<rparr>) =
        activeRotatingKingsAtLocked plain_engine"
      by (simp add: fun_eq_iff activeRotatingKingsAtLocked_def)
    with plain_engine_king show ?thesis by (simp add: getRotatingKing_def split: if_splits)
  qed
  moreover have "mainKingAt (plain_engine\<lparr>rx_mainKing := 0\<rparr>) block_1 = 0"
    "\<not> antarticalActive (plain_engine\<lparr>rx_mainKing := 0\<rparr>) block_1"
    by (simp_all add: plain_engine_def mainKingAt_def antarticalActive_def)
  ultimately show ?thesis
    using markers_ignore_rotating_king [of block_1 1 "plain_engine\<lparr>rx_mainKing := 0\<rparr>" 1 200] by simp
qed

text \<open>
  Appending the reward markers is idempotent: a block that already ends with them, by
  transaction hash, is not given them again, so re-assembling a block cannot pay twice.
\<close>

theorem append_rewards_idempotent:
  "appendRewardTransactions txHash (appendRewardTransactions txHash txs rewards) rewards =
     appendRewardTransactions txHash txs rewards"
proof -
  have "list_all (\<lambda>(x, y). txHash x = txHash y) (zip rewards rewards)"
    by (auto simp: list_all_iff in_set_zip)
  then show ?thesis by (simp add: appendRewardTransactions_def)
qed

section \<open>Kyoto blocks without markers\<close>

lemma kyoto_supply:
  assumes "0 \<le> r" "total_supply st + r < 2 ^ 256" "Coinbase h \<noteq> 0"
  shows "\<exists>st'. distributeKyotoEmptyBlockRewards rx h (Some r) st = Some st' \<and>
    total_supply st' = total_supply st + r - (if mainKingAt rx h = 0 then r * 50 div 100 else 0)"
proof -
  define a where "a = r * 50 div 100"
  have a: "0 \<le> a" "a \<le> r"
    using assms(1) by (simp_all add: a_def pos_imp_zdiv_nonneg_iff)
  have "distributeKyotoEmptyBlockRewards rx h (Some r) st =
      (if r = 0 then Some st else pays [(mainKingAt rx h, a), (Coinbase h, r - a)] st)"
    by (simp only: distributeKyotoEmptyBlockRewards_def option.case Let_def a_def)
  then show ?thesis
    using pays_total [of "[(mainKingAt rx h, a), (Coinbase h, r - a)]" st] a assms
    unfolding a_def [symmetric] by (auto simp: a_def)
qed

text \<open>
  A Kyoto block without reward markers pays half of its reward to the Main King and half to
  the miner; without a Main King that first half is paid to nobody, so the block creates only
  half of the scheduled reward.
\<close>

theorem kyoto_empty_block_issuance:
  assumes "total_supply st + 200 * 10 ^ 18 < 2 ^ 256" "Coinbase h \<noteq> 0"
  shows "\<exists>st'. distributeKyotoEmptyBlockRewards rx h (Some (CalculateBlockReward n)) st = Some st' \<and>
    total_supply st' = total_supply st + CalculateBlockReward n -
      (if mainKingAt rx h = 0 then CalculateBlockReward n * 50 div 100 else 0)"
  using assms block_reward_bounds [of n] by (intro kyoto_supply) simp_all

theorem kyoto_empty_block_issuance_witness:
  "\<exists>st'. distributeKyotoEmptyBlockRewards plain_engine block_1 (Some (CalculateBlockReward 1)) empty_state =
     Some st' \<and> total_supply st' = CalculateBlockReward 1"
  using kyoto_empty_block_issuance [of empty_state block_1 plain_engine 1] by simp

text \<open>A candidate creates at most the given reward.\<close>

definition issues_at_most :: "int \<Rightarrow> ('k statedb \<Rightarrow> 'k statedb option) \<Rightarrow> bool" where
  "issues_at_most r f \<longleftrightarrow>
     (\<forall>st st'. f st = Some st' \<longrightarrow> total_supply st + r < 2 ^ 256 \<longrightarrow>
        total_supply st' \<le> total_supply st + r)"

lemma issues_pays:
  assumes "list_all (\<lambda>p. 0 \<le> snd p) ps" "(\<Sum>p \<leftarrow> ps. snd p) \<le> r"
  shows "issues_at_most r (pays ps)"
  unfolding issues_at_most_def
proof (intro allI impI)
  fix st st' :: "'a statedb"
  assume "pays ps st = Some st'" "total_supply st + r < 2 ^ 256"
  moreover have "(\<Sum>p \<leftarrow> ps. if fst p = 0 then 0 else snd p) \<le> (\<Sum>p \<leftarrow> ps. snd p)"
    using assms(1) by (intro sum_list_mono) (auto simp: list_all_iff)
  ultimately show "total_supply st' \<le> total_supply st + r"
    using pays_total [OF assms(1), of st] assms(2) by auto
qed

lemma issues_write:
  "0 \<le> r \<Longrightarrow> issues_at_most r (\<lambda>s. Some (writeRotatingKingToStateValue slot k s))"
  "0 \<le> r \<Longrightarrow> issues_at_most r (writeRotatingKingToState rx slot n)"
  "0 \<le> r \<Longrightarrow> issues_at_most r Some"
  by (auto simp: issues_at_most_def writeRotatingKingToStateValue_def writeRotatingKingToState_def)

lemma issues_after_write:
  assumes "issues_at_most r f"
  shows "issues_at_most r (\<lambda>s. f (writeRotatingKingToStateValue slot k s))"
    and "issues_at_most r (\<lambda>s. Option.bind (writeRotatingKingToState rx slot n s) f)"
proof -
  show *: "issues_at_most r (\<lambda>s. f (writeRotatingKingToStateValue slot k s))" for k
    using assms unfolding issues_at_most_def writeRotatingKingToStateValue_def
    by (metis total_supply_SetState)
  show "issues_at_most r (\<lambda>s. Option.bind (writeRotatingKingToState rx slot n s) f)"
  proof (cases "getRotatingKing rx n")
    case (Some k)
    with * [of k] show ?thesis by (simp add: writeRotatingKingToState_def)
  qed (simp add: writeRotatingKingToState_def issues_at_most_def)
qed

lemma issues_kyoto:
  assumes "0 \<le> r"
  shows "issues_at_most r (distributeKyotoEmptyBlockRewards rx h (Some r) :: 'k statedb \<Rightarrow> _)"
proof (cases "r = 0")
  case True
  then show ?thesis by (simp add: issues_at_most_def distributeKyotoEmptyBlockRewards_def)
next
  case False
  define a where "a = r * 50 div 100"
  have "0 \<le> a" "a \<le> r" using assms by (simp_all add: a_def pos_imp_zdiv_nonneg_iff)
  moreover have "distributeKyotoEmptyBlockRewards rx h (Some r) =
      (pays [(mainKingAt rx h, a), (Coinbase h, r - a)] :: 'k statedb \<Rightarrow> _)"
    using False
    by (intro ext) (simp only: distributeKyotoEmptyBlockRewards_def option.case Let_def a_def if_False)
  ultimately show ?thesis
    using issues_pays [of "[(mainKingAt rx h, a), (Coinbase h, r - a)]" r] by simp
qed

lemma share_sums:
  assumes "rewardShares rx h (Some (CalculateBlockReward (big_u64 n))) = Some s" "Number h = Some n"
  shows "0 \<le> s_mainKingReward s" "0 \<le> s_rotatingKingReward s" "0 \<le> s_minerReward s"
    "s_mainKingReward s + s_rotatingKingReward s + s_minerReward s \<le> CalculateBlockReward (big_u64 n)"
proof -
  let ?n = "big_u64 n" and ?t = "CalculateBlockReward (big_u64 n)"
  obtain k where k: "getRotatingKing rx ?n = Some k"
    using assms by (auto simp: rewardShares_def Let_def split: bind_splits)
  obtain mk rk mi where ai: "implicit_amounts rx h ?n k ?t = (mk, rk, mi)"
    by (cases "implicit_amounts rx h ?n k ?t")
  have "0 \<le> mk \<and> 0 \<le> rk \<and> 0 \<le> mi \<and> mk + rk + mi \<le> ?t" if t: "?t \<noteq> 0"
  proof (cases "antarticalActive rx h")
    case True
    have p: "unat ?n div 1051200 < 8"
      using t by (auto simp: block_reward_period period_reward_def split: if_splits)
    then have "shares_Total (RewardSharesAt ?n DefaultBlocksPerHalving) = ?t"
      by (rule shares_total_period)
    with True ai antartical_amounts_exact [of "mainKingAt rx h" k ?n mk rk mi] shares_nonneg(2) [of ?n]
    show ?thesis by (simp add: implicit_amounts_def)
  next
    case False
    with ai reward_amounts_exact [of "mainKingAt rx h" k ?t mk rk mi] block_reward_bounds(1) [of ?n]
    show ?thesis by (simp add: implicit_amounts_def)
  qed
  moreover have "s = shares_of rx h k (if ?t = 0 then (0, 0, 0) else (mk, rk, mi))"
    using assms k shares_eqs(1) [OF assms(2) k] ai
    by (auto simp: rewardShares_def shares_of_def)
  ultimately show "0 \<le> s_mainKingReward s" "0 \<le> s_rotatingKingReward s" "0 \<le> s_minerReward s"
    "s_mainKingReward s + s_rotatingKingReward s + s_minerReward s \<le> ?t"
    by (auto simp: shares_of_def)
qed

lemma issues_distribute:
  assumes "Number h = Some n" and t: "t = CalculateBlockReward (big_u64 n)"
  shows "issues_at_most t (distributeRewardsToState rx h (Some t) :: 'k statedb \<Rightarrow> _)"
    and "issues_at_most t (distributeRewardsToStateWithRotatingKing rx h (Some t) king :: 'k statedb \<Rightarrow> _)"
proof -
  note sums = share_sums [OF _ assms(1), of rx]
  show "issues_at_most t (distributeRewardsToState rx h (Some t) :: 'k statedb \<Rightarrow> _)"
  proof (cases "rewardShares rx h (Some t)")
    case (Some s)
    then have "issues_at_most t (pays [(s_mainKing s, s_mainKingReward s),
        (s_rotatingKing s, s_rotatingKingReward s), (s_miner s, s_minerReward s)] :: 'k statedb \<Rightarrow> _)"
      using sums [of s] by (intro issues_pays) (simp_all add: t)
    then show ?thesis using Some by (simp add: issues_at_most_def distributeRewardsToState_def)
  qed (simp add: issues_at_most_def distributeRewardsToState_def)
  show "issues_at_most t (distributeRewardsToStateWithRotatingKing rx h (Some t) king :: 'k statedb \<Rightarrow> _)"
  proof (cases "rewardShares rx h (Some t)")
    case (Some s)
    have "issues_at_most t (pays [(a, x), (b, y), (c, z)] :: 'k statedb \<Rightarrow> _)"
      if "0 \<le> x" "0 \<le> y" "0 \<le> z" "x + y + z \<le> t" for a b c x y z
      using that by (intro issues_pays) simp_all
    moreover have "(distributeRewardsToStateWithRotatingKing rx h (Some t) king :: 'k statedb \<Rightarrow> _) =
        (if king \<noteq> 0 then pays [(s_mainKing s, s_mainKingReward s), (king, s_rotatingKingReward s),
             (s_miner s, s_minerReward s)]
         else if s_mainKing s \<noteq> 0
         then pays [(s_mainKing s, s_mainKingReward s + s_rotatingKingReward s), (king, 0),
             (s_miner s, s_minerReward s)]
         else pays [(s_mainKing s, s_mainKingReward s), (king, 0),
             (s_miner s, s_minerReward s + s_rotatingKingReward s)])"
      using Some by (simp add: fun_eq_iff distributeRewardsToStateWithRotatingKing_def)
    ultimately show ?thesis using Some sums [of s] by (simp add: t)
  qed (simp add: issues_at_most_def distributeRewardsToStateWithRotatingKing_def)
qed

lemma issues_candidates:
  assumes "Number h = Some n" and t: "t = CalculateBlockReward (big_u64 n)"
    and f: "f \<in> set (kyoto_candidates rx slot h (big_u64 n))"
  shows "issues_at_most t f"
proof -
  have "0 \<le> t" using block_reward_bounds(1) t by simp
  note i = issues_write [OF this] issues_after_write issues_kyoto [OF this]
    issues_distribute [OF assms(1) t]
  show ?thesis
    using f unfolding kyoto_candidates_def Let_def t [symmetric] by (auto intro!: i)
qed

lemma try_candidates_result:
  assumes "try_candidates root target cs st = Some (ok, st')"
  shows "if ok then root st' = target \<and> (\<exists>f \<in> set cs. f st = Some st') else st' = st"
  using assms
  by (induction root target cs st rule: try_candidates.induct) (auto split: bind_splits if_splits)

text \<open>
  The search for a historical finalization of a Kyoto block is safe for every state-root
  function: it accepts only a state with the root of the header, which is one of the listed
  finalizations of the given state and creates at most the scheduled block reward; when it
  rejects, the state is unchanged.
\<close>

theorem kyoto_historical_finalization:
  assumes "FinalizeKyotoEmptyBlockForRoot rx slot root chain h bd target st = Some (ok, st')"
    and "Number h = Some n" "total_supply st + 200 * 10 ^ 18 < 2 ^ 256"
  shows "if ok then root st' = target \<and>
      total_supply st' \<le> total_supply st + CalculateBlockReward (big_u64 n) else st' = st"
proof (cases ok)
  case True
  then have tried: "try_candidates root target (kyoto_candidates rx slot h (big_u64 n)) st = Some (ok, st')"
    using assms(1,2)
    by (auto simp: FinalizeKyotoEmptyBlockForRoot_def split: option.splits if_splits)
  from try_candidates_result [OF this] True
  obtain f where f: "f \<in> set (kyoto_candidates rx slot h (big_u64 n))" "f st = Some st'"
    and root: "root st' = target" by auto
  have "total_supply st + CalculateBlockReward (big_u64 n) < 2 ^ 256"
    using assms(3) block_reward_bounds(2) [of "big_u64 n"] by linarith
  then have "total_supply st' \<le> total_supply st + CalculateBlockReward (big_u64 n)"
    using issues_candidates [OF assms(2) refl f(1)] f(2) unfolding issues_at_most_def by blast
  with root True show ?thesis by simp
next
  case False
  then show ?thesis
    using assms(1,2) try_candidates_result [of root target _ st ok st']
    by (auto simp: FinalizeKyotoEmptyBlockForRoot_def split: option.splits if_splits)
qed

definition kyoto_chain :: chain_config where
  "kyoto_chain = \<lparr>ChainID = Some 1, LondonBlock = Some 0, RandomXTxBlock = None,
     RandomXMoneroBlock = None, EDATime = None, KyotoTime = Some 0, PhoneTime = None,
     AntarticalTime = None, QuantumResistantTime = None, MainKingAddress = 9,
     PostQuantumMainKingAddress = 0\<rparr>"

theorem kyoto_historical_finalization_witness:
  "\<exists>st'. FinalizeKyotoEmptyBlockForRoot plain_engine () (\<lambda>_. 0) (Some kyoto_chain) block_1
      (Some empty_body) 0 empty_state = Some (True, st') \<and>
     total_supply st' \<le> CalculateBlockReward 1"
proof -
  let ?st = "writeRotatingKingToStateValue () 1 empty_state"
  obtain st' where st': "distributeKyotoEmptyBlockRewards plain_engine block_1
      (Some (CalculateBlockReward 1)) ?st = Some st'"
    using kyoto_supply [of "CalculateBlockReward 1" ?st block_1 plain_engine]
      block_reward_bounds [of 1] by (auto simp: writeRotatingKingToStateValue_def)
  then have fin: "FinalizeKyotoEmptyBlockForRoot plain_engine () (\<lambda>_. 0) (Some kyoto_chain) block_1
      (Some empty_body) 0 empty_state = Some (True, st')"
    by (simp add: FinalizeKyotoEmptyBlockForRoot_def kyoto_chain_def fork_defs kyoto_candidates_def
        writeRotatingKingToState_def Let_def)
  from kyoto_historical_finalization [OF fin, of 1] fin show ?thesis by auto
qed

end
