(* ===== verification/Access_List.thy ===== *)
theory Access_List
  imports Prelude
begin

text \<open>
  The access list of \<open>core/state/access_list.go\<close>: the addresses and storage slots that a
  transaction has touched. An address maps to the index of its slot set, or to -1 while it has
  no slots. The journal removes entries in the reverse order of their insertion; the theory
  shows that the removals restore the list exactly, indices included.
\<close>

record accessList =
  al_addresses :: "address \<rightharpoonup> int"
  al_slots :: "hash set list"

definition newAccessList :: accessList where
  "newAccessList = \<lparr>al_addresses = Map.empty, al_slots = []\<rparr>"

definition al_ContainsAddress :: "address \<Rightarrow> accessList \<Rightarrow> bool" where
  "al_ContainsAddress a al \<longleftrightarrow> al_addresses al a \<noteq> None"

definition al_Contains :: "address \<Rightarrow> hash \<Rightarrow> accessList \<Rightarrow> bool \<times> bool" where
  "al_Contains a slot al =
     (case al_addresses al a of
        None \<Rightarrow> (False, False)
      | Some idx \<Rightarrow> if idx = - 1 then (True, False) else (True, slot \<in> al_slots al ! nat idx))"

definition al_AddAddress :: "address \<Rightarrow> accessList \<Rightarrow> bool \<times> accessList" where
  "al_AddAddress a al =
     (if al_addresses al a \<noteq> None then (False, al)
      else (True, al\<lparr>al_addresses := (al_addresses al)(a \<mapsto> - 1)\<rparr>))"

text \<open>The results say whether the address and whether the slot is new.\<close>

definition al_AddSlot :: "address \<Rightarrow> hash \<Rightarrow> accessList \<Rightarrow> (bool \<times> bool) \<times> accessList" where
  "al_AddSlot a slot al =
     (case al_addresses al a of
        Some idx \<Rightarrow>
          if idx = - 1 then
            ((False, True),
             \<lparr>al_addresses = (al_addresses al)(a \<mapsto> int (length (al_slots al))),
              al_slots = al_slots al @ [{slot}]\<rparr>)
          else if slot \<notin> al_slots al ! nat idx then
            ((False, True),
             al\<lparr>al_slots := (al_slots al)[nat idx := insert slot (al_slots al ! nat idx)]\<rparr>)
          else ((False, False), al)
      | None \<Rightarrow>
          ((True, True),
           \<lparr>al_addresses = (al_addresses al)(a \<mapsto> int (length (al_slots al))),
            al_slots = al_slots al @ [{slot}]\<rparr>))"

text \<open>Removing a slot panics without the address, and without a slot set for it.\<close>

definition al_DeleteSlot :: "address \<Rightarrow> hash \<Rightarrow> accessList \<Rightarrow> accessList option" where
  "al_DeleteSlot a slot al =
     (case al_addresses al a of
        None \<Rightarrow> None
      | Some idx \<Rightarrow>
          if idx < 0 \<or> length (al_slots al) \<le> nat idx then None
          else
            let slotmap = al_slots al ! nat idx - {slot}
            in if slotmap = {}
               then Some \<lparr>al_addresses = (al_addresses al)(a \<mapsto> - 1),
                          al_slots = take (nat idx) (al_slots al)\<rparr>
               else Some (al\<lparr>al_slots := (al_slots al)[nat idx := slotmap]\<rparr>))"

definition al_DeleteAddress :: "address \<Rightarrow> accessList \<Rightarrow> accessList" where
  "al_DeleteAddress a al = al\<lparr>al_addresses := (al_addresses al)(a := None)\<rparr>"

text \<open>
  Every index is -1 or points to a non-empty set of slots, and no two addresses share one.
\<close>

definition al_ok :: "accessList \<Rightarrow> bool" where
  "al_ok al \<longleftrightarrow>
     (\<forall>a idx. al_addresses al a = Some idx \<longrightarrow>
        idx = - 1 \<or> 0 \<le> idx \<and> nat idx < length (al_slots al)) \<and>
     (\<forall>a b idx. al_addresses al a = Some idx \<longrightarrow> al_addresses al b = Some idx \<longrightarrow> 0 \<le> idx \<longrightarrow> a = b) \<and>
     (\<forall>i < length (al_slots al). al_slots al ! i \<noteq> {})"

section \<open>Lemmas\<close>

lemma al_ok_new [simp]: "al_ok newAccessList"
  by (simp add: al_ok_def newAccessList_def)

lemma al_ok_AddAddress: "al_ok al \<Longrightarrow> al_ok (snd (al_AddAddress a al))"
  by (auto simp: al_ok_def al_AddAddress_def)

lemma al_ok_append:
  assumes "al_ok al" "al_addresses al a = None \<or> al_addresses al a = Some (- 1)"
  shows "al_ok \<lparr>al_addresses = (al_addresses al)(a \<mapsto> int (length (al_slots al))),
    al_slots = al_slots al @ [{slot}]\<rparr>"
proof -
  have b: "0 \<le> idx \<Longrightarrow> nat idx < length (al_slots al)" if "al_addresses al b = Some idx" for b idx
    using assms(1) that unfolding al_ok_def by fastforce
  then have "idx \<noteq> int (length (al_slots al))" if "al_addresses al b = Some idx" for b idx
    using that by fastforce
  with assms b show ?thesis
    unfolding al_ok_def by (auto simp: nth_append less_Suc_eq)
qed

lemma al_ok_insert:
  assumes "al_ok al" "i < length (al_slots al)"
  shows "al_ok (al\<lparr>al_slots := (al_slots al)[i := insert slot (al_slots al ! i)]\<rparr>)"
  using assms unfolding al_ok_def by (simp add: nth_list_update)

lemma al_ok_index:
  "al_ok al \<Longrightarrow> al_addresses al a = Some idx \<Longrightarrow> idx \<noteq> - 1 \<Longrightarrow> 0 \<le> idx \<and> nat idx < length (al_slots al)"
  unfolding al_ok_def by blast

lemma al_ok_AddSlot: "al_ok al \<Longrightarrow> al_ok (snd (al_AddSlot a slot al))"
  by (auto simp: al_AddSlot_def al_ok_append al_ok_insert al_ok_index split: option.splits)

lemma al_DeleteAddress_AddAddress:
  "fst (al_AddAddress a al) \<Longrightarrow> al_DeleteAddress a (snd (al_AddAddress a al)) = al"
  by (cases al) (auto simp: al_AddAddress_def al_DeleteAddress_def fun_upd_idem split: if_splits)

text \<open>Removing an added slot leaves the list as it was, with the address if that was new.\<close>

lemma al_DeleteSlot_AddSlot:
  assumes "al_ok al" "snd (fst (al_AddSlot a slot al))"
  shows "al_DeleteSlot a slot (snd (al_AddSlot a slot al)) = Some (snd (al_AddAddress a al))"
proof (cases "al_addresses al a")
  case None
  then show ?thesis by (simp add: al_AddSlot_def al_DeleteSlot_def al_AddAddress_def)
next
  case (Some idx)
  show ?thesis
  proof (cases "idx = - 1")
    case True
    with Some show ?thesis
      by (cases al) (simp add: al_AddSlot_def al_DeleteSlot_def al_AddAddress_def fun_upd_idem)
  next
    case False
    note i = al_ok_index [OF assms(1) Some False]
    from False Some assms(2) have n: "slot \<notin> al_slots al ! nat idx"
      by (auto simp: al_AddSlot_def split: if_splits)
    moreover have "al_slots al ! nat idx \<noteq> {}" using assms(1) i unfolding al_ok_def by blast
    ultimately show ?thesis
      using Some False i
      by (cases al) (simp add: al_AddSlot_def al_DeleteSlot_def al_AddAddress_def not_le)
  qed
qed

end
