(* ===== verification/Statedb.thy ===== *)
theory Statedb
  imports Access_List
begin

text \<open>
  The journaled state of \<open>core/state\<close>: state objects (\<open>state_object.go\<close>), the journal
  (\<open>journal.go\<close>), transient storage and the operations of \<open>StateDB\<close> (\<open>statedb.go\<close>) that
  transactions use, with snapshots, reverting and finalisation.

  The database below is an argument, \<open>be\<close>: the accounts, storage words and code that a reader
  returns, and the hash function. Database errors, tries, prefetching, witnesses, access events
  and measurements are not modelled. Methods of a state object take the object and the state
  and return both, because they write to the journal and to the access summary; a nil
  dereference is None.
\<close>

section \<open>Accounts and objects\<close>

record StateAccount =
  ac_Nonce :: u64
  ac_Balance :: u256
  ac_Root :: hash
  ac_CodeHash :: hash

record backend =
  be_keccak :: "bytes \<Rightarrow> hash"
  be_Account :: "address \<Rightarrow> StateAccount option"
  be_Storage :: "address \<Rightarrow> hash \<Rightarrow> hash"
  be_Code :: "address \<Rightarrow> hash \<Rightarrow> bytes"

definition EmptyRootHash :: hash where
  "EmptyRootHash = 0x56e81f171bcc55a6ff8345e692c0f86e5b48e01b996cadc001622fb5e363b421"

definition EmptyCodeHash :: "backend \<Rightarrow> hash" where
  "EmptyCodeHash be = be_keccak be []"

definition NewEmptyStateAccount :: "backend \<Rightarrow> StateAccount" where
  "NewEmptyStateAccount be =
     \<lparr>ac_Nonce = 0, ac_Balance = 0, ac_Root = EmptyRootHash, ac_CodeHash = EmptyCodeHash be\<rparr>"

type_synonym Storage = "hash \<rightharpoonup> hash"

text \<open>
  The address of an object is its key in the map of the objects and is passed to the functions that
  need it; the tries and the handle of the database are behind the reader of the backend.
\<close>

record stateObject =
  so_origin :: "StateAccount option"
  so_data :: StateAccount
  so_code :: bytes
  so_originStorage :: Storage
  so_dirtyStorage :: Storage
  so_pendingStorage :: Storage
  so_uncommittedStorage :: Storage
  so_dirtyCode :: bool
  so_selfDestructed :: bool
  so_newContract :: bool

definition newObject :: "backend \<Rightarrow> StateAccount option \<Rightarrow> stateObject" where
  "newObject be acct =
     \<lparr>so_origin = acct, so_data = (case acct of None \<Rightarrow> NewEmptyStateAccount be | Some a \<Rightarrow> a),
      so_code = [], so_originStorage = Map.empty, so_dirtyStorage = Map.empty,
      so_pendingStorage = Map.empty, so_uncommittedStorage = Map.empty, so_dirtyCode = False,
      so_selfDestructed = False, so_newContract = False\<rparr>"

definition acct_empty :: "backend \<Rightarrow> StateAccount \<Rightarrow> bool" where
  "acct_empty be d \<longleftrightarrow> ac_Nonce d = 0 \<and> ac_Balance d = 0 \<and> ac_CodeHash d = EmptyCodeHash be"

definition so_empty :: "backend \<Rightarrow> stateObject \<Rightarrow> bool" where
  "so_empty be obj = acct_empty be (so_data obj)"

section \<open>The state\<close>

datatype journalEntry =
    createObjectChange address
  | createContractChange address
  | selfDestructChange address
  | balanceChange address u256
  | nonceChange address u64
  | storageChange address hash hash hash
  | codeChange address bytes
  | refundChange u64
  | addLogChange hash
  | touchChange address
  | accessListAddAccountChange address
  | accessListAddSlotChange address hash
  | transientStorageChange address hash hash

text \<open>The addresses with a number of changes other than zero are the keys of \<open>dirties\<close>.\<close>

record journal =
  jr_entries :: "journalEntry list"
  jr_dirties :: "address \<Rightarrow> int"
  jr_validRevisions :: "(nat \<times> nat) list"
  jr_nextRevisionId :: nat

record Log =
  lg_Address :: address
  lg_Topics :: "hash list"
  lg_Data :: bytes
  lg_TxHash :: hash
  lg_TxIndex :: u64
  lg_Index :: u64

datatype mutationType = mutUpdate | mutDeletion

record mutation =
  mu_typ :: mutationType
  mu_applied :: bool

record StateDB =
  db_objects :: "address \<rightharpoonup> stateObject"
  db_destruct :: "address \<rightharpoonup> stateObject"
  db_mutations :: "address \<rightharpoonup> mutation"
  db_refund :: u64
  db_thash :: hash
  db_txIndex :: u64
  db_logs :: "hash \<Rightarrow> Log list"
  db_logSize :: u64
  db_accessList :: accessList
  db_transient :: "address \<times> hash \<rightharpoonup> hash"
  db_accessReads :: "address set"
  db_accessWrites :: "address set"
  db_storageReads :: "address \<times> hash \<rightharpoonup> hash"
  db_storageWrites :: "address \<times> hash \<rightharpoonup> hash"
  db_journal :: journal

section \<open>The journal\<close>

definition newJournal :: journal where
  "newJournal = \<lparr>jr_entries = [], jr_dirties = (\<lambda>_. 0), jr_validRevisions = [], jr_nextRevisionId = 0\<rparr>"

definition ripemd :: address where
  "ripemd = 3"

fun dirtied :: "journalEntry \<Rightarrow> address option" where
  "dirtied (createObjectChange a) = Some a"
| "dirtied (createContractChange a) = None"
| "dirtied (selfDestructChange a) = Some a"
| "dirtied (balanceChange a p) = Some a"
| "dirtied (nonceChange a p) = Some a"
| "dirtied (storageChange a k p orig) = Some a"
| "dirtied (codeChange a p) = Some a"
| "dirtied (refundChange p) = None"
| "dirtied (addLogChange h) = None"
| "dirtied (touchChange a) = Some a"
| "dirtied (accessListAddAccountChange a) = None"
| "dirtied (accessListAddSlotChange a k) = None"
| "dirtied (transientStorageChange a k p) = None"

definition count_dirty :: "int \<Rightarrow> journalEntry \<Rightarrow> (address \<Rightarrow> int) \<Rightarrow> address \<Rightarrow> int" where
  "count_dirty n e d = (case dirtied e of None \<Rightarrow> d | Some a \<Rightarrow> d(a := d a + n))"

definition j_append :: "journalEntry \<Rightarrow> StateDB \<Rightarrow> StateDB" where
  "j_append e s =
     (let j = db_journal s
      in s\<lparr>db_journal := j\<lparr>jr_entries := jr_entries j @ [e],
                          jr_dirties := count_dirty 1 e (jr_dirties j)\<rparr>\<rparr>)"

definition j_dirty :: "address \<Rightarrow> StateDB \<Rightarrow> StateDB" where
  "j_dirty a s =
     (let j = db_journal s in s\<lparr>db_journal := j\<lparr>jr_dirties := (jr_dirties j)(a := jr_dirties j a + 1)\<rparr>\<rparr>)"

definition touch :: "address \<Rightarrow> StateDB \<Rightarrow> StateDB" where
  "touch a s = (let s = j_append (touchChange a) s in if a = ripemd then j_dirty a s else s)"

section \<open>Access summary\<close>

definition recordRead :: "address \<Rightarrow> StateDB \<Rightarrow> StateDB" where
  "recordRead a s = s\<lparr>db_accessReads := insert a (db_accessReads s)\<rparr>"

definition recordWrite :: "address \<Rightarrow> StateDB \<Rightarrow> StateDB" where
  "recordWrite a s = s\<lparr>db_accessWrites := insert a (db_accessWrites s)\<rparr>"

definition recordStorageRead :: "address \<Rightarrow> hash \<Rightarrow> hash \<Rightarrow> StateDB \<Rightarrow> StateDB" where
  "recordStorageRead a key val s =
     (if db_storageReads s (a, key) = None
      then s\<lparr>db_storageReads := (db_storageReads s)((a, key) \<mapsto> val)\<rparr> else s)"

definition recordStorageWrite :: "address \<Rightarrow> hash \<Rightarrow> hash \<Rightarrow> StateDB \<Rightarrow> StateDB" where
  "recordStorageWrite a key val s = s\<lparr>db_storageWrites := (db_storageWrites s)((a, key) \<mapsto> val)\<rparr>"

definition ResetAccessSummary :: "StateDB \<Rightarrow> StateDB" where
  "ResetAccessSummary s =
     s\<lparr>db_accessReads := {}, db_accessWrites := {}, db_storageReads := Map.empty,
       db_storageWrites := Map.empty\<rparr>"

section \<open>Looking up objects\<close>

definition setStateObject :: "address \<Rightarrow> stateObject \<Rightarrow> StateDB \<Rightarrow> StateDB" where
  "setStateObject a obj s = s\<lparr>db_objects := (db_objects s)(a \<mapsto> obj)\<rparr>"

definition getStateObject :: "backend \<Rightarrow> address \<Rightarrow> StateDB \<Rightarrow> stateObject option \<times> StateDB" where
  "getStateObject be a s =
     (let s = recordRead a s
      in case db_objects s a of
           Some obj \<Rightarrow> (Some obj, s)
         | None \<Rightarrow>
             if db_destruct s a \<noteq> None then (None, s)
             else
               (case be_Account be a of
                  None \<Rightarrow> (None, s)
                | Some acct \<Rightarrow>
                    let obj = newObject be (Some acct) in (Some obj, setStateObject a obj s)))"

definition createObject :: "backend \<Rightarrow> address \<Rightarrow> StateDB \<Rightarrow> stateObject \<times> StateDB" where
  "createObject be a s =
     (let s = recordWrite a s;
          obj = newObject be None;
          s = j_append (createObjectChange a) s
      in (obj, setStateObject a obj s))"

definition getOrNewStateObject :: "backend \<Rightarrow> address \<Rightarrow> StateDB \<Rightarrow> stateObject \<times> StateDB" where
  "getOrNewStateObject be a s =
     (case getStateObject be a s of
        (Some obj, s) \<Rightarrow> (obj, s)
      | (None, s) \<Rightarrow> createObject be a s)"

section \<open>Methods of an object\<close>

text \<open>The object at \<open>a\<close> after a method has changed it.\<close>

definition obj_GetCommittedState ::
    "backend \<Rightarrow> address \<Rightarrow> hash \<Rightarrow> stateObject \<times> StateDB \<Rightarrow> hash \<times> stateObject \<times> StateDB" where
  "obj_GetCommittedState be a key os =
     (let (obj, s) = os;
          s = (case so_originStorage obj key of None \<Rightarrow> s | Some v \<Rightarrow> recordStorageRead a key v s)
      in case so_pendingStorage obj key of
           Some v \<Rightarrow> (v, obj, s)
         | None \<Rightarrow>
             (case so_originStorage obj key of
                Some v \<Rightarrow> (v, obj, s)
              | None \<Rightarrow>
                  let v = (if db_destruct s a \<noteq> None then 0 else be_Storage be a key)
                  in (v, obj\<lparr>so_originStorage := (so_originStorage obj)(key \<mapsto> v)\<rparr>,
                      recordStorageRead a key v s)))"

definition obj_GetState ::
    "backend \<Rightarrow> address \<Rightarrow> hash \<Rightarrow> stateObject \<times> StateDB \<Rightarrow> hash \<times> stateObject \<times> StateDB" where
  "obj_GetState be a key os =
     (case so_dirtyStorage (fst os) key of
        Some v \<Rightarrow> (v, os)
      | None \<Rightarrow> obj_GetCommittedState be a key os)"

text \<open>The value and the original value.\<close>

definition obj_getState ::
    "backend \<Rightarrow> address \<Rightarrow> hash \<Rightarrow> stateObject \<times> StateDB \<Rightarrow> (hash \<times> hash) \<times> stateObject \<times> StateDB" where
  "obj_getState be a key os =
     (let (orig, obj, s) = obj_GetCommittedState be a key os
      in case so_dirtyStorage obj key of
           Some v \<Rightarrow> ((v, orig), obj, s)
         | None \<Rightarrow> ((orig, orig), obj, s))"

definition obj_setState :: "hash \<Rightarrow> hash \<Rightarrow> hash \<Rightarrow> stateObject \<Rightarrow> stateObject" where
  "obj_setState key val orig obj =
     obj\<lparr>so_dirtyStorage := (so_dirtyStorage obj)(key := if val = orig then None else Some val)\<rparr>"

definition obj_SetState ::
    "backend \<Rightarrow> address \<Rightarrow> hash \<Rightarrow> hash \<Rightarrow> stateObject \<times> StateDB \<Rightarrow> hash \<times> stateObject \<times> StateDB" where
  "obj_SetState be a key val os =
     (let ((prev, orig), obj, s) = obj_getState be a key os
      in if prev = val then (prev, obj, s)
         else
           let s = recordStorageWrite a key val s;
               s = j_append (storageChange a key prev orig) s
           in (prev, obj_setState key val orig obj, s))"

definition obj_setBalance :: "u256 \<Rightarrow> stateObject \<Rightarrow> stateObject" where
  "obj_setBalance amount obj = obj\<lparr>so_data := (so_data obj)\<lparr>ac_Balance := amount\<rparr>\<rparr>"

definition obj_SetBalance ::
    "address \<Rightarrow> u256 \<Rightarrow> stateObject \<times> StateDB \<Rightarrow> u256 \<times> stateObject \<times> StateDB" where
  "obj_SetBalance a amount os =
     (let (obj, s) = os; prev = ac_Balance (so_data obj)
      in (prev, obj_setBalance amount obj, j_append (balanceChange a prev) s))"

definition obj_AddBalance ::
    "backend \<Rightarrow> address \<Rightarrow> u256 \<Rightarrow> stateObject \<times> StateDB \<Rightarrow> u256 \<times> stateObject \<times> StateDB" where
  "obj_AddBalance be a amount os =
     (let (obj, s) = os
      in if amount = 0
         then (ac_Balance (so_data obj), obj, if so_empty be obj then touch a s else s)
         else obj_SetBalance a (ac_Balance (so_data obj) + amount) os)"

definition obj_setNonce :: "u64 \<Rightarrow> stateObject \<Rightarrow> stateObject" where
  "obj_setNonce nonce obj = obj\<lparr>so_data := (so_data obj)\<lparr>ac_Nonce := nonce\<rparr>\<rparr>"

definition obj_SetNonce :: "address \<Rightarrow> u64 \<Rightarrow> stateObject \<times> StateDB \<Rightarrow> stateObject \<times> StateDB" where
  "obj_SetNonce a nonce os =
     (let (obj, s) = os
      in (obj_setNonce nonce obj, j_append (nonceChange a (ac_Nonce (so_data obj))) s))"

definition obj_Code :: "backend \<Rightarrow> address \<Rightarrow> stateObject \<Rightarrow> bytes \<times> stateObject" where
  "obj_Code be a obj =
     (if so_code obj \<noteq> [] then (so_code obj, obj)
      else if ac_CodeHash (so_data obj) = EmptyCodeHash be then ([], obj)
      else let code = be_Code be a (ac_CodeHash (so_data obj)) in (code, obj\<lparr>so_code := code\<rparr>))"

definition obj_setCode :: "hash \<Rightarrow> bytes \<Rightarrow> stateObject \<Rightarrow> stateObject" where
  "obj_setCode codeHash code obj =
     obj\<lparr>so_code := code, so_data := (so_data obj)\<lparr>ac_CodeHash := codeHash\<rparr>, so_dirtyCode := True\<rparr>"

definition obj_SetCode ::
    "address \<Rightarrow> hash \<Rightarrow> bytes \<Rightarrow> stateObject \<times> StateDB \<Rightarrow> bytes \<times> stateObject \<times> StateDB" where
  "obj_SetCode a codeHash code os =
     (let (obj, s) = os; prev = so_code obj
      in (prev, obj_setCode codeHash code obj, j_append (codeChange a prev) s))"

section \<open>Operations of the state\<close>

definition db_AddLog :: "Log \<Rightarrow> StateDB \<Rightarrow> StateDB" where
  "db_AddLog log s =
     (let s = j_append (addLogChange (db_thash s)) s;
          log = log\<lparr>lg_TxHash := db_thash s, lg_TxIndex := db_txIndex s, lg_Index := db_logSize s\<rparr>
      in s\<lparr>db_logs := (db_logs s)(db_thash s := db_logs s (db_thash s) @ [log]),
           db_logSize := db_logSize s + 1\<rparr>)"

definition db_AddRefund :: "u64 \<Rightarrow> StateDB \<Rightarrow> StateDB" where
  "db_AddRefund gas s =
     (let s = j_append (refundChange (db_refund s)) s in s\<lparr>db_refund := db_refund s + gas\<rparr>)"

definition db_SubRefund :: "u64 \<Rightarrow> StateDB \<Rightarrow> StateDB option" where
  "db_SubRefund gas s =
     (let s = j_append (refundChange (db_refund s)) s
      in if gas > db_refund s then None else Some (s\<lparr>db_refund := db_refund s - gas\<rparr>))"

definition db_Exist :: "backend \<Rightarrow> address \<Rightarrow> StateDB \<Rightarrow> bool \<times> StateDB" where
  "db_Exist be a s = (let (obj, s) = getStateObject be a s in (obj \<noteq> None, s))"

definition db_Empty :: "backend \<Rightarrow> address \<Rightarrow> StateDB \<Rightarrow> bool \<times> StateDB" where
  "db_Empty be a s =
     (let (so, s) = getStateObject be a s
      in (case so of None \<Rightarrow> True | Some obj \<Rightarrow> so_empty be obj, s))"

definition db_GetBalance :: "backend \<Rightarrow> address \<Rightarrow> StateDB \<Rightarrow> u256 \<times> StateDB" where
  "db_GetBalance be a s =
     (let (so, s) = getStateObject be a s
      in (case so of None \<Rightarrow> 0 | Some obj \<Rightarrow> ac_Balance (so_data obj), s))"

definition db_GetNonce :: "backend \<Rightarrow> address \<Rightarrow> StateDB \<Rightarrow> u64 \<times> StateDB" where
  "db_GetNonce be a s =
     (let (so, s) = getStateObject be a s
      in (case so of None \<Rightarrow> 0 | Some obj \<Rightarrow> ac_Nonce (so_data obj), s))"

definition db_GetCodeHash :: "backend \<Rightarrow> address \<Rightarrow> StateDB \<Rightarrow> hash \<times> StateDB" where
  "db_GetCodeHash be a s =
     (let (so, s) = getStateObject be a s
      in (case so of None \<Rightarrow> 0 | Some obj \<Rightarrow> ac_CodeHash (so_data obj), s))"

definition db_GetCode :: "backend \<Rightarrow> address \<Rightarrow> StateDB \<Rightarrow> bytes \<times> StateDB" where
  "db_GetCode be a s =
     (case getStateObject be a s of
        (None, s) \<Rightarrow> ([], s)
      | (Some obj, s) \<Rightarrow> let (code, obj) = obj_Code be a obj in (code, setStateObject a obj s))"

definition db_GetState :: "backend \<Rightarrow> address \<Rightarrow> hash \<Rightarrow> StateDB \<Rightarrow> hash \<times> StateDB" where
  "db_GetState be a key s =
     (case getStateObject be a s of
        (None, s) \<Rightarrow> (0, s)
      | (Some obj, s) \<Rightarrow>
          let (v, obj, s) = obj_GetState be a key (obj, s) in (v, setStateObject a obj s))"

definition db_GetCommittedState :: "backend \<Rightarrow> address \<Rightarrow> hash \<Rightarrow> StateDB \<Rightarrow> hash \<times> StateDB" where
  "db_GetCommittedState be a key s =
     (case getStateObject be a s of
        (None, s) \<Rightarrow> (0, s)
      | (Some obj, s) \<Rightarrow>
          let (v, obj, s) = obj_GetCommittedState be a key (obj, s) in (v, setStateObject a obj s))"

definition db_HasSelfDestructed :: "backend \<Rightarrow> address \<Rightarrow> StateDB \<Rightarrow> bool \<times> StateDB" where
  "db_HasSelfDestructed be a s =
     (let (so, s) = getStateObject be a s
      in (case so of None \<Rightarrow> False | Some obj \<Rightarrow> so_selfDestructed obj, s))"

definition db_AddBalance :: "backend \<Rightarrow> address \<Rightarrow> u256 \<Rightarrow> StateDB \<Rightarrow> u256 \<times> StateDB" where
  "db_AddBalance be a amount s =
     (let (prev, obj, s) = obj_AddBalance be a amount (getOrNewStateObject be a (recordWrite a s))
      in (prev, setStateObject a obj s))"

definition db_SubBalance :: "backend \<Rightarrow> address \<Rightarrow> u256 \<Rightarrow> StateDB \<Rightarrow> u256 \<times> StateDB" where
  "db_SubBalance be a amount s =
     (let (obj, s) = getOrNewStateObject be a (recordWrite a s)
      in if amount = 0 then (ac_Balance (so_data obj), s)
         else
           let (prev, obj, s) = obj_SetBalance a (ac_Balance (so_data obj) - amount) (obj, s)
           in (prev, setStateObject a obj s))"

definition db_SetBalance :: "backend \<Rightarrow> address \<Rightarrow> u256 \<Rightarrow> StateDB \<Rightarrow> StateDB" where
  "db_SetBalance be a amount s =
     (let (_, obj, s) = obj_SetBalance a amount (getOrNewStateObject be a (recordWrite a s))
      in setStateObject a obj s)"

definition db_SetNonce :: "backend \<Rightarrow> address \<Rightarrow> u64 \<Rightarrow> StateDB \<Rightarrow> StateDB" where
  "db_SetNonce be a nonce s =
     (let (obj, s) = obj_SetNonce a nonce (getOrNewStateObject be a (recordWrite a s))
      in setStateObject a obj s)"

definition db_SetCode :: "backend \<Rightarrow> address \<Rightarrow> bytes \<Rightarrow> StateDB \<Rightarrow> bytes \<times> StateDB" where
  "db_SetCode be a code s =
     (let (prev, obj, s) =
            obj_SetCode a (be_keccak be code) code (getOrNewStateObject be a (recordWrite a s))
      in (prev, setStateObject a obj s))"

definition db_SetState :: "backend \<Rightarrow> address \<Rightarrow> hash \<Rightarrow> hash \<Rightarrow> StateDB \<Rightarrow> hash \<times> StateDB" where
  "db_SetState be a key val s =
     (let (prev, obj, s) = obj_SetState be a key val (getOrNewStateObject be a (recordWrite a s))
      in (prev, setStateObject a obj s))"

definition db_SelfDestruct :: "backend \<Rightarrow> address \<Rightarrow> StateDB \<Rightarrow> StateDB" where
  "db_SelfDestruct be a s =
     (case getStateObject be a (recordWrite a s) of
        (None, s) \<Rightarrow> s
      | (Some obj, s) \<Rightarrow>
          if so_selfDestructed obj then s
          else setStateObject a (obj\<lparr>so_selfDestructed := True\<rparr>) (j_append (selfDestructChange a) s))"

definition ts_Set :: "address \<Rightarrow> hash \<Rightarrow> hash \<Rightarrow> (address \<times> hash \<rightharpoonup> hash) \<Rightarrow> (address \<times> hash \<rightharpoonup> hash)" where
  "ts_Set a key val t = t((a, key) := if val = 0 then None else Some val)"

definition ts_Get :: "address \<Rightarrow> hash \<Rightarrow> (address \<times> hash \<rightharpoonup> hash) \<Rightarrow> hash" where
  "ts_Get a key t = (case t (a, key) of None \<Rightarrow> 0 | Some v \<Rightarrow> v)"

definition db_SetTransientState :: "address \<Rightarrow> hash \<Rightarrow> hash \<Rightarrow> StateDB \<Rightarrow> StateDB" where
  "db_SetTransientState a key val s =
     (let prev = ts_Get a key (db_transient s)
      in if prev = val then s
         else
           let s = j_append (transientStorageChange a key prev) s
           in s\<lparr>db_transient := ts_Set a key val (db_transient s)\<rparr>)"

definition db_CreateAccount :: "backend \<Rightarrow> address \<Rightarrow> StateDB \<Rightarrow> StateDB" where
  "db_CreateAccount be a s = snd (createObject be a s)"

definition db_CreateContract :: "backend \<Rightarrow> address \<Rightarrow> StateDB \<Rightarrow> StateDB option" where
  "db_CreateContract be a s =
     (case getStateObject be a s of
        (None, s) \<Rightarrow> None
      | (Some obj, s) \<Rightarrow>
          if so_newContract obj then Some s
          else Some (j_append (createContractChange a)
                 (setStateObject a (obj\<lparr>so_newContract := True\<rparr>) s)))"

definition db_IsNewContract :: "backend \<Rightarrow> address \<Rightarrow> StateDB \<Rightarrow> bool \<times> StateDB" where
  "db_IsNewContract be a s =
     (let (so, s) = getStateObject be a s
      in (case so of None \<Rightarrow> False | Some obj \<Rightarrow> so_newContract obj, s))"

definition db_AddAddressToAccessList :: "address \<Rightarrow> StateDB \<Rightarrow> StateDB" where
  "db_AddAddressToAccessList a s =
     (let (new, al) = al_AddAddress a (db_accessList s); s = s\<lparr>db_accessList := al\<rparr>
      in if new then j_append (accessListAddAccountChange a) s else s)"

definition db_AddSlotToAccessList :: "address \<Rightarrow> hash \<Rightarrow> StateDB \<Rightarrow> StateDB" where
  "db_AddSlotToAccessList a slot s =
     (let ((addrMod, slotMod), al) = al_AddSlot a slot (db_accessList s);
          s = s\<lparr>db_accessList := al\<rparr>;
          s = (if addrMod then j_append (accessListAddAccountChange a) s else s)
      in if slotMod then j_append (accessListAddSlotChange a slot) s else s)"

section \<open>Snapshots\<close>

definition db_Snapshot :: "StateDB \<Rightarrow> nat \<times> StateDB" where
  "db_Snapshot s =
     (let j = db_journal s; id = jr_nextRevisionId j
      in (id, s\<lparr>db_journal := j\<lparr>jr_nextRevisionId := id + 1,
            jr_validRevisions := jr_validRevisions j @ [(id, length (jr_entries j))]\<rparr>\<rparr>))"

text \<open>Undoing one entry. The setters below are called on the object that is looked up.\<close>

definition on_object ::
    "backend \<Rightarrow> address \<Rightarrow> (stateObject \<Rightarrow> stateObject) \<Rightarrow> StateDB \<Rightarrow> StateDB option" where
  "on_object be a f s =
     (case getStateObject be a s of
        (None, s) \<Rightarrow> None
      | (Some obj, s) \<Rightarrow> Some (setStateObject a (f obj) s))"

fun entry_revert :: "backend \<Rightarrow> journalEntry \<Rightarrow> StateDB \<Rightarrow> StateDB option" where
  "entry_revert be (createObjectChange a) s = Some (s\<lparr>db_objects := (db_objects s)(a := None)\<rparr>)"
| "entry_revert be (createContractChange a) s = on_object be a (\<lambda>obj. obj\<lparr>so_newContract := False\<rparr>) s"
| "entry_revert be (selfDestructChange a) s =
     (case getStateObject be a s of
        (None, s) \<Rightarrow> Some s
      | (Some obj, s) \<Rightarrow> Some (setStateObject a (obj\<lparr>so_selfDestructed := False\<rparr>) s))"
| "entry_revert be (touchChange a) s = Some s"
| "entry_revert be (balanceChange a prev) s = on_object be a (obj_setBalance prev) s"
| "entry_revert be (nonceChange a prev) s = on_object be a (obj_setNonce prev) s"
| "entry_revert be (codeChange a prev) s = on_object be a (obj_setCode (be_keccak be prev) prev) s"
| "entry_revert be (storageChange a key prev orig) s = on_object be a (obj_setState key prev orig) s"
| "entry_revert be (transientStorageChange a key prev) s =
     Some (s\<lparr>db_transient := ts_Set a key prev (db_transient s)\<rparr>)"
| "entry_revert be (refundChange prev) s = Some (s\<lparr>db_refund := prev\<rparr>)"
| "entry_revert be (addLogChange h) s =
     (if db_logs s h = [] then None
      else Some (s\<lparr>db_logs := (db_logs s)(h := butlast (db_logs s h)), db_logSize := db_logSize s - 1\<rparr>))"
| "entry_revert be (accessListAddAccountChange a) s =
     Some (s\<lparr>db_accessList := al_DeleteAddress a (db_accessList s)\<rparr>)"
| "entry_revert be (accessListAddSlotChange a slot) s =
     map_option (\<lambda>al. s\<lparr>db_accessList := al\<rparr>) (al_DeleteSlot a slot (db_accessList s))"

text \<open>The entries from the last one back; each is undone and its dirty mark dropped.\<close>

fun revert_entries :: "backend \<Rightarrow> journalEntry list \<Rightarrow> StateDB \<Rightarrow> StateDB option" where
  "revert_entries be [] s = Some s"
| "revert_entries be (e # es) s =
     (case entry_revert be e s of
        None \<Rightarrow> None
      | Some s \<Rightarrow>
          let j = db_journal s
          in revert_entries be es (s\<lparr>db_journal := j\<lparr>jr_dirties := count_dirty (- 1) e (jr_dirties j)\<rparr>\<rparr>))"

definition j_revert :: "backend \<Rightarrow> nat \<Rightarrow> StateDB \<Rightarrow> StateDB option" where
  "j_revert be snapshot s =
     map_option (\<lambda>s. s\<lparr>db_journal := (db_journal s)\<lparr>jr_entries := take snapshot (jr_entries (db_journal s))\<rparr>\<rparr>)
       (revert_entries be (rev (drop snapshot (jr_entries (db_journal s)))) s)"

definition db_RevertToSnapshot :: "backend \<Rightarrow> nat \<Rightarrow> StateDB \<Rightarrow> StateDB option" where
  "db_RevertToSnapshot be revid s =
     (let revs = jr_validRevisions (db_journal s);
          idx = sort_Search (length revs) (\<lambda>i. fst (revs ! i) \<ge> revid)
      in if idx = length revs \<or> fst (revs ! idx) \<noteq> revid then None
         else
           map_option (\<lambda>s. s\<lparr>db_journal := (db_journal s)\<lparr>jr_validRevisions :=
                               take idx (jr_validRevisions (db_journal s))\<rparr>\<rparr>)
             (j_revert be (snd (revs ! idx)) s))"

section \<open>The end of a transaction\<close>

text \<open>What \<open>GetCommittedState\<close> returns for an object.\<close>

definition committed_value :: "backend \<Rightarrow> StateDB \<Rightarrow> address \<Rightarrow> stateObject \<Rightarrow> hash \<Rightarrow> hash" where
  "committed_value be s a obj key =
     (case so_pendingStorage obj key of
        Some v \<Rightarrow> v
      | None \<Rightarrow>
          (case so_originStorage obj key of
             Some v \<Rightarrow> v
           | None \<Rightarrow> if db_destruct s a \<noteq> None then 0 else be_Storage be a key))"

text \<open>
  \<open>finalise\<close> visits every dirty slot once, so it acts on each slot by itself. It reads the
  committed value of the slots that are not yet tracked for the commit, which caches it.
\<close>

definition fin_reads :: "stateObject \<Rightarrow> hash \<Rightarrow> bool" where
  "fin_reads obj key \<longleftrightarrow> so_dirtyStorage obj key \<noteq> None \<and> so_uncommittedStorage obj key = None"

definition obj_finalise :: "backend \<Rightarrow> StateDB \<Rightarrow> address \<Rightarrow> stateObject \<Rightarrow> stateObject" where
  "obj_finalise be s a obj =
     obj\<lparr>so_uncommittedStorage :=
           (\<lambda>key. case so_dirtyStorage obj key of
                    None \<Rightarrow> so_uncommittedStorage obj key
                  | Some val \<Rightarrow>
                      (case so_uncommittedStorage obj key of
                         Some orig \<Rightarrow> if orig = val then None else Some orig
                       | None \<Rightarrow> Some (committed_value be s a obj key))),
         so_originStorage :=
           (\<lambda>key. if fin_reads obj key \<and> so_pendingStorage obj key = None \<and> so_originStorage obj key = None
                  then Some (committed_value be s a obj key) else so_originStorage obj key),
         so_pendingStorage := so_pendingStorage obj ++ so_dirtyStorage obj,
         so_dirtyStorage := Map.empty, so_newContract := False\<rparr>"

definition fin_deletes :: "backend \<Rightarrow> bool \<Rightarrow> stateObject \<Rightarrow> bool" where
  "fin_deletes be deleteEmptyObjects obj \<longleftrightarrow>
     so_selfDestructed obj \<or> deleteEmptyObjects \<and> so_empty be obj"

definition clearJournalAndRefund :: "StateDB \<Rightarrow> StateDB" where
  "clearJournalAndRefund s = s\<lparr>db_journal := newJournal, db_refund := 0\<rparr>"

definition db_Finalise :: "backend \<Rightarrow> bool \<Rightarrow> StateDB \<Rightarrow> StateDB" where
  "db_Finalise be deleteEmptyObjects s =
     (let visited = (\<lambda>a. if jr_dirties (db_journal s) a = 0 then None else db_objects s a)
      in clearJournalAndRefund
           (s\<lparr>db_objects :=
                (\<lambda>a. case visited a of
                       None \<Rightarrow> db_objects s a
                     | Some obj \<Rightarrow>
                         if fin_deletes be deleteEmptyObjects obj then None
                         else Some (obj_finalise be s a obj)),
              db_mutations :=
                (\<lambda>a. case visited a of
                       None \<Rightarrow> db_mutations s a
                     | Some obj \<Rightarrow>
                         Some \<lparr>mu_typ = (if fin_deletes be deleteEmptyObjects obj then mutDeletion else mutUpdate),
                               mu_applied = False\<rparr>),
              db_destruct :=
                (\<lambda>a. case visited a of
                       None \<Rightarrow> db_destruct s a
                     | Some obj \<Rightarrow>
                         if fin_deletes be deleteEmptyObjects obj \<and> db_destruct s a = None
                         then Some obj else db_destruct s a),
              db_storageReads :=
                (\<lambda>(a, key). case visited a of
                       None \<Rightarrow> db_storageReads s (a, key)
                     | Some obj \<Rightarrow>
                         if \<not> fin_deletes be deleteEmptyObjects obj \<and> fin_reads obj key \<and>
                            db_storageReads s (a, key) = None
                         then (case so_originStorage obj key of
                                 Some v \<Rightarrow> Some v
                               | None \<Rightarrow>
                                   if so_pendingStorage obj key = None
                                   then Some (committed_value be s a obj key) else None)
                         else db_storageReads s (a, key))\<rparr>))"

definition SetTxContext :: "hash \<Rightarrow> u64 \<Rightarrow> StateDB \<Rightarrow> StateDB" where
  "SetTxContext thash ti s = s\<lparr>db_thash := thash, db_txIndex := ti\<rparr>"

text \<open>The rules of the fork, and the preparation of a transaction.\<close>

record prepare_rules =
  pr_IsEIP2929 :: bool
  pr_IsEIP4762 :: bool
  pr_IsShanghai :: bool

definition prepare_accessList ::
    "prepare_rules \<Rightarrow> address \<Rightarrow> address \<Rightarrow> address option \<Rightarrow> address list \<Rightarrow>
     (address \<times> hash list) list \<Rightarrow> accessList" where
  "prepare_accessList rules sender coinbase dst precompiles list =
     (let add = (\<lambda>a al. snd (al_AddAddress a al));
          al = add sender newAccessList;
          al = (case dst of None \<Rightarrow> al | Some d \<Rightarrow> add d al);
          al = fold add precompiles al;
          al = fold (\<lambda>(a, keys) al. fold (\<lambda>key al. snd (al_AddSlot a key al)) keys (add a al)) list al
      in if pr_IsShanghai rules then add coinbase al else al)"

definition db_Prepare ::
    "prepare_rules \<Rightarrow> address \<Rightarrow> address \<Rightarrow> address option \<Rightarrow> address list \<Rightarrow>
     (address \<times> hash list) list \<Rightarrow> StateDB \<Rightarrow> StateDB option" where
  "db_Prepare rules sender coinbase dst precompiles list s =
     (if pr_IsEIP2929 rules \<and> pr_IsEIP4762 rules then None
      else
        let s = (if pr_IsEIP2929 rules
                 then s\<lparr>db_accessList := prepare_accessList rules sender coinbase dst precompiles list\<rparr>
                 else s)
        in Some (s\<lparr>db_transient := Map.empty\<rparr>))"

definition NewWithReader :: StateDB where
  "NewWithReader =
     \<lparr>db_objects = Map.empty, db_destruct = Map.empty, db_mutations = Map.empty, db_refund = 0,
      db_thash = 0, db_txIndex = 0, db_logs = (\<lambda>_. []), db_logSize = 0,
      db_accessList = newAccessList, db_transient = Map.empty, db_accessReads = {},
      db_accessWrites = {}, db_storageReads = Map.empty, db_storageWrites = Map.empty,
      db_journal = newJournal\<rparr>"

section \<open>Writing storage back\<close>

text \<open>
  The storage trie of an object is the function that reads it, with zero for an absent slot:
  \<open>UpdateStorage\<close> and \<open>DeleteStorage\<close> set one slot. The marked slots are visited once each.
\<close>

definition obj_updateTrie :: "stateObject \<Rightarrow> (hash \<Rightarrow> hash) \<Rightarrow> stateObject \<times> (hash \<Rightarrow> hash)" where
  "obj_updateTrie obj tr =
     (obj\<lparr>so_uncommittedStorage := Map.empty\<rparr>,
      \<lambda>key. case so_uncommittedStorage obj key of
               None \<Rightarrow> tr key
             | Some orig \<Rightarrow>
                 (case so_pendingStorage obj key of
                    None \<Rightarrow> tr key
                  | Some val \<Rightarrow> if val = orig then tr key else val))"

text \<open>The written slots with their values, the values they had, and the clean storage after it.\<close>

definition obj_commitStorage :: "stateObject \<Rightarrow> stateObject \<times> Storage \<times> Storage" where
  "obj_commitStorage obj =
     (let orig = (\<lambda>key. case so_originStorage obj key of None \<Rightarrow> 0 | Some v \<Rightarrow> v);
          changed = (\<lambda>key. case so_pendingStorage obj key of None \<Rightarrow> False | Some val \<Rightarrow> val \<noteq> orig key)
      in (obj\<lparr>so_originStorage :=
                (\<lambda>key. if changed key then so_pendingStorage obj key else so_originStorage obj key),
             so_pendingStorage := Map.empty\<rparr>,
          \<lambda>key. if changed key then so_pendingStorage obj key else None,
          \<lambda>key. if changed key then Some (orig key) else None))"

section \<open>Sequences of calls\<close>

text \<open>The calls a transaction makes on the state between \<open>Prepare\<close> and \<open>Finalise\<close>.\<close>

datatype db_call =
    Call_Exist address | Call_Empty address | Call_GetBalance address | Call_GetNonce address
  | Call_GetCodeHash address | Call_GetCode address | Call_HasSelfDestructed address
  | Call_IsNewContract address | Call_GetState address hash | Call_GetCommittedState address hash
  | Call_AddBalance address u256 | Call_SubBalance address u256 | Call_SetBalance address u256
  | Call_SetNonce address u64 | Call_SetCode address bytes | Call_SetState address hash hash
  | Call_SelfDestruct address | Call_CreateAccount address | Call_CreateContract address
  | Call_SetTransientState address hash hash | Call_AddLog Log | Call_AddRefund u64 | Call_SubRefund u64
  | Call_AddAddressToAccessList address | Call_AddSlotToAccessList address hash
  | Call_ResetAccessSummary | Call_Snapshot | Call_RevertToSnapshot nat

fun db_exec :: "backend \<Rightarrow> db_call \<Rightarrow> StateDB \<Rightarrow> StateDB option" where
  "db_exec be (Call_Exist a) s = Some (snd (db_Exist be a s))"
| "db_exec be (Call_Empty a) s = Some (snd (db_Empty be a s))"
| "db_exec be (Call_GetBalance a) s = Some (snd (db_GetBalance be a s))"
| "db_exec be (Call_GetNonce a) s = Some (snd (db_GetNonce be a s))"
| "db_exec be (Call_GetCodeHash a) s = Some (snd (db_GetCodeHash be a s))"
| "db_exec be (Call_GetCode a) s = Some (snd (db_GetCode be a s))"
| "db_exec be (Call_HasSelfDestructed a) s = Some (snd (db_HasSelfDestructed be a s))"
| "db_exec be (Call_IsNewContract a) s = Some (snd (db_IsNewContract be a s))"
| "db_exec be (Call_GetState a key) s = Some (snd (db_GetState be a key s))"
| "db_exec be (Call_GetCommittedState a key) s = Some (snd (db_GetCommittedState be a key s))"
| "db_exec be (Call_AddBalance a v) s = Some (snd (db_AddBalance be a v s))"
| "db_exec be (Call_SubBalance a v) s = Some (snd (db_SubBalance be a v s))"
| "db_exec be (Call_SetBalance a v) s = Some (db_SetBalance be a v s)"
| "db_exec be (Call_SetNonce a n) s = Some (db_SetNonce be a n s)"
| "db_exec be (Call_SetCode a code) s = Some (snd (db_SetCode be a code s))"
| "db_exec be (Call_SetState a key v) s = Some (snd (db_SetState be a key v s))"
| "db_exec be (Call_SelfDestruct a) s = Some (db_SelfDestruct be a s)"
| "db_exec be (Call_CreateAccount a) s = Some (db_CreateAccount be a s)"
| "db_exec be (Call_CreateContract a) s = db_CreateContract be a s"
| "db_exec be (Call_SetTransientState a key v) s = Some (db_SetTransientState a key v s)"
| "db_exec be (Call_AddLog log) s = Some (db_AddLog log s)"
| "db_exec be (Call_AddRefund gas) s = Some (db_AddRefund gas s)"
| "db_exec be (Call_SubRefund gas) s = db_SubRefund gas s"
| "db_exec be (Call_AddAddressToAccessList a) s = Some (db_AddAddressToAccessList a s)"
| "db_exec be (Call_AddSlotToAccessList a slot) s = Some (db_AddSlotToAccessList a slot s)"
| "db_exec be Call_ResetAccessSummary s = Some (ResetAccessSummary s)"
| "db_exec be Call_Snapshot s = Some (snd (db_Snapshot s))"
| "db_exec be (Call_RevertToSnapshot revid) s = db_RevertToSnapshot be revid s"

fun db_execs :: "backend \<Rightarrow> db_call list \<Rightarrow> StateDB \<Rightarrow> StateDB option" where
  "db_execs be [] s = Some s"
| "db_execs be (c # cs) s = Option.bind (db_exec be c s) (db_execs be cs)"

end
