(* ===== verification/Statedb_Revert.thy ===== *)
theory Statedb_Revert
  imports Statedb
begin

text \<open>
  Snapshots of the journaled state. Loading objects, storage words and code only fills caches, so
  two states are compared by what they show: every object with its caches filled. On states up to
  this relation each journal entry undoes the change that wrote it, and reverting to a snapshot
  gives back the state in which the snapshot was taken.
\<close>

section \<open>What a state shows\<close>

definition origin_value :: "backend \<Rightarrow> bool \<Rightarrow> address \<Rightarrow> stateObject \<Rightarrow> hash \<Rightarrow> hash" where
  "origin_value be gone a obj key =
     (case so_originStorage obj key of
        Some v \<Rightarrow> v
      | None \<Rightarrow> if gone then 0 else be_Storage be a key)"

definition obj_canon :: "backend \<Rightarrow> bool \<Rightarrow> address \<Rightarrow> stateObject \<Rightarrow> stateObject" where
  "obj_canon be gone a obj =
     obj\<lparr>so_originStorage := (\<lambda>key. Some (origin_value be gone a obj key)),
         so_code := fst (obj_Code be a obj), so_dirtyCode := False\<rparr>"

definition destructed :: "StateDB \<Rightarrow> address \<Rightarrow> bool" where
  "destructed s a \<longleftrightarrow> db_destruct s a \<noteq> None"

definition peek :: "backend \<Rightarrow> StateDB \<Rightarrow> address \<Rightarrow> stateObject option" where
  "peek be s a =
     (case db_objects s a of
        Some obj \<Rightarrow> Some obj
      | None \<Rightarrow>
          if destructed s a then None else map_option (\<lambda>acct. newObject be (Some acct)) (be_Account be a))"

definition objv :: "backend \<Rightarrow> StateDB \<Rightarrow> address \<Rightarrow> stateObject option" where
  "objv be s a = map_option (obj_canon be (destructed s a) a) (peek be s a)"

text \<open>The other fields: without caches, access summary and journal.\<close>

definition rest :: "StateDB \<Rightarrow> StateDB" where
  "rest s =
     s\<lparr>db_objects := Map.empty, db_accessReads := {}, db_accessWrites := {},
       db_storageReads := Map.empty, db_storageWrites := Map.empty, db_journal := newJournal\<rparr>"

text \<open>The dirty counter of the address \<open>ripemd\<close> keeps its extra mark when a touch is undone.\<close>

definition sim :: "backend \<Rightarrow> StateDB \<Rightarrow> StateDB \<Rightarrow> bool" where
  "sim be s t \<longleftrightarrow>
     objv be s = objv be t \<and> rest s = rest t \<and>
     (\<forall>a. a \<noteq> ripemd \<longrightarrow> jr_dirties (db_journal s) a = jr_dirties (db_journal t) a)"

definition stack :: "StateDB \<Rightarrow> journalEntry list \<times> (nat \<times> nat) list \<times> nat" where
  "stack s = (let j = db_journal s in (jr_entries j, jr_validRevisions j, jr_nextRevisionId j))"

text \<open>
  An object is well formed when its code has its hash, dirty slots differ from the committed ones
  and the slots that transactions of the block have changed are marked for the commit, with the
  value from before the block.
\<close>

definition tracked_slot :: "hash option \<Rightarrow> hash option \<Rightarrow> hash option \<Rightarrow> bool" where
  "tracked_slot uncommitted pending origin =
     (case uncommitted of
        Some orig \<Rightarrow> origin = Some orig \<and> pending \<noteq> None \<and> pending \<noteq> Some orig
      | None \<Rightarrow> pending = None \<or> pending = origin)"

definition obj_ok :: "backend \<Rightarrow> stateObject \<Rightarrow> bool" where
  "obj_ok be obj \<longleftrightarrow>
     (so_code obj \<noteq> [] \<longrightarrow> be_keccak be (so_code obj) = ac_CodeHash (so_data obj)) \<and>
     (\<forall>key v. so_dirtyStorage obj key = Some v \<longrightarrow>
        (so_originStorage obj ++ so_pendingStorage obj) key \<noteq> Some v) \<and>
     (\<forall>key. tracked_slot (so_uncommittedStorage obj key) (so_pendingStorage obj key) (so_originStorage obj key))"

text \<open>The value of a slot before the block: nothing is read from storage of a destructed account.\<close>

definition base_value :: "backend \<Rightarrow> bool \<Rightarrow> address \<Rightarrow> hash \<Rightarrow> hash" where
  "base_value be gone a key = (if gone then 0 else be_Storage be a key)"

definition base_account :: "backend \<Rightarrow> bool \<Rightarrow> address \<Rightarrow> StateAccount option" where
  "base_account be gone a = (if gone then None else be_Account be a)"

definition db_ok :: "backend \<Rightarrow> StateDB \<Rightarrow> bool" where
  "db_ok be s \<longleftrightarrow>
     (\<forall>a obj. objv be s a = Some obj \<longrightarrow>
        obj_ok be obj \<and> so_originStorage obj = (\<lambda>key. Some (base_value be (destructed s a) a key)) \<and>
        so_origin obj = base_account be (destructed s a) a) \<and>
     al_ok (db_accessList s) \<and>
     (\<forall>k. db_transient s k \<noteq> Some 0)"

text \<open>Undoing one entry with its dirty mark, and one tracked change.\<close>

definition pop :: "backend \<Rightarrow> journalEntry \<Rightarrow> StateDB \<Rightarrow> StateDB option" where
  "pop be e s =
     map_option (\<lambda>s. s\<lparr>db_journal := (db_journal s)\<lparr>jr_dirties :=
                         count_dirty (- 1) e (jr_dirties (db_journal s))\<rparr>\<rparr>) (entry_revert be e s)"

definition count_marks :: "address \<Rightarrow> journalEntry list \<Rightarrow> int" where
  "count_marks a es = int (length (filter (\<lambda>e. dirtied e = Some a) es))"

definition silent :: "backend \<Rightarrow> StateDB \<Rightarrow> StateDB \<Rightarrow> bool" where
  "silent be s s' \<longleftrightarrow>
     sim be s' s \<and> stack s' = stack s \<and> jr_dirties (db_journal s') = jr_dirties (db_journal s)"

definition logged :: "backend \<Rightarrow> journalEntry \<Rightarrow> StateDB \<Rightarrow> StateDB \<Rightarrow> bool" where
  "logged be e s s' \<longleftrightarrow>
     stack s' = (let (es, revs, n) = stack s in (es @ [e], revs, n)) \<and>
     (\<forall>a. jr_dirties (db_journal s) a + count_marks a [e] \<le> jr_dirties (db_journal s') a) \<and>
     (\<exists>t. pop be e s' = Some t \<and> sim be t s)"

inductive steps :: "backend \<Rightarrow> StateDB \<Rightarrow> StateDB \<Rightarrow> bool" for be where
  steps_refl: "steps be s s"
| steps_silent: "steps be s t \<Longrightarrow> silent be t t' \<Longrightarrow> steps be s t'"
| steps_logged: "steps be s t \<Longrightarrow> logged be e t t' \<Longrightarrow> db_ok be t' \<Longrightarrow> steps be s t'"

text \<open>Changes of an object that do not depend on its caches, and the state after a lookup.\<close>

definition compat :: "backend \<Rightarrow> (stateObject \<Rightarrow> stateObject) \<Rightarrow> bool" where
  "compat be f \<longleftrightarrow>
     (\<forall>d a obj obj'. obj_canon be d a obj = obj_canon be d a obj' \<longrightarrow>
        obj_canon be d a (f obj) = obj_canon be d a (f obj'))"

definition loaded :: "backend \<Rightarrow> address \<Rightarrow> StateDB \<Rightarrow> StateDB" where
  "loaded be a s = snd (getStateObject be a s)"

text \<open>Setting the code journals the cached code, so the code must have been loaded before.\<close>

definition code_cached :: "backend \<Rightarrow> stateObject \<Rightarrow> bool" where
  "code_cached be obj \<longleftrightarrow> so_code obj \<noteq> [] \<or> ac_CodeHash (so_data obj) = EmptyCodeHash be"

definition code_loaded :: "backend \<Rightarrow> address \<Rightarrow> StateDB \<Rightarrow> bool" where
  "code_loaded be a s = (case peek be s a of None \<Rightarrow> True | Some obj \<Rightarrow> code_cached be obj)"

text \<open>
  The calls that can be undone: an account is created only where there is none, code is replaced
  only once it is loaded, and only snapshots from \<open>lim\<close> on are reverted to.
\<close>

definition call_ok :: "backend \<Rightarrow> nat \<Rightarrow> db_call \<Rightarrow> StateDB \<Rightarrow> bool" where
  "call_ok be lim c s =
     (case c of
        Call_CreateAccount a \<Rightarrow> peek be s a = None
      | Call_SetCode a code \<Rightarrow> code_loaded be a s
      | Call_RevertToSnapshot revid \<Rightarrow> lim \<le> revid
      | _ \<Rightarrow> True)"

fun calls_ok :: "backend \<Rightarrow> nat \<Rightarrow> db_call list \<Rightarrow> StateDB \<Rightarrow> bool" where
  "calls_ok be lim [] s = True"
| "calls_ok be lim (c # cs) s =
     (call_ok be lim c s \<and> (case db_exec be c s of None \<Rightarrow> True | Some s \<Rightarrow> calls_ok be lim cs s))"

definition revs_ok :: "StateDB \<Rightarrow> bool" where
  "revs_ok s =
     (let (es, revs, n) = stack s
      in sorted_wrt (\<lambda>p q. fst p < fst q \<and> snd p \<le> snd q) revs \<and>
         (\<forall>p \<in> set revs. fst p < n \<and> snd p \<le> length es))"

text \<open>What the getters of two states return.\<close>

definition same_reads :: "backend \<Rightarrow> StateDB \<Rightarrow> StateDB \<Rightarrow> bool" where
  "same_reads be s t \<longleftrightarrow>
     (\<forall>a. fst (db_Exist be a s) = fst (db_Exist be a t) \<and>
          fst (db_Empty be a s) = fst (db_Empty be a t) \<and>
          fst (db_GetBalance be a s) = fst (db_GetBalance be a t) \<and>
          fst (db_GetNonce be a s) = fst (db_GetNonce be a t) \<and>
          fst (db_GetCodeHash be a s) = fst (db_GetCodeHash be a t) \<and>
          fst (db_GetCode be a s) = fst (db_GetCode be a t) \<and>
          fst (db_HasSelfDestructed be a s) = fst (db_HasSelfDestructed be a t) \<and>
          fst (db_IsNewContract be a s) = fst (db_IsNewContract be a t) \<and>
          (\<forall>key. fst (db_GetState be a key s) = fst (db_GetState be a key t) \<and>
             fst (db_GetCommittedState be a key s) = fst (db_GetCommittedState be a key t))) \<and>
     db_refund s = db_refund t \<and> db_logs s = db_logs t \<and> db_logSize s = db_logSize t \<and>
     db_accessList s = db_accessList t \<and> db_transient s = db_transient t"

text \<open>The same for one account and what \<open>Finalise\<close> would write of it.\<close>

definition same_account :: "backend \<Rightarrow> address \<Rightarrow> StateDB \<Rightarrow> StateDB \<Rightarrow> bool" where
  "same_account be a s t \<longleftrightarrow>
     fst (db_Exist be a s) = fst (db_Exist be a t) \<and>
     fst (db_GetBalance be a s) = fst (db_GetBalance be a t) \<and>
     fst (db_GetNonce be a s) = fst (db_GetNonce be a t) \<and>
     fst (db_GetCodeHash be a s) = fst (db_GetCodeHash be a t) \<and>
     fst (db_GetCode be a s) = fst (db_GetCode be a t) \<and>
     fst (db_HasSelfDestructed be a s) = fst (db_HasSelfDestructed be a t) \<and>
     (\<forall>key. fst (db_GetState be a key s) = fst (db_GetState be a key t))"

definition shown :: "backend \<Rightarrow> StateDB \<Rightarrow> address \<Rightarrow> stateObject option" where
  "shown be s a = map_option (\<lambda>obj. obj\<lparr>so_newContract := False\<rparr>) (objv be s a)"

text \<open>The reader returns the code of the hash it is asked for, or none.\<close>

definition code_addressed :: "backend \<Rightarrow> bool" where
  "code_addressed be \<longleftrightarrow> (\<forall>a h. be_Code be a h = [] \<or> be_keccak be (be_Code be a h) = h)"

text \<open>
  A state reached from \<open>s0\<close>, whose journal had \<open>es0\<close> and \<open>revs0\<close>: the entries made since then
  can be undone to any point, at each of them the state is well formed, and undoing all gives \<open>s0\<close>.
\<close>

definition undoable :: "backend \<Rightarrow> StateDB \<Rightarrow> StateDB \<Rightarrow> journalEntry list \<Rightarrow> bool" where
  "undoable be s0 s es \<longleftrightarrow>
     (\<forall>k \<le> length es. \<exists>t. revert_entries be (rev (drop k es)) s = Some t \<and> db_ok be t \<and>
        (k = 0 \<longrightarrow> sim be t s0))"

definition reached :: "backend \<Rightarrow> StateDB \<Rightarrow> nat \<Rightarrow> StateDB \<Rightarrow> bool" where
  "reached be s0 lim s \<longleftrightarrow>
     revs_ok s \<and>
     (\<exists>es revs.
        fst (stack s) = fst (stack s0) @ es \<and> fst (snd (stack s)) = fst (snd (stack s0)) @ revs \<and>
        (\<forall>p \<in> set (fst (snd (stack s0))). fst p < lim) \<and>
        (\<forall>p \<in> set revs. length (fst (stack s0)) \<le> snd p) \<and> undoable be s0 s es \<and>
        (\<forall>a. jr_dirties (db_journal s0) a + count_marks a es \<le> jr_dirties (db_journal s) a))"

text \<open>A reader with one account, for examples.\<close>

definition sample_reader :: backend where
  "sample_reader =
     \<lparr>be_keccak = (\<lambda>bs. if bs = [] then 1 else 2),
      be_Account = [5 \<mapsto> \<lparr>ac_Nonce = 1, ac_Balance = 100, ac_Root = 4, ac_CodeHash = 2\<rparr>],
      be_Storage = (\<lambda>a key. if a = 5 \<and> key = 1 then 9 else 0),
      be_Code = (\<lambda>a h. if h = 2 then [7] else [])\<rparr>"

section \<open>The relation\<close>

lemma sim_refl [simp]: "sim be s s"
  by (simp add: sim_def)

lemma sim_sym: "sim be s t \<Longrightarrow> sim be t s"
  by (simp add: sim_def)

lemma sim_trans: "sim be s t \<Longrightarrow> sim be t u \<Longrightarrow> sim be s u"
  by (simp add: sim_def)

lemma rest_sel:
  assumes "rest s = rest t"
  shows "db_destruct s = db_destruct t" "db_mutations s = db_mutations t" "db_refund s = db_refund t"
    "db_thash s = db_thash t" "db_txIndex s = db_txIndex t" "db_logs s = db_logs t"
    "db_logSize s = db_logSize t" "db_accessList s = db_accessList t" "db_transient s = db_transient t"
  using assms unfolding rest_def by (cases s, cases t, simp)+

lemma db_ok_sim: "sim be s t \<Longrightarrow> db_ok be s \<longleftrightarrow> db_ok be t"
  unfolding sim_def db_ok_def destructed_def using rest_sel [of s t] by simp

lemma steps_trans: "steps be t u \<Longrightarrow> steps be s t \<Longrightarrow> steps be s u"
  by (induction rule: steps.induct) (auto intro: steps.intros)

lemma steps_one:
  "silent be s t \<Longrightarrow> steps be s t"
  "logged be e s t \<Longrightarrow> db_ok be t \<Longrightarrow> steps be s t"
  by (auto intro: steps.intros)

lemma steps_ok: "steps be s t \<Longrightarrow> db_ok be s \<Longrightarrow> db_ok be t"
  by (induction rule: steps.induct) (auto simp: silent_def db_ok_sim)

lemma silent_trans: "silent be s t \<Longrightarrow> silent be t u \<Longrightarrow> silent be s u"
  by (auto simp: silent_def intro: sim_trans)

lemma silent_refl [simp]: "silent be s s"
  by (simp add: silent_def)


section \<open>Looking up, storing and recording\<close>

named_theorems track_simps "what the parts of an operation show and put on the stack"

lemma stack_simps [track_simps]:
  "stack (recordRead a s) = stack s"
  "stack (recordWrite a s) = stack s"
  "stack (recordStorageRead a key v s) = stack s"
  "stack (recordStorageWrite a key v s) = stack s"
  "stack (setStateObject a obj s) = stack s"
  "stack (ResetAccessSummary s) = stack s"
  "stack (j_append e s) = (let (es, revs, n) = stack s in (es @ [e], revs, n))"
  by (simp_all add: stack_def recordRead_def recordWrite_def recordStorageRead_def
      recordStorageWrite_def setStateObject_def ResetAccessSummary_def j_append_def Let_def)

lemma rest_simps [track_simps]:
  "rest (recordRead a s) = rest s"
  "rest (recordWrite a s) = rest s"
  "rest (recordStorageRead a key v s) = rest s"
  "rest (recordStorageWrite a key v s) = rest s"
  "rest (setStateObject a obj s) = rest s"
  "rest (ResetAccessSummary s) = rest s"
  "rest (j_append e s) = rest s"
  "rest (s\<lparr>db_journal := j\<rparr>) = rest s"
  "rest (s\<lparr>db_objects := os\<rparr>) = rest s"
  by (simp_all add: rest_def recordRead_def recordWrite_def recordStorageRead_def
      recordStorageWrite_def setStateObject_def ResetAccessSummary_def j_append_def Let_def)

lemma dirties_simps [track_simps]:
  "jr_dirties (db_journal (recordRead a s)) = jr_dirties (db_journal s)"
  "jr_dirties (db_journal (recordWrite a s)) = jr_dirties (db_journal s)"
  "jr_dirties (db_journal (recordStorageRead a key v s)) = jr_dirties (db_journal s)"
  "jr_dirties (db_journal (recordStorageWrite a key v s)) = jr_dirties (db_journal s)"
  "jr_dirties (db_journal (setStateObject a obj s)) = jr_dirties (db_journal s)"
  "jr_dirties (db_journal (ResetAccessSummary s)) = jr_dirties (db_journal s)"
  "jr_dirties (db_journal (j_append e s)) = count_dirty 1 e (jr_dirties (db_journal s))"
  by (simp_all add: recordRead_def recordWrite_def recordStorageRead_def
      recordStorageWrite_def setStateObject_def ResetAccessSummary_def j_append_def Let_def)

lemma objects_simps [track_simps]:
  "db_objects (recordRead a s) = db_objects s"
  "db_objects (recordWrite a s) = db_objects s"
  "db_objects (recordStorageRead a key v s) = db_objects s"
  "db_objects (recordStorageWrite a key v s) = db_objects s"
  "db_objects (ResetAccessSummary s) = db_objects s"
  "db_objects (j_append e s) = db_objects s"
  "db_objects (setStateObject a obj s) = (db_objects s)(a \<mapsto> obj)"
  by (simp_all add: recordRead_def recordWrite_def recordStorageRead_def
      recordStorageWrite_def setStateObject_def ResetAccessSummary_def j_append_def Let_def)

lemma objv_cong: "db_objects s = db_objects t \<Longrightarrow> db_destruct s = db_destruct t \<Longrightarrow> objv be s = objv be t"
  using arg_cong [of "db_destruct s" "db_destruct t" "\<lambda>d a. d a \<noteq> None"]
  by (intro ext) (simp only: objv_def peek_def destructed_def)

lemma destructed_rest: "rest s = rest t \<Longrightarrow> destructed s = destructed t"
  using rest_sel(1) [of s t] by (simp add: destructed_def fun_eq_iff)

lemma objv_simps [track_simps]:
  "objv be (recordRead a s) = objv be s"
  "objv be (recordWrite a s) = objv be s"
  "objv be (recordStorageRead a key v s) = objv be s"
  "objv be (recordStorageWrite a key v s) = objv be s"
  "objv be (ResetAccessSummary s) = objv be s"
  "objv be (j_append e s) = objv be s"
  by (rule objv_cong; simp add: track_simps rest_sel(1) [OF rest_simps(1)] rest_sel(1) [OF rest_simps(2)]
      rest_sel(1) [OF rest_simps(3)] rest_sel(1) [OF rest_simps(4)] rest_sel(1) [OF rest_simps(6)]
      rest_sel(1) [OF rest_simps(7)])+

lemma destructed_simps [track_simps]:
  "destructed (recordRead a s) = destructed s"
  "destructed (recordWrite a s) = destructed s"
  "destructed (recordStorageRead a key v s) = destructed s"
  "destructed (recordStorageWrite a key v s) = destructed s"
  "destructed (setStateObject a obj s) = destructed s"
  "destructed (j_append e s) = destructed s"
  by (rule destructed_rest; simp add: track_simps)+

lemma objv_setStateObject [track_simps]:
  "objv be (setStateObject a obj s) = (objv be s)(a \<mapsto> obj_canon be (destructed s a) a obj)"
  by (rule ext) (simp add: objv_def peek_def track_simps)

lemma rest_j_append_upd [track_simps]:
  "db_destruct (setStateObject a obj s) = db_destruct s"
  by (simp add: setStateObject_def)

lemma count_dirty_marks [simp]: "count_dirty 1 e d a = d a + count_marks a [e]"
  by (auto simp: count_dirty_def count_marks_def split: option.splits)

lemma count_marks_append [simp]: "count_marks a (es @ es') = count_marks a es + count_marks a es'"
  by (simp add: count_marks_def)

lemma count_dirty_inverse [simp]: "count_dirty (- 1) e (count_dirty 1 e d) = d"
  by (simp add: count_dirty_def split: option.splits)

lemma getStateObject_peek: "getStateObject be a s = (peek be s a, loaded be a s)"
  by (simp add: loaded_def getStateObject_def peek_def destructed_def recordRead_def
      Let_def split: option.splits)

lemma loaded_cases:
  "loaded be a s = recordRead a s \<or>
   (\<exists>obj. db_objects s a = None \<and> peek be s a = Some obj \<and>
      loaded be a s = setStateObject a obj (recordRead a s))"
  by (auto simp: loaded_def getStateObject_def peek_def destructed_def recordRead_def Let_def
      split: option.splits)

lemma objects_loaded: "db_objects (loaded be a s) a = peek be s a"
  by (auto simp: loaded_def getStateObject_def peek_def destructed_def recordRead_def
      setStateObject_def Let_def split: option.splits)

lemma objv_peek: "peek be s a = Some obj \<Longrightarrow> objv be s a = Some (obj_canon be (destructed s a) a obj)"
  by (simp add: objv_def)

lemma loaded_simps [track_simps]:
  "stack (loaded be a s) = stack s"
  "rest (loaded be a s) = rest s"
  "jr_dirties (db_journal (loaded be a s)) = jr_dirties (db_journal s)"
  "objv be (loaded be a s) = objv be s"
  "destructed (loaded be a s) = destructed s"
  using loaded_cases [of be a s] by (auto simp: track_simps objv_peek fun_eq_iff)

lemma silent_loaded: "silent be s (loaded be a s)"
  by (simp add: silent_def sim_def track_simps)

lemma peek_None: "peek be s a = None \<longleftrightarrow> objv be s a = None"
  by (simp add: objv_def)

lemma on_object_eq:
  "on_object be a f s =
     map_option (\<lambda>obj. setStateObject a (f obj) (loaded be a s)) (peek be s a)"
  by (simp add: on_object_def getStateObject_peek split: option.split)


section \<open>Undoing respects the relation\<close>

lemma obj_canon_eq:
  "obj_canon be d a obj = obj_canon be d a obj' \<longleftrightarrow>
     so_origin obj = so_origin obj' \<and> so_data obj = so_data obj' \<and>
     fst (obj_Code be a obj) = fst (obj_Code be a obj') \<and>
     (\<forall>key. origin_value be d a obj key = origin_value be d a obj' key) \<and>
     so_dirtyStorage obj = so_dirtyStorage obj' \<and> so_pendingStorage obj = so_pendingStorage obj' \<and>
     so_uncommittedStorage obj = so_uncommittedStorage obj' \<and>
     so_selfDestructed obj = so_selfDestructed obj' \<and> so_newContract obj = so_newContract obj'"
  unfolding obj_canon_def by (cases obj, cases obj') (auto simp: fun_eq_iff)

lemma obj_method_simps:
  "fst (obj_Code be a (obj_setBalance v obj)) = fst (obj_Code be a obj)"
  "fst (obj_Code be a (obj_setNonce n obj)) = fst (obj_Code be a obj)"
  "fst (obj_Code be a (obj_setState key val orig obj)) = fst (obj_Code be a obj)"
  "fst (obj_Code be a (obj\<lparr>so_newContract := b\<rparr>)) = fst (obj_Code be a obj)"
  "fst (obj_Code be a (obj\<lparr>so_selfDestructed := b\<rparr>)) = fst (obj_Code be a obj)"
  "fst (obj_Code be a (obj_setCode h code obj)) =
     (if code \<noteq> [] then code else if h = EmptyCodeHash be then [] else be_Code be a h)"
  "origin_value be d a (obj_setBalance v obj) = origin_value be d a obj"
  "origin_value be d a (obj_setNonce n obj) = origin_value be d a obj"
  "origin_value be d a (obj_setState key val orig obj) = origin_value be d a obj"
  "origin_value be d a (obj\<lparr>so_newContract := b\<rparr>) = origin_value be d a obj"
  "origin_value be d a (obj\<lparr>so_selfDestructed := b\<rparr>) = origin_value be d a obj"
  "origin_value be d a (obj_setCode h code obj) = origin_value be d a obj"
  by (simp_all add: obj_setBalance_def obj_setNonce_def obj_setCode_def obj_setState_def
      obj_Code_def origin_value_def Let_def fun_eq_iff)

lemma setter_sels:
  "so_origin (obj_setBalance v obj) = so_origin obj"
  "so_data (obj_setBalance v obj) = (so_data obj)\<lparr>ac_Balance := v\<rparr>"
  "so_dirtyStorage (obj_setBalance v obj) = so_dirtyStorage obj"
  "so_pendingStorage (obj_setBalance v obj) = so_pendingStorage obj"
  "so_uncommittedStorage (obj_setBalance v obj) = so_uncommittedStorage obj"
  "so_selfDestructed (obj_setBalance v obj) = so_selfDestructed obj"
  "so_newContract (obj_setBalance v obj) = so_newContract obj"
  "so_origin (obj_setNonce n obj) = so_origin obj"
  "so_data (obj_setNonce n obj) = (so_data obj)\<lparr>ac_Nonce := n\<rparr>"
  "so_dirtyStorage (obj_setNonce n obj) = so_dirtyStorage obj"
  "so_pendingStorage (obj_setNonce n obj) = so_pendingStorage obj"
  "so_uncommittedStorage (obj_setNonce n obj) = so_uncommittedStorage obj"
  "so_selfDestructed (obj_setNonce n obj) = so_selfDestructed obj"
  "so_newContract (obj_setNonce n obj) = so_newContract obj"
  "so_origin (obj_setCode h code obj) = so_origin obj"
  "so_data (obj_setCode h code obj) = (so_data obj)\<lparr>ac_CodeHash := h\<rparr>"
  "so_code (obj_setCode h code obj) = code"
  "so_dirtyStorage (obj_setCode h code obj) = so_dirtyStorage obj"
  "so_pendingStorage (obj_setCode h code obj) = so_pendingStorage obj"
  "so_uncommittedStorage (obj_setCode h code obj) = so_uncommittedStorage obj"
  "so_dirtyCode (obj_setCode h code obj) = True"
  "so_selfDestructed (obj_setCode h code obj) = so_selfDestructed obj"
  "so_newContract (obj_setCode h code obj) = so_newContract obj"
  "so_origin (obj_setState key val orig obj) = so_origin obj"
  "so_data (obj_setState key val orig obj) = so_data obj"
  "so_dirtyStorage (obj_setState key val orig obj) = (so_dirtyStorage obj)(key := if val = orig then None else Some val)"
  "so_pendingStorage (obj_setState key val orig obj) = so_pendingStorage obj"
  "so_uncommittedStorage (obj_setState key val orig obj) = so_uncommittedStorage obj"
  "so_selfDestructed (obj_setState key val orig obj) = so_selfDestructed obj"
  "so_newContract (obj_setState key val orig obj) = so_newContract obj"
  by (simp_all add: obj_setBalance_def obj_setNonce_def obj_setCode_def obj_setState_def)

lemmas obj_setters = setter_sels obj_method_simps

lemma compat_methods:
  "compat be (obj_setBalance v)"
  "compat be (obj_setNonce n)"
  "compat be (obj_setCode h code)"
  "compat be (obj_setState key val orig)"
  "compat be (\<lambda>obj. obj\<lparr>so_newContract := b\<rparr>)"
  "compat be (\<lambda>obj. obj\<lparr>so_selfDestructed := b\<rparr>)"
  by (simp_all add: compat_def obj_canon_eq obj_setters)

lemma sim_setStateObject:
  assumes "sim be s t" "obj_canon be (destructed s a) a obj = obj_canon be (destructed s a) a obj'"
  shows "sim be (setStateObject a obj s) (setStateObject a obj' t)"
  using assms destructed_rest [of s t] by (simp add: sim_def track_simps)

lemma sim_loaded: "sim be s t \<Longrightarrow> sim be (loaded be a s) (loaded be a t)"
  by (simp add: sim_def track_simps)

lemma sim_peek:
  assumes "sim be s t"
  shows "rel_option (\<lambda>obj obj'. obj_canon be (destructed s a) a obj = obj_canon be (destructed s a) a obj')
    (peek be s a) (peek be t a)"
proof -
  have "objv be s a = objv be t a" "destructed t = destructed s"
    using assms destructed_rest [of s t] by (simp_all add: sim_def)
  then show ?thesis by (auto simp: objv_def rel_option_iff split: option.splits)
qed

lemma sim_update:
  assumes "sim be s t" "compat be f"
    "obj_canon be (destructed s a) a obj = obj_canon be (destructed s a) a obj'"
  shows "sim be (setStateObject a (f obj) (loaded be a s)) (setStateObject a (f obj') (loaded be a t))"
proof (rule sim_setStateObject)
  show "sim be (loaded be a s) (loaded be a t)" using assms(1) by (rule sim_loaded)
  show "obj_canon be (destructed (loaded be a s) a) a (f obj) =
      obj_canon be (destructed (loaded be a s) a) a (f obj')"
    using assms(2, 3) unfolding compat_def loaded_simps(5) by blast
qed

lemma on_object_sim:
  assumes "sim be s t" "compat be f"
  shows "rel_option (sim be) (on_object be a f s) (on_object be a f t)"
  unfolding on_object_eq option.rel_map
  using sim_peek [OF assms(1), of a] sim_update [OF assms] by (rule option.rel_mono_strong)

lemma objv_upds [track_simps]:
  "objv be (s\<lparr>db_refund := r\<rparr>) = objv be s"
  "objv be (s\<lparr>db_transient := tr\<rparr>) = objv be s"
  "objv be (s\<lparr>db_accessList := al\<rparr>) = objv be s"
  "objv be (s\<lparr>db_logs := l, db_logSize := n\<rparr>) = objv be s"
  by (rule objv_cong; simp)+

lemma sim_fields:
  assumes "sim be s t"
  shows "sim be (s\<lparr>db_refund := r\<rparr>) (t\<lparr>db_refund := r\<rparr>)"
    "sim be (s\<lparr>db_transient := tr\<rparr>) (t\<lparr>db_transient := tr\<rparr>)"
    "sim be (s\<lparr>db_accessList := al\<rparr>) (t\<lparr>db_accessList := al\<rparr>)"
    "sim be (s\<lparr>db_logs := l, db_logSize := n\<rparr>) (t\<lparr>db_logs := l, db_logSize := n\<rparr>)"
    "sim be (s\<lparr>db_objects := (db_objects s)(a := None)\<rparr>) (t\<lparr>db_objects := (db_objects t)(a := None)\<rparr>)"
proof -
  have del: "objv be (x\<lparr>db_objects := (db_objects x)(a := None)\<rparr>) =
      (objv be x)(a := if destructed x a then None
         else map_option (\<lambda>acct. obj_canon be False a (newObject be (Some acct))) (be_Account be a))" for x
  proof (rule ext)
    fix c
    have "destructed (x\<lparr>db_objects := (db_objects x)(a := None)\<rparr>) = destructed x"
      by (simp add: destructed_def fun_eq_iff)
    then show "objv be (x\<lparr>db_objects := (db_objects x)(a := None)\<rparr>) c =
        ((objv be x)(a := if destructed x a then None
         else map_option (\<lambda>acct. obj_canon be False a (newObject be (Some acct))) (be_Account be a))) c"
      by (simp add: objv_def peek_def option.map_comp comp_def)
  qed
  note s = assms [unfolded sim_def]
  show "sim be (s\<lparr>db_refund := r\<rparr>) (t\<lparr>db_refund := r\<rparr>)"
    "sim be (s\<lparr>db_transient := tr\<rparr>) (t\<lparr>db_transient := tr\<rparr>)"
    "sim be (s\<lparr>db_accessList := al\<rparr>) (t\<lparr>db_accessList := al\<rparr>)"
    "sim be (s\<lparr>db_logs := l, db_logSize := n\<rparr>) (t\<lparr>db_logs := l, db_logSize := n\<rparr>)"
    using s unfolding sim_def objv_upds rest_def by (cases s, cases t, simp)+
  show "sim be (s\<lparr>db_objects := (db_objects s)(a := None)\<rparr>) (t\<lparr>db_objects := (db_objects t)(a := None)\<rparr>)"
    using s destructed_rest [of s t] unfolding sim_def del by (simp add: track_simps)
qed

lemma entry_revert_sim:
  assumes "sim be s t"
  shows "rel_option (sim be) (entry_revert be e s) (entry_revert be e t)"
proof (cases e)
  case (selfDestructChange a)
  show ?thesis
    using sim_peek [OF assms, of a] sim_loaded [OF assms, of a]
      sim_update [OF assms compat_methods(6) [of be False]]
    by (auto simp: selfDestructChange getStateObject_peek rel_option_iff split: option.splits)
next
  case (addLogChange h)
  show ?thesis
    using assms rest_sel [of s t] unfolding addLogChange
    by (auto simp: sim_fields(4) sim_def [of be s t])
next
  case (accessListAddSlotChange a slot)
  show ?thesis
    using assms rest_sel [of s t] unfolding accessListAddSlotChange
    by (auto simp: sim_fields(3) sim_def [of be s t] option.rel_map intro!: option.rel_refl_strong)
next
  case (accessListAddAccountChange a)
  show ?thesis
    using assms rest_sel [of s t] unfolding accessListAddAccountChange
    by (auto simp: sim_fields(3) sim_def [of be s t])
next
  case (transientStorageChange a key prev)
  show ?thesis
    using assms rest_sel [of s t] unfolding transientStorageChange
    by (auto simp: sim_fields(2) sim_def [of be s t])
qed (use assms in \<open>simp_all add: on_object_sim compat_methods sim_fields\<close>)

lemma pop_sim:
  assumes "sim be s t" "pop be e s = Some s'"
  shows "\<exists>t'. pop be e t = Some t' \<and> sim be s' t'"
proof -
  obtain x where x: "entry_revert be e s = Some x"
    "s' = x\<lparr>db_journal := (db_journal x)\<lparr>jr_dirties := count_dirty (- 1) e (jr_dirties (db_journal x))\<rparr>\<rparr>"
    using assms(2) unfolding pop_def by auto
  obtain y where y: "entry_revert be e t = Some y" "sim be x y"
    using entry_revert_sim [OF assms(1), of e] x(1) by (auto simp: rel_option_iff split: option.splits)
  have obj: "objv be (z\<lparr>db_journal := j\<rparr>) = objv be z" for z j
    by (rule objv_cong; simp)
  have "sim be s' (y\<lparr>db_journal := (db_journal y)\<lparr>jr_dirties := count_dirty (- 1) e (jr_dirties (db_journal y))\<rparr>\<rparr>)"
    using y(2) unfolding x(2) sim_def obj
    by (simp add: track_simps count_dirty_def split: option.split)
  then show ?thesis using y(1) by (simp add: pop_def)
qed

lemma revert_entries_pop:
  "revert_entries be (e # es) s = Option.bind (pop be e s) (revert_entries be es)"
  by (simp add: pop_def Let_def split: option.split)

lemma revert_entries_sim:
  assumes "sim be s t" "revert_entries be es s = Some s'"
  shows "\<exists>t'. revert_entries be es t = Some t' \<and> sim be s' t'"
  using assms
proof (induction es arbitrary: s t)
  case (Cons e es)
  from Cons.prems obtain x where x: "pop be e s = Some x" "revert_entries be es x = Some s'"
    by (auto simp: revert_entries_pop bind_eq_Some_conv simp del: revert_entries.simps)
  from pop_sim [OF Cons.prems(1) x(1)] obtain y where "pop be e t = Some y" "sim be x y" by blast
  then show ?case
    using Cons.IH [OF _ x(2)] by (auto simp: revert_entries_pop simp del: revert_entries.simps)
qed simp

lemma revert_entries_append:
  "revert_entries be (es @ es') s = Option.bind (revert_entries be es s) (revert_entries be es')"
proof (induction es arbitrary: s)
  case (Cons e es)
  then show ?case
    by (cases "pop be e s") (simp_all add: revert_entries_pop del: revert_entries.simps)
qed simp


section \<open>One change\<close>

lemma objv_objects: "db_objects s a = Some obj \<Longrightarrow> objv be s a = Some (obj_canon be (destructed s a) a obj)"
  by (simp add: objv_def peek_def)

lemma loaded_present: "db_objects s a = Some obj \<Longrightarrow> loaded be a s = recordRead a s"
  by (simp add: loaded_def getStateObject_def recordRead_def)

lemma objv_journal [track_simps]: "objv be (s\<lparr>db_journal := j\<rparr>) = objv be s"
  by (rule objv_cong) simp_all

lemma logged_object:
  assumes "objv be s a = Some (obj_canon be (destructed s a) a (g obj))"
    and "\<And>u. db_objects u a = Some obj \<Longrightarrow> entry_revert be e u = on_object be a g u"
  shows "logged be e s (setStateObject a obj (j_append e s))" (is "logged be e s ?t")
proof -
  have obj: "db_objects ?t a = Some obj" by (simp add: track_simps)
  then have "peek be ?t a = Some obj" by (simp add: peek_def)
  then have "entry_revert be e ?t = Some (setStateObject a (g obj) (recordRead a ?t))"
    by (simp add: assms(2) [OF obj] on_object_eq loaded_present [OF obj])
  then show ?thesis
    using assms(1) by (simp add: logged_def pop_def sim_def track_simps fun_upd_idem)
qed

lemma db_ok_object:
  assumes "db_ok be s" "obj_ok be (obj_canon be (destructed s a) a obj)"
    "origin_value be (destructed s a) a obj = base_value be (destructed s a) a"
    "so_origin obj = base_account be (destructed s a) a"
  shows "db_ok be (setStateObject a obj (j_append e s))"
  using assms rest_sel [of "setStateObject a obj (j_append e s)" s]
  by (simp add: db_ok_def track_simps obj_canon_def)

lemma db_ok_base:
  "db_ok be s \<Longrightarrow> objv be s a = Some obj \<Longrightarrow> so_originStorage obj = (\<lambda>key. Some (base_value be (destructed s a) a key))"
  "db_ok be s \<Longrightarrow> objv be s a = Some obj \<Longrightarrow> so_origin obj = base_account be (destructed s a) a"
  by (simp_all add: db_ok_def)

lemma steps_object:
  assumes "db_ok be s" "objv be s a = Some (obj_canon be (destructed s a) a (g obj))"
    and "\<And>u. db_objects u a = Some obj \<Longrightarrow> entry_revert be e u = on_object be a g u"
    and "obj_ok be (obj_canon be (destructed s a) a obj)"
    and "origin_value be (destructed s a) a obj = origin_value be (destructed s a) a (g obj)"
    and "so_origin obj = so_origin (g obj)"
  shows "steps be s (setStateObject a obj (j_append e s))"
proof -
  have "origin_value be (destructed s a) a obj = base_value be (destructed s a) a"
    "so_origin obj = base_account be (destructed s a) a"
    using db_ok_base [OF assms(1, 2)] assms(5, 6) by (simp_all add: obj_canon_def fun_eq_iff)
  then show ?thesis
    using logged_object [OF assms(2, 3)] db_ok_object [OF assms(1, 4)] by (intro steps_one(2)) auto
qed

lemma obj_ok_new [simp]: "obj_ok be (obj_canon be d a (newObject be None))"
  by (simp add: obj_ok_def obj_canon_def newObject_def NewEmptyStateAccount_def obj_Code_def
      tracked_slot_def)

lemma steps_create:
  assumes "db_ok be s" "objv be s a = None"
  shows "steps be s (setStateObject a (newObject be None) (j_append (createObjectChange a) s))"
    (is "steps be s ?t")
proof (rule steps_one(2))
  have none: "db_objects s a = None" using assms(2) by (simp add: objv_def peek_def split: option.splits)
  let ?u = "?t\<lparr>db_objects := (db_objects ?t)(a := None)\<rparr>"
  have "db_objects ?u = db_objects s" "db_destruct ?u = db_destruct s"
    using none rest_sel(1) [OF rest_simps(7)] by (simp_all add: track_simps fun_upd_idem)
  then have "objv be ?u = objv be s" by (rule objv_cong)
  then show "logged be (createObjectChange a) s ?t"
    by (simp add: logged_def pop_def sim_def track_simps)
  have "origin_value be (destructed s a) a (newObject be None) = base_value be (destructed s a) a"
    by (simp add: origin_value_def base_value_def newObject_def fun_eq_iff)
  moreover have "so_origin (newObject be None) = base_account be (destructed s a) a"
    using assms(2) none by (auto simp: newObject_def base_account_def objv_def peek_def split: if_splits)
  ultimately show "db_ok be ?t" using assms(1) by (intro db_ok_object) simp_all
qed

lemma silent_ok: "silent be s t \<Longrightarrow> db_ok be s \<Longrightarrow> db_ok be t"
  unfolding silent_def using db_ok_sim by blast

lemma silent_records:
  "silent be s (recordRead a s)"
  "silent be s (recordWrite a s)"
  "silent be s (recordStorageRead a key v s)"
  "silent be s (recordStorageWrite a key v s)"
  "silent be s (ResetAccessSummary s)"
  by (simp_all add: silent_def sim_def track_simps)

lemma createObject_eq:
  "createObject be a s =
     (newObject be None,
      setStateObject a (newObject be None) (j_append (createObjectChange a) (recordWrite a s)))"
  by (simp add: createObject_def Let_def)

text \<open>The object an operation works on: the existing one, or a new one.\<close>

lemma getOrNew:
  assumes "getOrNewStateObject be a s = (obj, s')" "db_ok be s"
  shows "steps be s s'" "db_ok be s'" "db_objects s' a = Some obj" "destructed s' = destructed s"
    "peek be s a = Some obj \<or> peek be s a = None \<and> obj = newObject be None"
proof -
  have "steps be s s' \<and> db_objects s' a = Some obj \<and> destructed s' = destructed s \<and>
    (peek be s a = Some obj \<or> peek be s a = None \<and> obj = newObject be None)"
  proof (cases "peek be s a")
    case None
    let ?s = "recordWrite a (loaded be a s)"
    have "silent be s ?s" using silent_loaded silent_records(2) by (rule silent_trans)
    then have "steps be s ?s" "db_ok be ?s" using assms(2) by (auto intro: steps_one silent_ok)
    moreover have "objv be ?s a = None" using None by (simp add: track_simps peek_None)
    ultimately have "steps be s (setStateObject a (newObject be None) (j_append (createObjectChange a) ?s))"
      by (meson steps_create steps_trans)
    then show ?thesis
      using assms(1) None
      by (auto simp: getOrNewStateObject_def getStateObject_peek createObject_eq track_simps)
  next
    case (Some o')
    have "steps be s (loaded be a s)" using silent_loaded by (rule steps_one)
    then show ?thesis
      using assms(1) Some objects_loaded [of be a s] loaded_simps(5) [of be a s]
      by (simp add: getOrNewStateObject_def getStateObject_peek)
  qed
  then show "steps be s s'" "db_objects s' a = Some obj" "destructed s' = destructed s"
    "peek be s a = Some obj \<or> peek be s a = None \<and> obj = newObject be None"
    by blast+
  then show "db_ok be s'" using assms(2) by (blast intro: steps_ok)
qed

lemma getOrNew_write:
  assumes "getOrNewStateObject be a (recordWrite a s) = (obj, s')" "db_ok be s"
  shows "steps be s s'" "db_ok be s'" "db_objects s' a = Some obj" "destructed s' = destructed s"
    "peek be s a = Some obj \<or> peek be s a = None \<and> obj = newObject be None"
proof -
  have "silent be s (recordWrite a s)" by (rule silent_records)
  then have "steps be s (recordWrite a s)" "db_ok be (recordWrite a s)"
    using assms(2) by (auto intro: steps_one silent_ok)
  with getOrNew [OF assms(1)] show "steps be s s'" "db_ok be s'" "db_objects s' a = Some obj"
    by (auto intro: steps_trans)
  show "destructed s' = destructed s"
    using getOrNew(4) [OF assms(1) \<open>db_ok be (recordWrite a s)\<close>] by (simp add: track_simps)
  have "peek be (recordWrite a s) a = peek be s a" by (simp add: peek_def track_simps)
  then show "peek be s a = Some obj \<or> peek be s a = None \<and> obj = newObject be None"
    using getOrNew(5) [OF assms(1) \<open>db_ok be (recordWrite a s)\<close>] by simp
qed

lemma db_ok_objv: "db_ok be s \<Longrightarrow> objv be s a = Some obj \<Longrightarrow> obj_ok be obj"
  by (simp add: db_ok_def)

lemma db_ok_objects:
  "db_ok be s \<Longrightarrow> db_objects s a = Some obj \<Longrightarrow> obj_ok be (obj_canon be (destructed s a) a obj)"
  using db_ok_objv objv_objects by blast


section \<open>Operations that write\<close>

lemma canon_simps:
  "so_data (obj_canon be d a obj) = so_data obj"
  "so_code (obj_canon be d a obj) = fst (obj_Code be a obj)"
  "so_dirtyStorage (obj_canon be d a obj) = so_dirtyStorage obj"
  "so_pendingStorage (obj_canon be d a obj) = so_pendingStorage obj"
  "so_uncommittedStorage (obj_canon be d a obj) = so_uncommittedStorage obj"
  "so_originStorage (obj_canon be d a obj) = (\<lambda>key. Some (origin_value be d a obj key))"
  "so_selfDestructed (obj_canon be d a obj) = so_selfDestructed obj"
  "so_newContract (obj_canon be d a obj) = so_newContract obj"
  by (simp_all add: obj_canon_def)

lemma steps_SetBalance:
  assumes "obj_SetBalance a amount (obj, s) = (prev, obj', s')" "db_ok be s" "db_objects s a = Some obj"
  shows "steps be s (setStateObject a obj' s')"
proof -
  have "steps be s (setStateObject a (obj_setBalance amount obj)
      (j_append (balanceChange a (ac_Balance (so_data obj))) s))"
    using assms db_ok_objects [OF assms(2, 3)]
    by (intro steps_object [where g = "obj_setBalance (ac_Balance (so_data obj))"])
      (simp_all add: objv_objects obj_canon_eq obj_ok_def canon_simps obj_setters)
  then show ?thesis using assms(1) by (auto simp: obj_SetBalance_def Let_def)
qed

lemma steps_SetNonce:
  assumes "obj_SetNonce a nonce (obj, s) = (obj', s')" "db_ok be s" "db_objects s a = Some obj"
  shows "steps be s (setStateObject a obj' s')"
proof -
  have "steps be s (setStateObject a (obj_setNonce nonce obj)
      (j_append (nonceChange a (ac_Nonce (so_data obj))) s))"
    using assms db_ok_objects [OF assms(2, 3)]
    by (intro steps_object [where g = "obj_setNonce (ac_Nonce (so_data obj))"])
      (simp_all add: objv_objects obj_canon_eq obj_ok_def canon_simps obj_setters)
  then show ?thesis using assms(1) by (simp add: obj_SetNonce_def)
qed

lemma steps_SetCode:
  assumes "obj_SetCode a (be_keccak be code) code (obj, s) = (prev, obj', s')"
    and "db_ok be s" "db_objects s a = Some obj" "code_cached be obj"
  shows "steps be s (setStateObject a obj' s')"
proof -
  have "be_keccak be (so_code obj) = ac_CodeHash (so_data obj)"
    using db_ok_objects [OF assms(2, 3)] assms(4)
    by (auto simp: code_cached_def obj_ok_def canon_simps obj_Code_def EmptyCodeHash_def split: if_splits)
  then have "steps be s (setStateObject a (obj_setCode (be_keccak be code) code obj)
      (j_append (codeChange a (so_code obj)) s))"
    using assms db_ok_objects [OF assms(2, 3)]
    by (intro steps_object [where g = "obj_setCode (be_keccak be (so_code obj)) (so_code obj)"])
      (auto simp: objv_objects obj_canon_eq obj_ok_def canon_simps obj_setters
        obj_Code_def code_cached_def EmptyCodeHash_def)
  then show ?thesis using assms(1) by (auto simp: obj_SetCode_def Let_def)
qed


lemma committed_value_canon:
  "committed_value be s a obj key =
     (case so_pendingStorage obj key of Some v \<Rightarrow> v | None \<Rightarrow> origin_value be (destructed s a) a obj key)"
  unfolding committed_value_def origin_value_def destructed_def by (rule refl)

lemma obj_ok_canon:
  "obj_ok be (obj_canon be (destructed s a) a obj) \<longleftrightarrow>
     (fst (obj_Code be a obj) \<noteq> [] \<longrightarrow> be_keccak be (fst (obj_Code be a obj)) = ac_CodeHash (so_data obj)) \<and>
     (\<forall>key. so_dirtyStorage obj key \<noteq> Some (committed_value be s a obj key)) \<and>
     (\<forall>key. tracked_slot (so_uncommittedStorage obj key) (so_pendingStorage obj key)
        (Some (origin_value be (destructed s a) a obj key)))"
proof -
  have "((\<lambda>key. Some (origin_value be (destructed s a) a obj key)) ++ so_pendingStorage obj) key =
      Some (committed_value be s a obj key)" for key
    by (simp add: map_add_def committed_value_canon split: option.split)
  then show ?thesis by (auto simp: obj_ok_def canon_simps)
qed

lemma committed_value_setState [simp]:
  "committed_value be s a (obj_setState key val orig obj) = committed_value be s a obj"
  by (simp add: fun_eq_iff committed_value_canon obj_setters split: option.split)

lemma GetCommittedState_loads:
  assumes "obj_GetCommittedState be a key (obj, s) = (v, obj', s')"
  shows "v = committed_value be s a obj key" "silent be s s'" "db_objects s' = db_objects s"
    "destructed s' = destructed s"
    "obj_canon be (destructed s a) a obj' = obj_canon be (destructed s a) a obj"
proof -
  define s1 where "s1 = (case so_originStorage obj key of None \<Rightarrow> s | Some v \<Rightarrow> recordStorageRead a key v s)"
  have s1: "silent be s s1" "db_objects s1 = db_objects s" "destructed s1 = destructed s"
    by (simp_all add: s1_def silent_records track_simps split: option.split)
  have d: "db_destruct s1 a \<noteq> None \<longleftrightarrow> destructed s a"
    using s1(3) by (simp add: destructed_def fun_eq_iff)
  let ?v = "committed_value be s a obj key"
  from assms have "v = ?v \<and> (s' = s1 \<and> obj' = obj \<or> s' = recordStorageRead a key v s1 \<and>
      so_originStorage obj key = None \<and> so_pendingStorage obj key = None \<and>
      obj' = obj\<lparr>so_originStorage := (so_originStorage obj)(key \<mapsto> v)\<rparr>)"
    unfolding obj_GetCommittedState_def prod.case Let_def s1_def [symmetric] committed_value_canon
      origin_value_def d
    by (auto split: option.splits)
  moreover from this have "obj_canon be (destructed s a) a obj' = obj_canon be (destructed s a) a obj"
    by (auto simp: obj_canon_eq origin_value_def obj_Code_def committed_value_canon Let_def)
  ultimately show "v = ?v" "silent be s s'" "db_objects s' = db_objects s" "destructed s' = destructed s"
    "obj_canon be (destructed s a) a obj' = obj_canon be (destructed s a) a obj"
    using s1 silent_trans [OF s1(1) silent_records(3)] by (auto simp: track_simps)
qed

lemma canon_committed:
  assumes "obj_canon be (destructed s a) a obj = obj_canon be (destructed s a) a obj'"
  shows "committed_value be s a obj key = committed_value be s a obj' key"
  using assms by (simp add: committed_value_canon obj_canon_eq split: option.split)

lemma getState_loads:
  assumes "obj_getState be a key (obj, s) = ((prev, orig), obj', s')"
  shows "orig = committed_value be s a obj key"
    "prev = (case so_dirtyStorage obj key of Some v \<Rightarrow> v | None \<Rightarrow> orig)"
    "silent be s s'" "db_objects s' = db_objects s" "destructed s' = destructed s"
    "obj_canon be (destructed s a) a obj' = obj_canon be (destructed s a) a obj"
proof -
  obtain o1 s1 where c: "obj_GetCommittedState be a key (obj, s) = (orig, o1, s1)"
    and r: "obj' = o1" "s' = s1" "prev = (case so_dirtyStorage o1 key of Some v \<Rightarrow> v | None \<Rightarrow> orig)"
    using assms unfolding obj_getState_def
    by (cases "obj_GetCommittedState be a key (obj, s)") (auto split: option.splits)
  note l = GetCommittedState_loads [OF c]
  show "orig = committed_value be s a obj key" "silent be s s'" "db_objects s' = db_objects s"
    "destructed s' = destructed s"
    "obj_canon be (destructed s a) a obj' = obj_canon be (destructed s a) a obj"
    using l r by simp_all
  have "so_dirtyStorage o1 = so_dirtyStorage obj" using l(5) by (simp add: obj_canon_eq)
  then show "prev = (case so_dirtyStorage obj key of Some v \<Rightarrow> v | None \<Rightarrow> orig)"
    using r(3) by simp
qed

lemma steps_setState:
  assumes "db_ok be s" "objv be s a = Some (obj_canon be (destructed s a) a obj)"
    and "orig = committed_value be s a obj key"
    and "prev = (case so_dirtyStorage obj key of Some v \<Rightarrow> v | None \<Rightarrow> orig)"
  shows "steps be s (setStateObject a (obj_setState key val orig obj)
           (j_append (storageChange a key prev orig) s))"
proof (rule steps_object [where g = "obj_setState key prev orig"])
  have ok: "obj_ok be (obj_canon be (destructed s a) a obj)" using assms(1, 2) by (rule db_ok_objv)
  have "(so_dirtyStorage obj)(key := if prev = orig then None else Some prev) = so_dirtyStorage obj"
    using ok assms(3, 4)
    by (auto simp: fun_upd_idem_iff obj_ok_canon split: option.splits)
  then show "objv be s a = Some (obj_canon be (destructed s a) a
      (obj_setState key prev orig (obj_setState key val orig obj)))"
    using assms(2) by (simp add: obj_canon_eq obj_setters)
  show "obj_ok be (obj_canon be (destructed s a) a (obj_setState key val orig obj))"
    using ok assms(3)
    by (simp add: obj_ok_canon obj_setters)
qed (use assms in \<open>simp_all add: obj_setters\<close>)

lemma steps_SetState:
  assumes "obj_SetState be a key val (obj, s) = (r, obj', s')" "db_ok be s" "db_objects s a = Some obj"
  shows "steps be s (setStateObject a obj' s')"
proof -
  obtain prev orig o1 s1 where g: "obj_getState be a key (obj, s) = ((prev, orig), o1, s1)"
    by (metis prod.collapse)
  note l = getState_loads [OF g]
  let ?d = "destructed s a"
  show ?thesis
  proof (cases "prev = val")
    case True
    then have r: "obj' = o1" "s' = s1" using assms(1) g by (simp_all add: obj_SetState_def)
    have "objv be (setStateObject a o1 s1) = objv be s"
      using l(3, 5, 6) objv_objects [OF assms(3)]
      by (simp add: track_simps silent_def sim_def fun_upd_idem)
    then have "silent be s (setStateObject a o1 s1)"
      using l(3) by (simp add: silent_def sim_def track_simps)
    then show ?thesis unfolding r by (rule steps_one)
  next
    case False
    let ?s = "recordStorageWrite a key val s1"
    have r: "obj' = obj_setState key val orig o1" "s' = j_append (storageChange a key prev orig) ?s"
      using assms(1) g False by (auto simp: obj_SetState_def Let_def)
    have sil: "silent be s ?s" using l(3) silent_records(4) by (rule silent_trans)
    have d: "destructed ?s = destructed s" using l(5) by (simp add: track_simps)
    have "objv be ?s a = Some (obj_canon be (destructed ?s a) a o1)"
      using sil objv_objects [OF assms(3)] l(6) d by (simp add: silent_def sim_def)
    moreover have "orig = committed_value be ?s a o1 key"
      using l(1, 6) d by (simp add: committed_value_canon obj_canon_eq split: option.split)
    moreover have "prev = (case so_dirtyStorage o1 key of Some v \<Rightarrow> v | None \<Rightarrow> orig)"
      using l(2, 6) by (simp add: obj_canon_eq)
    ultimately have "steps be ?s (setStateObject a obj' s')"
      unfolding r using silent_ok [OF sil assms(2)] by (intro steps_setState)
    then show ?thesis using steps_one(1) [OF sil] by (rule steps_trans)
  qed
qed


lemma logged_field:
  assumes "db_objects t = db_objects s" "db_destruct t = db_destruct s"
    and "stack t = (let (es, revs, n) = stack s in (es @ [e], revs, n))"
    and "jr_dirties (db_journal t) = jr_dirties (db_journal s)" "dirtied e = None"
    and "entry_revert be e t = Some u" "rest u = rest s" "db_objects u = db_objects t" "db_journal u = db_journal t"
  shows "logged be e s t"
proof -
  have "objv be u = objv be s"
    using assms(1, 8) rest_sel(1) [OF assms(7)] by (intro objv_cong) simp_all
  then show ?thesis
    using assms by (simp add: logged_def pop_def sim_def count_dirty_def count_marks_def track_simps)
qed

lemma db_ok_field:
  assumes "db_ok be s" "db_objects t = db_objects s" "db_destruct t = db_destruct s"
    "al_ok (db_accessList t)" "\<forall>k. db_transient t k \<noteq> Some 0"
  shows "db_ok be t"
  using assms objv_cong [of t s be] by (simp add: db_ok_def destructed_def)

lemma j_append_fields:
  "db_objects (j_append e s) = db_objects s" "db_destruct (j_append e s) = db_destruct s"
  "db_accessList (j_append e s) = db_accessList s" "db_transient (j_append e s) = db_transient s"
  "db_refund (j_append e s) = db_refund s" "db_logs (j_append e s) = db_logs s"
  "db_logSize (j_append e s) = db_logSize s" "db_thash (j_append e s) = db_thash s"
  "db_txIndex (j_append e s) = db_txIndex s"
  by (simp_all add: j_append_def Let_def)

subsection \<open>Balances, nonces, code and storage\<close>

text \<open>An operation gets or creates the object, and then a method of the object makes its change.\<close>

lemma steps_db_SetBalance:
  assumes "db_ok be s"
  shows "steps be s (db_SetBalance be a amount s)"
proof -
  obtain obj s1 where g: "getOrNewStateObject be a (recordWrite a s) = (obj, s1)"
    by (metis prod.collapse)
  obtain prev obj' s2 where m: "obj_SetBalance a amount (obj, s1) = (prev, obj', s2)"
    by (metis prod_cases3)
  show ?thesis
    using steps_trans [OF steps_SetBalance [OF m getOrNew_write(2, 3) [OF g assms]] getOrNew_write(1) [OF g assms]]
    by (simp add: db_SetBalance_def g m)
qed

lemma setStateObject_idem: "db_objects s a = Some obj \<Longrightarrow> setStateObject a obj s = s"
  by (simp add: setStateObject_def fun_upd_idem)

lemma objects_touch: "db_objects (touch a s) = db_objects s"
  by (simp add: touch_def j_dirty_def j_append_def Let_def)

lemma steps_touch:
  assumes "db_ok be s"
  shows "steps be s (touch a s)"
proof (rule steps_one(2))
  have same: "objv be (j_dirty a s) = objv be s" "rest (j_dirty a s) = rest s" for a s
    by (simp_all add: j_dirty_def Let_def track_simps)
  show "logged be (touchChange a) s (touch a s)"
    by (simp add: logged_def pop_def sim_def touch_def track_simps same)
      (simp add: j_dirty_def j_append_def stack_def count_dirty_def count_marks_def Let_def track_simps)
  show "db_ok be (touch a s)"
    using assms
    by (intro db_ok_field [OF assms])
      (simp_all add: db_ok_def touch_def j_dirty_def j_append_def Let_def)
qed

lemma steps_db_AddBalance:
  assumes "db_ok be s"
  shows "steps be s (snd (db_AddBalance be a amount s))"
proof -
  obtain obj s1 where g: "getOrNewStateObject be a (recordWrite a s) = (obj, s1)"
    by (metis prod.collapse)
  note n = getOrNew_write [OF g assms]
  have idem: "setStateObject a obj s1 = s1" "db_objects (touch a s1) a = Some obj"
    "setStateObject a obj (touch a s1) = touch a s1"
    using n(3) by (simp_all add: setStateObject_idem objects_touch)
  show ?thesis
  proof (cases "amount = 0")
    case True
    then show ?thesis
      using n(1) steps_trans [OF steps_touch [OF n(2)] n(1)]
      by (simp add: db_AddBalance_def g obj_AddBalance_def idem)
  next
    case False
    obtain prev obj' s2 where
      m: "obj_SetBalance a (ac_Balance (so_data obj) + amount) (obj, s1) = (prev, obj', s2)"
      by (metis prod_cases3)
    show ?thesis
      using steps_trans [OF steps_SetBalance [OF m n(2, 3)] n(1)] False
      by (simp add: db_AddBalance_def g obj_AddBalance_def m)
  qed
qed

lemma steps_db_SubBalance:
  assumes "db_ok be s"
  shows "steps be s (snd (db_SubBalance be a amount s))"
proof -
  obtain obj s1 where g: "getOrNewStateObject be a (recordWrite a s) = (obj, s1)"
    by (metis prod.collapse)
  obtain prev obj' s2 where
    m: "obj_SetBalance a (ac_Balance (so_data obj) - amount) (obj, s1) = (prev, obj', s2)"
    by (metis prod_cases3)
  note n = getOrNew_write [OF g assms]
  show ?thesis
    using steps_trans [OF steps_SetBalance [OF m n(2, 3)] n(1)] n(1)
    by (simp add: db_SubBalance_def g m)
qed

lemma steps_db_SetNonce:
  assumes "db_ok be s"
  shows "steps be s (db_SetNonce be a nonce s)"
proof -
  obtain obj s1 where g: "getOrNewStateObject be a (recordWrite a s) = (obj, s1)"
    by (metis prod.collapse)
  obtain obj' s2 where m: "obj_SetNonce a nonce (obj, s1) = (obj', s2)" by (metis prod.collapse)
  note n = getOrNew_write [OF g assms]
  show ?thesis
    using steps_trans [OF steps_SetNonce [OF m n(2, 3)] n(1)] by (simp add: db_SetNonce_def g m)
qed

lemma steps_db_SetCode:
  assumes "db_ok be s" "code_loaded be a s"
  shows "steps be s (snd (db_SetCode be a code s))"
proof -
  obtain obj s1 where g: "getOrNewStateObject be a (recordWrite a s) = (obj, s1)"
    by (metis prod.collapse)
  obtain prev obj' s2 where m: "obj_SetCode a (be_keccak be code) code (obj, s1) = (prev, obj', s2)"
    by (metis prod_cases3)
  note n = getOrNew_write [OF g assms(1)]
  have "code_cached be obj"
    using assms(2) n(5)
    by (auto simp: code_loaded_def code_cached_def newObject_def NewEmptyStateAccount_def)
  then show ?thesis
    using steps_trans [OF steps_SetCode [OF m n(2, 3)] n(1)] by (simp add: db_SetCode_def g m)
qed

lemma steps_db_SetState:
  assumes "db_ok be s"
  shows "steps be s (snd (db_SetState be a key val s))"
proof -
  obtain obj s1 where g: "getOrNewStateObject be a (recordWrite a s) = (obj, s1)"
    by (metis prod.collapse)
  obtain prev obj' s2 where m: "obj_SetState be a key val (obj, s1) = (prev, obj', s2)"
    by (metis prod_cases3)
  note n = getOrNew_write [OF g assms]
  show ?thesis
    using steps_trans [OF steps_SetState [OF m n(2, 3)] n(1)] by (simp add: db_SetState_def g m)
qed


subsection \<open>Accounts and flags\<close>

lemma steps_db_CreateAccount:
  assumes "db_ok be s" "objv be s a = None"
  shows "steps be s (db_CreateAccount be a s)"
proof -
  have "silent be s (recordWrite a s)" by (rule silent_records)
  then have "steps be s (recordWrite a s)" "db_ok be (recordWrite a s)"
    using assms(1) by (auto intro: steps_one silent_ok)
  then show ?thesis
    using assms(2) by (auto simp: db_CreateAccount_def createObject_eq track_simps
        intro: steps_trans [OF steps_create])
qed

lemma obj_ok_flags:
  "obj_ok be (obj_canon be d a (obj\<lparr>so_newContract := b\<rparr>)) = obj_ok be (obj_canon be d a obj)"
  "obj_ok be (obj_canon be d a (obj\<lparr>so_selfDestructed := b\<rparr>)) = obj_ok be (obj_canon be d a obj)"
  by (simp_all add: obj_ok_def canon_simps obj_setters)

lemma j_append_setStateObject: "j_append e (setStateObject a obj s) = setStateObject a obj (j_append e s)"
  by (cases s) (simp add: j_append_def setStateObject_def Let_def)

lemma steps_db_CreateContract:
  assumes "db_ok be s" "db_CreateContract be a s = Some s'"
  shows "steps be s s'"
proof -
  obtain obj where obj: "peek be s a = Some obj"
    using assms(2) by (auto simp: db_CreateContract_def getStateObject_peek split: option.splits)
  let ?s = "loaded be a s"
  have load: "steps be s ?s" "db_ok be ?s"
    using assms(1) silent_loaded by (auto intro: steps_one silent_ok)
  have o': "db_objects ?s a = Some obj" using obj by (simp add: objects_loaded)
  show ?thesis
  proof (cases "so_newContract obj")
    case True
    then show ?thesis
      using assms(2) obj load by (simp add: db_CreateContract_def getStateObject_peek)
  next
    case False
    have "steps be ?s (setStateObject a (obj\<lparr>so_newContract := True\<rparr>) (j_append (createContractChange a) ?s))"
      using load(2) objv_objects [OF o'] db_ok_objects [OF load(2) o'] False
      by (intro steps_object [where g = "\<lambda>obj. obj\<lparr>so_newContract := False\<rparr>"])
        (simp_all add: obj_canon_eq obj_setters obj_ok_flags)
    moreover have "s' = setStateObject a (obj\<lparr>so_newContract := True\<rparr>) (j_append (createContractChange a) ?s)"
      using assms(2) obj False
      by (simp add: db_CreateContract_def getStateObject_peek j_append_setStateObject)
    ultimately show ?thesis using steps_trans [OF _ load(1)] by simp
  qed
qed

lemma steps_db_SelfDestruct:
  assumes "db_ok be s"
  shows "steps be s (db_SelfDestruct be a s)"
proof (cases "peek be (recordWrite a s) a")
  case None
  then show ?thesis
    using silent_trans [OF silent_records(2) silent_loaded]
    by (simp add: db_SelfDestruct_def getStateObject_peek steps_one)
next
  case (Some obj)
  let ?s = "loaded be a (recordWrite a s)"
  have sil: "silent be s ?s" using silent_records(2) silent_loaded by (rule silent_trans)
  then have load: "steps be s ?s" "db_ok be ?s" using assms by (auto intro: steps_one silent_ok)
  have o': "db_objects ?s a = Some obj" using Some by (simp add: objects_loaded)
  have "steps be ?s (setStateObject a (obj\<lparr>so_selfDestructed := True\<rparr>) (j_append (selfDestructChange a) ?s))"
    if "\<not> so_selfDestructed obj"
    using load(2) objv_objects [OF o'] db_ok_objects [OF load(2) o'] that
    by (intro steps_object [where g = "\<lambda>obj. obj\<lparr>so_selfDestructed := False\<rparr>"])
      (simp_all add: obj_canon_eq obj_setters obj_ok_flags getStateObject_peek peek_def on_object_def)
  then show ?thesis
    using Some load(1) steps_trans [OF _ load(1)]
    by (simp add: db_SelfDestruct_def getStateObject_peek)
qed

subsection \<open>Refund, logs, access list and transient storage\<close>

lemma steps_refund:
  assumes "db_ok be s"
  shows "steps be s ((j_append (refundChange (db_refund s)) s)\<lparr>db_refund := r\<rparr>)"
proof (rule steps_one(2))
  let ?t = "(j_append (refundChange (db_refund s)) s)\<lparr>db_refund := r\<rparr>"
  show "logged be (refundChange (db_refund s)) s ?t"
    by (rule logged_field [where u = "?t\<lparr>db_refund := db_refund s\<rparr>"])
      (simp_all add: j_append_def stack_def count_dirty_def Let_def rest_def)
  show "db_ok be ?t"
    using assms by (intro db_ok_field [OF assms]) (simp_all add: j_append_fields db_ok_def)
qed

lemma steps_db_AddLog:
  assumes "db_ok be s"
  shows "steps be s (db_AddLog log s)"
proof (rule steps_one(2))
  let ?t = "db_AddLog log s"
  show "logged be (addLogChange (db_thash s)) s ?t"
    by (rule logged_field [where u = "?t\<lparr>db_logs := db_logs s, db_logSize := db_logSize s\<rparr>"])
      (simp_all add: db_AddLog_def j_append_def stack_def count_dirty_def Let_def rest_def)
  show "db_ok be ?t"
    using assms by (intro db_ok_field [OF assms]) (simp_all add: db_AddLog_def Let_def j_append_fields db_ok_def)
qed

lemma steps_db_SetTransientState:
  assumes "db_ok be s"
  shows "steps be s (db_SetTransientState a key val s)"
proof (cases "ts_Get a key (db_transient s) = val")
  case False
  let ?p = "ts_Get a key (db_transient s)" and ?t = "db_SetTransientState a key val s"
  have inv: "ts_Set a key ?p (ts_Set a key val (db_transient s)) = db_transient s"
    using assms by (auto simp: ts_Set_def ts_Get_def fun_upd_idem_iff db_ok_def split: option.splits)
  show ?thesis
  proof (rule steps_one(2))
    show "logged be (transientStorageChange a key ?p) s ?t"
      by (rule logged_field [where u = "?t\<lparr>db_transient := db_transient s\<rparr>"])
        (use inv False in \<open>simp_all add: db_SetTransientState_def j_append_def stack_def count_dirty_def Let_def rest_def\<close>)
    show "db_ok be ?t"
      using assms False
      by (intro db_ok_field [OF assms])
        (simp_all add: db_SetTransientState_def Let_def j_append_fields db_ok_def ts_Set_def)
  qed
qed (simp add: db_SetTransientState_def steps_refl)

lemma steps_accessAccount:
  assumes "db_ok be s" "al_AddAddress a (db_accessList s) = (True, al)"
  shows "steps be s (j_append (accessListAddAccountChange a) (s\<lparr>db_accessList := al\<rparr>))"
proof (rule steps_one(2))
  let ?t = "j_append (accessListAddAccountChange a) (s\<lparr>db_accessList := al\<rparr>)"
  have inv: "al_DeleteAddress a al = db_accessList s"
    using assms(2) al_DeleteAddress_AddAddress [of a "db_accessList s"] by simp
  show "logged be (accessListAddAccountChange a) s ?t"
    by (rule logged_field [where u = "?t\<lparr>db_accessList := db_accessList s\<rparr>"])
      (use inv in \<open>simp_all add: j_append_def stack_def count_dirty_def Let_def rest_def\<close>)
  have "al_ok al" using al_ok_AddAddress [of "db_accessList s" a] assms by (simp add: db_ok_def)
  then show "db_ok be ?t"
    using assms by (intro db_ok_field [OF assms(1)]) (simp_all add: j_append_fields db_ok_def)
qed


lemma steps_accessSlot:
  assumes "db_ok be s" "al_AddSlot a slot (db_accessList s) = ((False, True), al)"
  shows "steps be s (j_append (accessListAddSlotChange a slot) (s\<lparr>db_accessList := al\<rparr>))"
proof (rule steps_one(2))
  let ?t = "j_append (accessListAddSlotChange a slot) (s\<lparr>db_accessList := al\<rparr>)"
  have ok: "al_ok (db_accessList s)" using assms(1) by (simp add: db_ok_def)
  have "snd (al_AddAddress a (db_accessList s)) = db_accessList s"
    using assms(2) by (auto simp: al_AddAddress_def al_AddSlot_def split: option.splits if_splits)
  then have inv: "al_DeleteSlot a slot al = Some (db_accessList s)"
    using assms(2) al_DeleteSlot_AddSlot [OF ok, of a slot] by simp
  show "logged be (accessListAddSlotChange a slot) s ?t"
    by (rule logged_field [where u = "?t\<lparr>db_accessList := db_accessList s\<rparr>"])
      (use inv in \<open>simp_all add: j_append_def stack_def count_dirty_def Let_def rest_def\<close>)
  have "al_ok al" using al_ok_AddSlot [OF ok, of a slot] assms by simp
  then show "db_ok be ?t"
    using assms by (intro db_ok_field [OF assms(1)]) (simp_all add: j_append_fields db_ok_def)
qed

lemma steps_db_AddAddressToAccessList:
  assumes "db_ok be s"
  shows "steps be s (db_AddAddressToAccessList a s)"
proof (cases "al_AddAddress a (db_accessList s)")
  case (Pair new al)
  show ?thesis
  proof (cases new)
    case True
    then show ?thesis
      using Pair steps_accessAccount [OF assms, of a al] by (simp add: db_AddAddressToAccessList_def)
  next
    case False
    then have "al = db_accessList s" using Pair by (auto simp: al_AddAddress_def split: if_splits)
    then show ?thesis using Pair False by (simp add: db_AddAddressToAccessList_def steps_refl)
  qed
qed

text \<open>Adding a slot of a new address is adding the address and then the slot.\<close>

lemma al_AddSlot_new:
  assumes "al_AddSlot a slot al = ((True, b), al')"
  shows "b" "fst (al_AddAddress a al)" "al_AddSlot a slot (snd (al_AddAddress a al)) = ((False, True), al')"
  using assms by (auto simp: al_AddSlot_def al_AddAddress_def split: option.splits if_splits)

lemma j_append_accessList: "(j_append e s)\<lparr>db_accessList := al\<rparr> = j_append e (s\<lparr>db_accessList := al\<rparr>)"
  by (cases s) (simp add: j_append_def Let_def)

lemma steps_db_AddSlotToAccessList:
  assumes "db_ok be s"
  shows "steps be s (db_AddSlotToAccessList a slot s)"
proof -
  obtain addrMod slotMod al where r: "al_AddSlot a slot (db_accessList s) = ((addrMod, slotMod), al)"
    by (metis prod.collapse)
  consider "addrMod" | "\<not> addrMod" "slotMod" | "\<not> addrMod" "\<not> slotMod" by blast
  then show ?thesis
  proof cases
    case 1
    let ?al = "snd (al_AddAddress a (db_accessList s))"
    let ?s = "j_append (accessListAddAccountChange a) (s\<lparr>db_accessList := ?al\<rparr>)"
    note new = al_AddSlot_new [of a slot "db_accessList s" slotMod al]
    have "al_AddAddress a (db_accessList s) = (True, ?al)" using new r 1 by (simp add: prod_eq_iff)
    from steps_accessAccount [OF assms this] have one: "steps be s ?s" .
    have two: "steps be ?s (j_append (accessListAddSlotChange a slot) (?s\<lparr>db_accessList := al\<rparr>))"
      using new r 1 steps_ok [OF one assms] by (intro steps_accessSlot) (simp_all add: j_append_fields)
    show ?thesis
      using steps_trans [OF two one] r 1 new
      by (simp add: db_AddSlotToAccessList_def j_append_accessList)
  next
    case 2
    then show ?thesis
      using r steps_accessSlot [OF assms, of a slot al] by (simp add: db_AddSlotToAccessList_def)
  next
    case 3
    then have "al = db_accessList s" using r by (auto simp: al_AddSlot_def split: option.splits if_splits)
    then show ?thesis using r 3 by (simp add: db_AddSlotToAccessList_def steps_refl)
  qed
qed

section \<open>Operations that read\<close>

lemma silent_store:
  assumes "silent be s t" "peek be s a = Some obj"
    "obj_canon be (destructed s a) a obj' = obj_canon be (destructed s a) a obj"
  shows "silent be s (setStateObject a obj' t)"
proof -
  have "destructed t = destructed s"
    using assms(1) by (auto simp: silent_def sim_def dest: destructed_rest)
  then have "objv be (setStateObject a obj' t) = objv be s"
    using assms objv_peek [OF assms(2)] by (simp add: track_simps silent_def sim_def fun_upd_idem)
  then show ?thesis using assms(1) by (simp add: silent_def sim_def track_simps)
qed

lemma silent_getters:
  "silent be s (snd (db_Exist be a s))"
  "silent be s (snd (db_Empty be a s))"
  "silent be s (snd (db_GetBalance be a s))"
  "silent be s (snd (db_GetNonce be a s))"
  "silent be s (snd (db_GetCodeHash be a s))"
  "silent be s (snd (db_HasSelfDestructed be a s))"
  "silent be s (snd (db_IsNewContract be a s))"
  by (simp_all add: db_Exist_def db_Empty_def db_GetBalance_def db_GetNonce_def db_GetCodeHash_def
      db_HasSelfDestructed_def db_IsNewContract_def getStateObject_peek silent_loaded)

lemma canon_Code: "obj_canon be d a (snd (obj_Code be a obj)) = obj_canon be d a obj"
  by (simp add: obj_canon_eq obj_Code_def origin_value_def Let_def)

lemma silent_GetCode: "silent be s (snd (db_GetCode be a s))"
proof (cases "peek be s a")
  case (Some obj)
  then show ?thesis
    using silent_store [OF silent_loaded Some canon_Code]
    by (simp add: db_GetCode_def getStateObject_peek split_beta)
qed (simp add: db_GetCode_def getStateObject_peek silent_loaded)

lemma silent_GetCommittedState: "silent be s (snd (db_GetCommittedState be a key s))"
proof (cases "peek be s a")
  case (Some obj)
  obtain v obj' s' where g: "obj_GetCommittedState be a key (obj, loaded be a s) = (v, obj', s')"
    by (metis prod_cases3)
  note l = GetCommittedState_loads [OF g]
  have "silent be s s'" using silent_loaded l(2) by (rule silent_trans)
  then show ?thesis
    using silent_store [OF _ Some, of s' obj'] l(5) Some g
    by (simp add: db_GetCommittedState_def getStateObject_peek track_simps)
qed (simp add: db_GetCommittedState_def getStateObject_peek silent_loaded)

lemma silent_GetState: "silent be s (snd (db_GetState be a key s))"
proof (cases "peek be s a")
  case (Some obj)
  show ?thesis
  proof (cases "so_dirtyStorage obj key")
    case None
    then show ?thesis
      using silent_GetCommittedState [of be s a key] Some
      by (simp add: db_GetState_def db_GetCommittedState_def getStateObject_peek obj_GetState_def)
  next
    case (Some v)
    then show ?thesis
      using \<open>peek be s a = Some obj\<close> silent_store [OF silent_loaded \<open>peek be s a = Some obj\<close> refl]
      by (simp add: db_GetState_def getStateObject_peek obj_GetState_def)
  qed
qed (simp add: db_GetState_def getStateObject_peek silent_loaded)


section \<open>Getters show the relation\<close>

lemma sim_canon:
  assumes "sim be s t" "peek be s a = Some obj"
  shows "\<exists>obj'. peek be t a = Some obj' \<and> obj_canon be (destructed s a) a obj = obj_canon be (destructed s a) a obj'"
  using sim_peek [OF assms(1), of a] assms(2) by (auto simp: rel_option_iff split: option.splits)

lemma fst_GetCommittedState:
  "fst (obj_GetCommittedState be a key (obj, s)) = committed_value be s a obj key"
  by (metis GetCommittedState_loads(1) prod.collapse)

lemma fst_GetState:
  "fst (obj_GetState be a key (obj, s)) =
     (case so_dirtyStorage obj key of Some v \<Rightarrow> v | None \<Rightarrow> committed_value be s a obj key)"
  by (simp add: obj_GetState_def fst_GetCommittedState split: option.split)

lemma getters_peek:
  "fst (db_Exist be a s) \<longleftrightarrow> peek be s a \<noteq> None"
  "fst (db_Empty be a s) = (case peek be s a of None \<Rightarrow> True | Some obj \<Rightarrow> acct_empty be (so_data obj))"
  "fst (db_GetBalance be a s) = (case peek be s a of None \<Rightarrow> 0 | Some obj \<Rightarrow> ac_Balance (so_data obj))"
  "fst (db_GetNonce be a s) = (case peek be s a of None \<Rightarrow> 0 | Some obj \<Rightarrow> ac_Nonce (so_data obj))"
  "fst (db_GetCodeHash be a s) = (case peek be s a of None \<Rightarrow> 0 | Some obj \<Rightarrow> ac_CodeHash (so_data obj))"
  "fst (db_GetCode be a s) = (case peek be s a of None \<Rightarrow> [] | Some obj \<Rightarrow> fst (obj_Code be a obj))"
  "fst (db_HasSelfDestructed be a s) = (case peek be s a of None \<Rightarrow> False | Some obj \<Rightarrow> so_selfDestructed obj)"
  "fst (db_IsNewContract be a s) = (case peek be s a of None \<Rightarrow> False | Some obj \<Rightarrow> so_newContract obj)"
  "fst (db_GetCommittedState be a key s) =
     (case peek be s a of None \<Rightarrow> 0 | Some obj \<Rightarrow> committed_value be (loaded be a s) a obj key)"
  "fst (db_GetState be a key s) =
     (case peek be s a of None \<Rightarrow> 0 | Some obj \<Rightarrow>
        (case so_dirtyStorage obj key of Some v \<Rightarrow> v | None \<Rightarrow> committed_value be (loaded be a s) a obj key))"
  by (simp_all add: db_Exist_def db_Empty_def db_GetBalance_def db_GetNonce_def db_GetCodeHash_def
      db_GetCode_def db_HasSelfDestructed_def db_IsNewContract_def db_GetState_def
      db_GetCommittedState_def getStateObject_peek so_empty_def split_beta fst_GetState
      fst_GetCommittedState split: option.split)

lemma committed_value_loaded:
  "committed_value be (loaded be a s) b obj key = committed_value be s b obj key"
  by (simp add: committed_value_canon track_simps split: option.split)

lemma sim_case:
  assumes "sim be s t"
    and "\<And>obj obj'. obj_canon be (destructed s a) a obj = obj_canon be (destructed s a) a obj' \<Longrightarrow> f obj = g obj'"
  shows "(case peek be s a of None \<Rightarrow> z | Some obj \<Rightarrow> f obj) = (case peek be t a of None \<Rightarrow> z | Some obj \<Rightarrow> g obj)"
proof (cases "peek be s a")
  case None
  moreover have "peek be t a = None" using None assms(1) by (simp add: peek_None sim_def)
  ultimately show ?thesis by simp
next
  case (Some obj)
  from sim_canon [OF assms(1) Some] obtain obj' where o': "peek be t a = Some obj'"
    "obj_canon be (destructed s a) a obj = obj_canon be (destructed s a) a obj'" by blast
  from assms(2) [OF o'(2)] show ?thesis by (simp add: Some o'(1))
qed

lemma same_reads_sim:
  assumes "sim be s t"
  shows "same_reads be s t"
proof -
  have d: "destructed t = destructed s" using assms destructed_rest [of s t] by (simp add: sim_def)
  have "rest s = rest t" using assms by (simp add: sim_def)
  note r = rest_sel [OF this]
  have committed: "committed_value be s a obj key = committed_value be t a obj' key"
    if "obj_canon be (destructed s a) a obj = obj_canon be (destructed s a) a obj'" for a obj obj' key
    using that d by (simp add: committed_value_canon obj_canon_eq split: option.split)
  have exist: "(peek be s a \<noteq> None) = (peek be t a \<noteq> None)" for a
    using assms by (simp add: peek_None sim_def)
  show ?thesis
    unfolding same_reads_def getters_peek committed_value_loaded r
    by (intro conjI allI refl exist sim_case [OF assms])
      (auto simp: obj_canon_eq committed [unfolded obj_canon_eq] split: option.split)
qed


section \<open>Sequences of calls\<close>

lemma stack_upds [track_simps]:
  "stack (s\<lparr>db_objects := os\<rparr>) = stack s"
  "stack (s\<lparr>db_refund := r\<rparr>) = stack s"
  "stack (s\<lparr>db_transient := tr\<rparr>) = stack s"
  "stack (s\<lparr>db_accessList := al\<rparr>) = stack s"
  "stack (s\<lparr>db_logs := l, db_logSize := n\<rparr>) = stack s"
  by (simp_all add: stack_def)

lemma stack_entry_revert: "entry_revert be e s = Some s' \<Longrightarrow> stack s' = stack s"
  by (cases e)
    (auto simp: on_object_eq getStateObject_peek track_simps split: option.splits if_splits)

lemma stack_pop: "pop be e s = Some s' \<Longrightarrow> stack s' = stack s"
  using stack_entry_revert [of be e s] by (auto simp: pop_def stack_def Let_def)

lemma stack_revert_entries: "revert_entries be es s = Some s' \<Longrightarrow> stack s' = stack s"
proof (induction es arbitrary: s)
  case (Cons e es)
  then show ?case
    using stack_pop [of be e s] by (cases "pop be e s") (auto simp: revert_entries_pop simp del: revert_entries.simps)
qed simp

lemma dirties_entry_revert:
  "entry_revert be e s = Some s' \<Longrightarrow> jr_dirties (db_journal s') = jr_dirties (db_journal s)"
  by (cases e) (auto simp: on_object_eq getStateObject_peek track_simps split: option.splits if_splits)

lemma count_marks_simps [simp]:
  "count_marks a [] = 0"
  "count_marks a (rev es) = count_marks a es"
  "count_dirty (- 1) e d a = d a - count_marks a [e]"
  by (auto simp: count_marks_def count_dirty_def simp flip: rev_filter split: option.splits)

lemma count_marks_Cons: "count_marks a (e # es) = count_marks a [e] + count_marks a es"
  by (simp add: count_marks_def)

lemma revert_entries_marks:
  "revert_entries be es s = Some t \<Longrightarrow>
     jr_dirties (db_journal t) a = jr_dirties (db_journal s) a - count_marks a es"
proof (induction es arbitrary: s)
  case (Cons e es)
  then obtain u where u: "entry_revert be e s = Some u"
    "revert_entries be es (u\<lparr>db_journal := (db_journal u)\<lparr>jr_dirties :=
       count_dirty (- 1) e (jr_dirties (db_journal u))\<rparr>\<rparr>) = Some t"
    by (auto simp: Let_def split: option.splits)
  then show ?case
    using Cons.IH [OF u(2)] dirties_entry_revert [OF u(1)] by (simp add: count_marks_Cons [of a e es])
qed simp

lemma undoable_silent:
  assumes "undoable be s0 s es" "silent be s s'"
  shows "undoable be s0 s' es"
  unfolding undoable_def
proof (intro allI impI)
  fix k assume "k \<le> length es"
  with assms(1) obtain t where t: "revert_entries be (rev (drop k es)) s = Some t" "db_ok be t"
    "k = 0 \<longrightarrow> sim be t s0" unfolding undoable_def by blast
  have "sim be s s'" using assms(2) by (simp add: silent_def sim_sym)
  from revert_entries_sim [OF this t(1)] obtain t' where
    t': "revert_entries be (rev (drop k es)) s' = Some t'" "sim be t t'" by blast
  then show "\<exists>t. revert_entries be (rev (drop k es)) s' = Some t \<and> db_ok be t \<and> (k = 0 \<longrightarrow> sim be t s0)"
    using t db_ok_sim [OF t'(2)] sim_trans [OF sim_sym [OF t'(2)]] by blast
qed

lemma undoable_logged:
  assumes "undoable be s0 s es" "logged be e s s'" "db_ok be s'"
  shows "undoable be s0 s' (es @ [e])"
  unfolding undoable_def
proof (intro allI impI)
  fix k assume "k \<le> length (es @ [e])"
  then consider "k \<le> length es" | "k = Suc (length es)" by force
  then show "\<exists>t. revert_entries be (rev (drop k (es @ [e]))) s' = Some t \<and> db_ok be t \<and> (k = 0 \<longrightarrow> sim be t s0)"
  proof cases
    case 1
    obtain u where u: "pop be e s' = Some u" "sim be u s" using assms(2) unfolding logged_def by blast
    from assms(1) 1 obtain t where t: "revert_entries be (rev (drop k es)) s = Some t" "db_ok be t"
      "k = 0 \<longrightarrow> sim be t s0" unfolding undoable_def by blast
    from revert_entries_sim [OF sim_sym [OF u(2)] t(1)] obtain t' where
      t': "revert_entries be (rev (drop k es)) u = Some t'" "sim be t t'" by blast
    have "revert_entries be (rev (drop k (es @ [e]))) s' = Some t'"
      using 1 u(1) t'(1) by (simp add: revert_entries_pop del: revert_entries.simps)
    then show ?thesis
      using t db_ok_sim [OF t'(2)] sim_trans [OF sim_sym [OF t'(2)]] by blast
  next
    case 2
    then show ?thesis using assms(3) by simp
  qed
qed

lemma reached_steps:
  assumes "steps be s s'" "reached be s0 lim s"
  shows "reached be s0 lim s'"
  using assms
proof (induction rule: steps.induct)
  case (steps_silent s t t')
  then have t: "reached be s0 lim t" "stack t' = stack t" "jr_dirties (db_journal t') = jr_dirties (db_journal t)"
    by (simp_all add: silent_def)
  then show ?case
    using undoable_silent [OF _ steps_silent.hyps(2)] unfolding reached_def revs_ok_def t(2, 3) by blast
next
  case (steps_logged s t e t')
  obtain es revs n where st: "stack t = (es, revs, n)" by (metis prod_cases3)
  then have st': "stack t' = (es @ [e], revs, n)" using steps_logged.hyps(2) by (simp add: logged_def)
  have "reached be s0 lim t" using steps_logged by blast
  then obtain es' where "es = fst (stack s0) @ es'" "undoable be s0 t es'"
    and marks: "jr_dirties (db_journal s0) a + count_marks a es' \<le> jr_dirties (db_journal t) a" for a
    unfolding reached_def st by auto
  moreover have "jr_dirties (db_journal s0) a + count_marks a (es' @ [e]) \<le> jr_dirties (db_journal t') a" for a
  proof -
    have "jr_dirties (db_journal t) a + count_marks a [e] \<le> jr_dirties (db_journal t') a"
      using steps_logged.hyps(2) by (simp add: logged_def)
    with marks [of a] show ?thesis by simp
  qed
  moreover have "undoable be s0 t' (es' @ [e])"
    using \<open>undoable be s0 t es'\<close> steps_logged.hyps(2, 3) by (rule undoable_logged)
  moreover have "revs_ok t'"
    using \<open>reached be s0 lim t\<close> unfolding reached_def revs_ok_def st st' by auto
  ultimately show ?case
    using \<open>reached be s0 lim t\<close> unfolding reached_def st st' by (auto intro!: exI [of _ "es' @ [e]"])
qed simp


lemma exec_steps:
  assumes "db_exec be c s = Some s'" "call_ok be lim c s" "db_ok be s"
    and "c \<noteq> Call_Snapshot" "\<And>revid. c \<noteq> Call_RevertToSnapshot revid"
  shows "steps be s s'"
  using assms
  by (cases c)
    (auto simp: call_ok_def db_AddRefund_def db_SubRefund_def j_append_fields peek_None Let_def
      split: if_splits
      intro: steps_one(1) silent_getters silent_GetCode silent_GetState silent_GetCommittedState
        silent_records steps_db_AddBalance steps_db_SubBalance steps_db_SetBalance steps_db_SetNonce
        steps_db_SetCode steps_db_SetState steps_db_SelfDestruct steps_db_CreateAccount
        steps_db_CreateContract steps_db_SetTransientState steps_db_AddLog steps_refund
        steps_db_AddAddressToAccessList steps_db_AddSlotToAccessList)

lemma reached_ok: "reached be s0 lim s \<Longrightarrow> db_ok be s"
proof -
  assume "reached be s0 lim s"
  then obtain es where "undoable be s0 s es" unfolding reached_def by blast
  from this [unfolded undoable_def, rule_format, of "length es"] show "db_ok be s" by simp
qed

lemma stack_journal:
  "stack (s\<lparr>db_journal := j\<rparr>) = (jr_entries j, jr_validRevisions j, jr_nextRevisionId j)"
  by (simp add: stack_def)

lemma stack_sel:
  "jr_entries (db_journal s) = fst (stack s)"
  "jr_validRevisions (db_journal s) = fst (snd (stack s))"
  "jr_nextRevisionId (db_journal s) = snd (snd (stack s))"
  by (simp_all add: stack_def Let_def)

lemma silent_journal:
  "jr_dirties j = jr_dirties (db_journal s) \<Longrightarrow> sim be (s\<lparr>db_journal := j\<rparr>) s"
  by (simp add: sim_def track_simps)

lemma undoable_sim:
  "undoable be s0 s es \<Longrightarrow> sim be s s' \<Longrightarrow> undoable be s0 s' es"
  unfolding undoable_def by (meson db_ok_sim revert_entries_sim sim_sym sim_trans)

lemma reached_Snapshot:
  assumes "reached be s0 lim s"
  shows "reached be s0 lim (snd (db_Snapshot s))"
proof -
  obtain es revs n where st: "stack s = (es, revs, n)" by (metis prod_cases3)
  let ?s = "snd (db_Snapshot s)"
  have st': "stack ?s = (es, revs @ [(n, length es)], Suc n)"
    using st by (simp add: db_Snapshot_def Let_def stack_journal stack_sel)
  have sim: "sim be s ?s"
    by (rule sim_sym) (simp add: db_Snapshot_def Let_def silent_journal)
  from assms obtain es' revs' where r: "es = fst (stack s0) @ es'" "revs = fst (snd (stack s0)) @ revs'"
    "\<forall>p \<in> set (fst (snd (stack s0))). fst p < lim"
    "\<forall>p \<in> set revs'. length (fst (stack s0)) \<le> snd p" "undoable be s0 s es'" "revs_ok s"
    "\<forall>a. jr_dirties (db_journal s0) a + count_marks a es' \<le> jr_dirties (db_journal s) a"
    unfolding reached_def st by auto
  have "jr_dirties (db_journal ?s) = jr_dirties (db_journal s)" by (simp add: db_Snapshot_def Let_def)
  moreover have "revs_ok ?s"
    using r(6) unfolding revs_ok_def st st' by (auto simp: sorted_wrt_append less_Suc_eq)
  ultimately show ?thesis
    unfolding reached_def st' using r undoable_sim [OF r(5) sim] by auto
qed

lemma split_second:
  assumes "xs @ x # ys = as @ bs" "x \<notin> set as"
  shows "\<exists>zs. xs = as @ zs \<and> bs = zs @ x # ys"
proof -
  from assms(1) consider us where "xs = as @ us" "us @ x # ys = bs"
    | us where "xs @ us = as" "x # ys = us @ bs" "us \<noteq> []"
    unfolding append_eq_append_conv2 by (metis append_Nil append_Nil2)
  then show ?thesis
  proof cases
    case 2
    then have "x \<in> set as" by (cases us) auto
    with assms(2) show ?thesis by blast
  qed auto
qed

lemma find_revision:
  fixes revid :: nat
  assumes "sorted_wrt (\<lambda>p q. fst p < fst q \<and> snd p \<le> snd q) (xs @ (revid, n) # ys)"
  shows "sort_Search (length (xs @ (revid, n) # ys)) (\<lambda>i. revid \<le> fst ((xs @ (revid, n) # ys) ! i)) = length xs"
proof (rule sort_Search_least)
  let ?l = "xs @ (revid, n) # ys"
  show "\<not> revid \<le> fst (?l ! k)" if "k < length xs" for k
  proof -
    have "\<forall>p \<in> set xs. fst p < revid" using assms by (auto simp: sorted_wrt_append)
    then have "fst (xs ! k) < revid" using nth_mem [OF that] by blast
    then show ?thesis using that by (simp add: nth_append not_le)
  qed
  show "revid \<le> fst (?l ! k)" if "length xs \<le> k" "k < length ?l" for k
  proof (cases "k = length xs")
    case False
    then have "fst (?l ! length xs) < fst (?l ! k)"
      using assms that by (intro sorted_wrt_nth_less [OF assms, THEN conjunct1]) simp_all
    then show ?thesis by simp
  qed simp
qed simp

lemma revision_index:
  assumes "sorted_wrt (\<lambda>p q. fst p < fst q \<and> snd p \<le> snd q) revs" "i < length revs" "fst (revs ! i) = revid"
  shows "revs = take i revs @ (revid, snd (revs ! i)) # drop (Suc i) revs"
  using id_take_nth_drop [OF assms(2)] assms(3) by (metis prod.collapse)

lemma RevertToSnapshot_eq:
  assumes "stack s = (es, xs @ (revid, n) # ys, m)"
    and "sorted_wrt (\<lambda>p q. fst p < fst q \<and> snd p \<le> snd q) (xs @ (revid, n) # ys)"
  shows "db_RevertToSnapshot be revid s =
    map_option (\<lambda>t. t\<lparr>db_journal := (db_journal t)\<lparr>jr_entries := take n es, jr_validRevisions := xs\<rparr>\<rparr>)
      (revert_entries be (rev (drop n es)) s)"
proof (cases "revert_entries be (rev (drop n es)) s")
  case None
  then show ?thesis
    using find_revision [OF assms(2)] assms(1)
    by (simp add: db_RevertToSnapshot_def j_revert_def stack_sel Let_def)
next
  case (Some t)
  have "stack t = stack s" using stack_revert_entries [OF Some] .
  then show ?thesis
    using find_revision [OF assms(2)] assms(1) Some
    by (simp add: db_RevertToSnapshot_def j_revert_def stack_sel stack_journal Let_def)
qed

lemma RevertToSnapshot_Some:
  assumes "db_RevertToSnapshot be revid s = Some s'" "stack s = (es, revs, m)" "revs_ok s"
  shows "\<exists>xs n ys t. revs = xs @ (revid, n) # ys \<and> revert_entries be (rev (drop n es)) s = Some t \<and>
    s' = t\<lparr>db_journal := (db_journal t)\<lparr>jr_entries := take n es, jr_validRevisions := xs\<rparr>\<rparr>"
proof -
  have sorted: "sorted_wrt (\<lambda>p q. fst p < fst q \<and> snd p \<le> snd q) revs"
    using assms(2, 3) by (simp add: revs_ok_def)
  define i where "i = sort_Search (length revs) (\<lambda>i. revid \<le> fst (revs ! i))"
  have i: "i \<noteq> length revs" "fst (revs ! i) = revid"
    using assms(1, 2) by (auto simp: db_RevertToSnapshot_def stack_sel Let_def i_def split: if_splits)
  have "i \<le> length revs" unfolding i_def by (rule sort_Search_le)
  with i(1) have "i < length revs" by simp
  from revision_index [OF sorted this i(2)] obtain xs n ys where r: "revs = xs @ (revid, n) # ys" by blast
  have "map_option (\<lambda>t. t\<lparr>db_journal := (db_journal t)\<lparr>jr_entries := take n es, jr_validRevisions := xs\<rparr>\<rparr>)
      (revert_entries be (rev (drop n es)) s) = Some s'"
    using RevertToSnapshot_eq [of s es xs revid n ys m be] assms(1, 2) sorted r by simp
  then show ?thesis using r by (auto simp: map_option_eq_Some)
qed


lemma undoable_take:
  assumes "undoable be s0 s es" "revert_entries be (rev (drop k es)) s = Some t" "sim be t u"
  shows "undoable be s0 u (take k es)"
  unfolding undoable_def
proof (intro allI impI)
  fix i assume i: "i \<le> length (take k es)"
  then have "i \<le> length es" "i \<le> k" by simp_all
  then have split: "rev (drop i es) = rev (drop k es) @ rev (drop i (take k es))"
    using append_take_drop_id [of "k - i" "drop i es"] by (simp add: drop_take flip: rev_append)
  from assms(1) \<open>i \<le> length es\<close> obtain v where v: "revert_entries be (rev (drop i es)) s = Some v" "db_ok be v"
    "i = 0 \<longrightarrow> sim be v s0" unfolding undoable_def by blast
  then have "revert_entries be (rev (drop i (take k es))) t = Some v"
    using assms(2) unfolding split revert_entries_append by simp
  from revert_entries_sim [OF assms(3) this] obtain w where
    "revert_entries be (rev (drop i (take k es))) u = Some w" "sim be v w" by blast
  then show "\<exists>t. revert_entries be (rev (drop i (take k es))) u = Some t \<and> db_ok be t \<and> (i = 0 \<longrightarrow> sim be t s0)"
    using v db_ok_sim sim_trans sim_sym by blast
qed

lemma reached_Revert:
  assumes "reached be s0 lim s" "db_RevertToSnapshot be revid s = Some s'" "lim \<le> revid"
  shows "reached be s0 lim s'"
proof -
  obtain es revs m where st: "stack s = (es, revs, m)" by (metis prod_cases3)
  let ?es0 = "fst (stack s0)" and ?revs0 = "fst (snd (stack s0))"
  from assms(1) obtain es' revs' where r: "es = ?es0 @ es'" "revs = ?revs0 @ revs'"
    "\<forall>p \<in> set ?revs0. fst p < lim"
    "\<forall>p \<in> set revs'. length ?es0 \<le> snd p" "undoable be s0 s es'" "revs_ok s"
    and marks: "\<forall>a. jr_dirties (db_journal s0) a + count_marks a es' \<le> jr_dirties (db_journal s) a"
    unfolding reached_def st by auto
  from RevertToSnapshot_Some [OF assms(2) st r(6)] obtain xs n ys t where
    x: "revs = xs @ (revid, n) # ys" "revert_entries be (rev (drop n es)) s = Some t"
    and s': "s' = t\<lparr>db_journal := (db_journal t)\<lparr>jr_entries := take n es, jr_validRevisions := xs\<rparr>\<rparr>"
    by blast
  have "stack t = (es, revs, m)" using stack_revert_entries [OF x(2)] st by simp
  then have st': "stack s' = (take n es, xs, m)" by (simp add: s' stack_journal stack_sel)
  have "(revid, n) \<notin> set ?revs0" using r(3) assms(3) by force
  then obtain zs where zs: "xs = ?revs0 @ zs" "revs' = zs @ (revid, n) # ys"
    using split_second [of xs "(revid, n)" ys ?revs0 revs'] r(2) x(1) by auto
  then have n: "length ?es0 \<le> n" using r(4) by auto
  have drop: "drop n es = drop (n - length ?es0) es'" "take n es = ?es0 @ take (n - length ?es0) es'"
    using n by (simp_all add: r(1))
  have "sim be t s'" unfolding s' by (intro sim_sym [OF silent_journal]) simp
  then have "undoable be s0 s' (take (n - length ?es0) es')"
    using undoable_take [OF r(5)] x(2) drop(1) by simp
  moreover have "revs_ok s'"
    using r(6) unfolding revs_ok_def st st' x(1) by (auto simp: sorted_wrt_append)
  moreover have "jr_dirties (db_journal s0) a + count_marks a (take (n - length ?es0) es') \<le>
      jr_dirties (db_journal s') a" for a
  proof -
    have "jr_dirties (db_journal s') a = jr_dirties (db_journal s) a - count_marks a (drop (n - length ?es0) es')"
      using revert_entries_marks [OF x(2), of a] drop(1) by (simp add: s')
    moreover have "count_marks a es' =
        count_marks a (take (n - length ?es0) es') + count_marks a (drop (n - length ?es0) es')"
      by (simp flip: count_marks_append)
    ultimately show ?thesis using marks [rule_format, of a] by linarith
  qed
  ultimately show ?thesis
    unfolding reached_def st' using r(3, 4) zs drop(2) by auto
qed

lemma reached_execs:
  assumes "db_execs be cs s = Some s'" "calls_ok be lim cs s" "reached be s0 lim s"
  shows "reached be s0 lim s'"
  using assms
proof (induction cs arbitrary: s)
  case (Cons c cs)
  then obtain t where t: "db_exec be c s = Some t" "db_execs be cs t = Some s'"
    by (auto simp: bind_eq_Some_conv)
  have ok: "call_ok be lim c s" "calls_ok be lim cs t" using Cons.prems(2) t(1) by auto
  have "reached be s0 lim t"
  proof (cases c)
    case Call_Snapshot
    then show ?thesis using t(1) Cons.prems(3) by (auto intro: reached_Snapshot)
  next
    case (Call_RevertToSnapshot revid)
    then show ?thesis
      using t(1) ok(1) Cons.prems(3) by (auto simp: call_ok_def intro: reached_Revert)
  qed (use exec_steps [OF t(1) ok(1) reached_ok [OF Cons.prems(3)]] reached_steps Cons.prems(3) in blast)+
  then show ?case using Cons.IH t(2) ok(2) by blast
qed simp

lemma reached_self:
  assumes "db_ok be s" "revs_ok s" "\<forall>p \<in> set (fst (snd (stack s))). fst p < lim"
  shows "reached be s lim s"
  using assms unfolding reached_def undoable_def by auto

section \<open>The first state\<close>

lemma db_ok_NewWithReader:
  assumes "code_addressed be"
  shows "db_ok be NewWithReader"
  using assms
  by (auto simp: db_ok_def NewWithReader_def objv_def peek_def destructed_def obj_ok_def obj_canon_def
      newObject_def obj_Code_def EmptyCodeHash_def code_addressed_def tracked_slot_def Let_def
      origin_value_def base_value_def base_account_def split: if_splits) blast

lemma revs_ok_newJournal: "db_journal s = newJournal \<Longrightarrow> revs_ok s"
  by (simp add: revs_ok_def stack_def newJournal_def)

section \<open>Accounts without entries\<close>

lemma getters_objv:
  "fst (db_Exist be a s) \<longleftrightarrow> objv be s a \<noteq> None"
  "fst (db_GetBalance be a s) = (case objv be s a of None \<Rightarrow> 0 | Some obj \<Rightarrow> ac_Balance (so_data obj))"
  "fst (db_GetNonce be a s) = (case objv be s a of None \<Rightarrow> 0 | Some obj \<Rightarrow> ac_Nonce (so_data obj))"
  "fst (db_GetCodeHash be a s) = (case objv be s a of None \<Rightarrow> 0 | Some obj \<Rightarrow> ac_CodeHash (so_data obj))"
  "fst (db_GetCode be a s) = (case objv be s a of None \<Rightarrow> [] | Some obj \<Rightarrow> so_code obj)"
  "fst (db_HasSelfDestructed be a s) = (case objv be s a of None \<Rightarrow> False | Some obj \<Rightarrow> so_selfDestructed obj)"
  "fst (db_GetCommittedState be a key s) =
     (case objv be s a of None \<Rightarrow> 0 | Some obj \<Rightarrow> the ((so_originStorage obj ++ so_pendingStorage obj) key))"
  "fst (db_GetState be a key s) =
     (case objv be s a of None \<Rightarrow> 0 | Some obj \<Rightarrow>
        the ((so_originStorage obj ++ so_pendingStorage obj ++ so_dirtyStorage obj) key))"
  unfolding getters_peek objv_def
  by (simp_all add: canon_simps committed_value_canon map_add_def track_simps split: option.split)

lemma same_account_shown:
  assumes "shown be s a = shown be t a"
  shows "same_account be a s t"
proof -
  have "(objv be s a = None \<and> objv be t a = None) \<or> (\<exists>obj obj'. objv be s a = Some obj \<and> objv be t a = Some obj' \<and>
      obj\<lparr>so_newContract := False\<rparr> = obj'\<lparr>so_newContract := False\<rparr>)"
    using assms unfolding shown_def by (cases "objv be s a"; cases "objv be t a") auto
  then show ?thesis
  proof
    assume "\<exists>obj obj'. objv be s a = Some obj \<and> objv be t a = Some obj' \<and>
      obj\<lparr>so_newContract := False\<rparr> = obj'\<lparr>so_newContract := False\<rparr>"
    then obtain obj obj' where o: "objv be s a = Some obj" "objv be t a = Some obj'"
      "obj\<lparr>so_newContract := False\<rparr> = obj'\<lparr>so_newContract := False\<rparr>" by blast
    then show ?thesis
      unfolding same_account_def getters_objv by (cases obj, cases obj') simp
  qed (simp add: same_account_def getters_objv)
qed

lemma entry_revert_frame:
  assumes "entry_revert be e s = Some s'" "dirtied e \<noteq> Some a"
  shows "shown be s' a = shown be s a"
proof (cases e)
  case (createContractChange b)
  then obtain obj where o: "peek be s b = Some obj"
    "s' = setStateObject b (obj\<lparr>so_newContract := False\<rparr>) (loaded be b s)"
    using assms(1) by (auto simp: on_object_eq)
  then show ?thesis
    using objv_peek [OF o(1)]
    by (simp add: shown_def track_simps o(2) obj_canon_def obj_setters)
next
  case (accessListAddSlotChange b slot)
  with assms show ?thesis by (auto simp: shown_def track_simps)
next
  case (selfDestructChange b)
  with assms show ?thesis
    by (auto simp: shown_def getStateObject_peek track_simps split: option.splits)
next
  case (createObjectChange b)
  with assms show ?thesis
    by (auto simp: shown_def objv_def peek_def destructed_def)
qed (use assms in \<open>auto simp: shown_def on_object_eq track_simps split: if_splits\<close>)

lemma revert_entries_frame:
  assumes "revert_entries be es s = Some t" "\<forall>e \<in> set es. dirtied e \<noteq> Some a"
  shows "shown be t a = shown be s a"
  using assms
proof (induction es arbitrary: s)
  case (Cons e es)
  then obtain u where u: "entry_revert be e s = Some u"
    "revert_entries be es (u\<lparr>db_journal := (db_journal u)\<lparr>jr_dirties :=
       count_dirty (- 1) e (jr_dirties (db_journal u))\<rparr>\<rparr>) = Some t"
    by (auto simp: Let_def split: option.splits)
  then show ?case
    using Cons.IH [OF u(2)] entry_revert_frame [OF u(1), of a] Cons.prems(2)
    by (simp add: shown_def track_simps)
qed simp

lemma shown_unmarked:
  assumes "db_ok be s" "db_journal s = newJournal"
    and "db_execs be calls s = Some s'" "calls_ok be 0 calls s"
    and "jr_dirties (db_journal s') a = 0"
  shows "shown be s' a = shown be s a"
proof -
  have st: "stack s = ([], [], 0)" using assms(2) by (simp add: stack_def newJournal_def)
  have "reached be s 0 s" using assms(1) revs_ok_newJournal [OF assms(2)] st by (intro reached_self) simp_all
  from reached_execs [OF assms(3, 4) this] obtain es where u: "undoable be s s' es"
    and m: "\<forall>a. count_marks a es \<le> jr_dirties (db_journal s') a"
    unfolding reached_def st using assms(2) by (auto simp: newJournal_def)
  from u [unfolded undoable_def, rule_format, of 0] obtain t where
    t: "revert_entries be (rev es) s' = Some t" "sim be t s" by auto
  have "\<forall>e \<in> set es. dirtied e \<noteq> Some a"
    using m [rule_format, of a] assms(5) by (simp add: count_marks_def filter_empty_conv)
  then have "shown be t a = shown be s' a" using revert_entries_frame [OF t(1), of a] by simp
  then show ?thesis using t(2) by (simp add: shown_def sim_def)
qed

section \<open>Properties\<close>

text \<open>
  C1: \<open>RevertToSnapshot\<close> returns the state to the snapshot. Take a well-formed state, a snapshot of it,
  and any calls after it, with nested snapshots and reverts among them, under three conditions
  (\<open>calls_ok\<close>): \<open>SetCode\<close> is called on accounts that are absent, have no code or have their code loaded
  (transaction processing and contract creation read the code or its hash first; otherwise the code
  is lost, as \<open>set_code_loses_unloaded_code\<close> of \<open>Statedb_Commit\<close> shows), \<open>CreateAccount\<close> on absent accounts only (as its comment demands), and no
  revert goes back beyond the snapshot. Then the snapshot is still valid, reverting to it does not
  panic, every getter returns what it returned when the snapshot was taken, and the journal is the
  one of that moment, with its dirty accounts (up to the extra mark of the address \<open>ripemd\<close>).
\<close>

theorem revert_to_snapshot_restores:
  assumes "db_ok be s" "revs_ok s" "db_Snapshot s = (revid, s1)"
    and "db_execs be calls s1 = Some s2" "calls_ok be (revid + 1) calls s1"
  shows "\<exists>s3. db_RevertToSnapshot be revid s2 = Some s3 \<and> same_reads be s3 s \<and>
    jr_entries (db_journal s3) = jr_entries (db_journal s) \<and>
    jr_validRevisions (db_journal s3) = jr_validRevisions (db_journal s) \<and>
    (\<forall>a. a \<noteq> ripemd \<longrightarrow> jr_dirties (db_journal s3) a = jr_dirties (db_journal s) a)"
proof -
  obtain es0 revs0 m where st: "stack s = (es0, revs0, m)" by (metis prod_cases3)
  have st1: "stack s1 = (es0, revs0 @ [(m, length es0)], Suc m)" and revid: "revid = m"
    and sim1: "sim be s1 s"
    using assms(3) st by (auto simp: db_Snapshot_def Let_def stack_journal stack_sel silent_journal)
  have "db_ok be s1" using assms(1) db_ok_sim [OF sim1] by blast
  moreover have ok1: "revs_ok s1" "\<forall>p \<in> set (fst (snd (stack s1))). fst p < revid + 1"
    using assms(2) unfolding revs_ok_def st st1 revid by (auto simp: sorted_wrt_append less_Suc_eq)
  ultimately have "reached be s1 (revid + 1) s1" by (intro reached_self)
  from reached_execs [OF assms(4, 5) this] obtain es revs where
    r: "fst (stack s2) = es0 @ es" "fst (snd (stack s2)) = revs0 @ (m, length es0) # revs" "revs_ok s2"
    and u: "undoable be s1 s2 es"
    unfolding reached_def st1 by auto
  have st2: "stack s2 = (es0 @ es, revs0 @ (m, length es0) # revs, snd (snd (stack s2)))"
    using r by (simp add: prod_eq_iff)
  from u [unfolded undoable_def, rule_format, of 0] obtain t where
    t: "revert_entries be (rev es) s2 = Some t" "sim be t s1" by auto
  let ?s3 = "t\<lparr>db_journal := (db_journal t)\<lparr>jr_entries := es0, jr_validRevisions := revs0\<rparr>\<rparr>"
  have "db_RevertToSnapshot be revid s2 = Some ?s3"
    using RevertToSnapshot_eq [OF st2] r(3) t(1) unfolding revid revs_ok_def by (subst (asm) st2) simp
  moreover have "sim be ?s3 s"
    using sim_trans [OF silent_journal sim_trans [OF t(2) sim1]] by simp
  then have "same_reads be ?s3 s" "\<forall>a. a \<noteq> ripemd \<longrightarrow> jr_dirties (db_journal ?s3) a = jr_dirties (db_journal s) a"
    by (simp_all add: same_reads_sim) (simp add: sim_def)
  moreover have "jr_entries (db_journal s) = es0" "jr_validRevisions (db_journal s) = revs0"
    using st by (simp_all add: stack_sel)
  ultimately show ?thesis by auto
qed


lemma sample_reader_code: "code_addressed sample_reader"
  by (simp add: code_addressed_def sample_reader_def)

lemma not_None: "\<not> Option.is_none x \<Longrightarrow> \<exists>y. x = Some y"
  by (cases x) simp_all

theorem revert_to_snapshot_restores_witness:
  "\<exists>s2 s3. db_execs sample_reader
       [Call_Snapshot, Call_SetState 5 1 3, Call_RevertToSnapshot 1, Call_SubBalance 5 40]
       (snd (db_Snapshot NewWithReader)) = Some s2 \<and>
     db_RevertToSnapshot sample_reader 0 s2 = Some s3 \<and> fst (db_GetBalance sample_reader 5 s3) = 100"
proof -
  let ?calls = "[Call_Snapshot, Call_SetState 5 1 3, Call_RevertToSnapshot 1, Call_SubBalance 5 40]"
  let ?s = "snd (db_Snapshot NewWithReader)"
  have "\<not> Option.is_none (db_execs sample_reader ?calls ?s)" "calls_ok sample_reader 1 ?calls ?s"
    by code_simp+
  moreover from this obtain s2 where s2: "db_execs sample_reader ?calls ?s = Some s2"
    using not_None by blast
  moreover have "db_Snapshot NewWithReader = (0, ?s)" "revs_ok NewWithReader"
    by (simp_all add: db_Snapshot_def NewWithReader_def newJournal_def revs_ok_def stack_def Let_def)
  ultimately obtain s3 where s3: "db_RevertToSnapshot sample_reader 0 s2 = Some s3"
    "same_reads sample_reader s3 NewWithReader"
    using revert_to_snapshot_restores [OF db_ok_NewWithReader [OF sample_reader_code] _ _ s2, of 0] by auto
  then have "fst (db_GetBalance sample_reader 5 s3) = fst (db_GetBalance sample_reader 5 NewWithReader)"
    unfolding same_reads_def by blast
  also have "\<dots> = 100" by code_simp
  finally show ?thesis using s2 s3(1) by blast
qed

text \<open>
  C18: The dirty marks are complete. Take a well-formed state with an empty journal and calls that set
  code only on accounts that are absent, have no code or have their code loaded, and create only
  absent accounts. An account that has no dirty mark after them reads as before: its existence,
  balance, nonce, code, storage and self-destruct flag, so \<open>Finalise\<close>, which visits the marked
  accounts only, loses no change.
\<close>

theorem unmarked_accounts_unchanged:
  assumes "db_ok be s" "db_journal s = newJournal"
    and "db_execs be calls s = Some s'" "calls_ok be 0 calls s"
    and "jr_dirties (db_journal s') a = 0"
  shows "same_account be a s' s"
  using shown_unmarked [OF assms] by (rule same_account_shown)


theorem unmarked_accounts_unchanged_witness:
  "\<exists>s'. db_execs sample_reader [Call_AddBalance 6 10, Call_Snapshot, Call_SetNonce 5 2, Call_RevertToSnapshot 0]
     NewWithReader = Some s' \<and> same_account sample_reader 5 s' NewWithReader"
proof -
  let ?calls = "[Call_AddBalance 6 10, Call_Snapshot, Call_SetNonce 5 2, Call_RevertToSnapshot 0]"
  have e: "map_option (\<lambda>s. jr_dirties (db_journal s) 5) (db_execs sample_reader ?calls NewWithReader) = Some 0"
    "calls_ok sample_reader 0 ?calls NewWithReader"
    by code_simp+
  then obtain s' where s': "db_execs sample_reader ?calls NewWithReader = Some s'"
    "jr_dirties (db_journal s') 5 = 0" by (auto simp: map_option_eq_Some)
  have "same_account sample_reader 5 s' NewWithReader"
    using e(2) s'(2)
    by (intro unmarked_accounts_unchanged [OF db_ok_NewWithReader [OF sample_reader_code] _ s'(1)])
      (simp_all add: NewWithReader_def)
  with s'(1) show ?thesis by blast
qed

end
