(* ===== verification/Statedb_Commit.thy ===== *)
theory Statedb_Commit
  imports State Statedb_Revert
begin

text \<open>
  The journaled state over the transactions of a block: the well-formedness of the state, what
  \<open>Finalise\<close> keeps and deletes, the storage slots that are written back, and the balances as a
  ledger in the sense of the theory \<open>State\<close>.
\<close>

section \<open>The transactions of a block\<close>

text \<open>
  A transaction sets its context, makes calls (the purchase of gas), prepares the access list,
  makes the calls of its execution and is finalised.
\<close>

inductive block_state :: "backend \<Rightarrow> StateDB \<Rightarrow> bool" for be where
  block_start: "block_state be NewWithReader"
| block_tx: "block_state be s \<Longrightarrow>
    db_execs be pre (SetTxContext thash ti s) = Some s1 \<Longrightarrow>
    calls_ok be 0 pre (SetTxContext thash ti s) \<Longrightarrow>
    db_Prepare rules sender coinbase dst precompiles list s1 = Some s2 \<Longrightarrow>
    db_execs be calls s2 = Some s3 \<Longrightarrow>
    calls_ok be (jr_nextRevisionId (db_journal s2)) calls s2 \<Longrightarrow>
    block_state be (db_Finalise be deleteEmptyObjects s3)"

section \<open>The state as a ledger\<close>

text \<open>What the operations of the theory \<open>State\<close> see of a journaled state.\<close>

definition ledger_view :: "backend \<Rightarrow> StateDB \<Rightarrow> hash statedb" where
  "ledger_view be s =
     \<lparr>balances = (\<lambda>a. fst (db_GetBalance be a s)), storage = (\<lambda>a key. fst (db_GetState be a key s))\<rparr>"

text \<open>The reader has no storage for an account it does not have.\<close>

definition storage_of_accounts :: "backend \<Rightarrow> bool" where
  "storage_of_accounts be \<longleftrightarrow> (\<forall>a key. be_Account be a = None \<longrightarrow> be_Storage be a key = 0)"

text \<open>The value of a slot of an object that may be absent.\<close>

definition slot_value :: "backend \<Rightarrow> bool \<Rightarrow> address \<Rightarrow> stateObject option \<Rightarrow> hash \<Rightarrow> hash" where
  "slot_value be d a so key =
     (case so of
        None \<Rightarrow> 0
      | Some obj \<Rightarrow>
          (case so_dirtyStorage obj key of
             Some v \<Rightarrow> v
           | None \<Rightarrow> (case so_pendingStorage obj key of Some v \<Rightarrow> v | None \<Rightarrow> origin_value be d a obj key)))"

section \<open>Preparing and finalising\<close>

lemma al_ok_prepare: "al_ok (prepare_accessList rules sender coinbase dst precompiles list)"
proof -
  have addresses: "al_ok (fold (\<lambda>a al. snd (al_AddAddress a al)) as al)" if "al_ok al" for as al
    using that by (induction as arbitrary: al) (simp_all add: al_ok_AddAddress)
  have slots: "al_ok (fold (\<lambda>key al. snd (al_AddSlot a key al)) keys al)" if "al_ok al" for a keys al
    using that by (induction keys arbitrary: al) (simp_all add: al_ok_AddSlot)
  have tuples: "al_ok (fold (\<lambda>(a, keys) al. fold (\<lambda>key al. snd (al_AddSlot a key al)) keys
      (snd (al_AddAddress a al))) ts al)" if "al_ok al" for ts al
    using that by (induction ts arbitrary: al) (auto simp: al_ok_AddAddress slots)
  show ?thesis
    unfolding prepare_accessList_def Let_def
    by (auto intro!: tuples addresses al_ok_AddAddress split: option.split)
qed

lemma db_ok_Prepare:
  assumes "db_ok be s" "db_Prepare rules sender coinbase dst precompiles list s = Some s'"
  shows "db_ok be s'" "stack s' = stack s"
proof -
  have "al_ok (db_accessList s)" using assms(1) by (simp add: db_ok_def)
  with assms(2) show "db_ok be s'"
    by (intro db_ok_field [OF assms(1)]) (auto simp: db_Prepare_def al_ok_prepare Let_def split: if_splits)
  show "stack s' = stack s" using assms(2) by (auto simp: db_Prepare_def stack_def Let_def split: if_splits)
qed

lemma db_ok_SetTxContext: "db_ok be s \<Longrightarrow> db_ok be (SetTxContext thash ti s)"
  by (rule db_ok_field) (simp_all add: SetTxContext_def db_ok_def)

lemma finalise_selectors:
  "db_objects (db_Finalise be del s) a =
     (case db_objects s a of
        None \<Rightarrow> None
      | Some obj \<Rightarrow>
          if jr_dirties (db_journal s) a = 0 then Some obj
          else if fin_deletes be del obj then None else Some (obj_finalise be s a obj))"
  "destructed (db_Finalise be del s) a \<longleftrightarrow>
     destructed s a \<or> (\<exists>obj. db_objects s a = Some obj \<and> jr_dirties (db_journal s) a \<noteq> 0 \<and> fin_deletes be del obj)"
  "db_accessList (db_Finalise be del s) = db_accessList s"
  "db_transient (db_Finalise be del s) = db_transient s"
  "db_journal (db_Finalise be del s) = newJournal"
  "db_refund (db_Finalise be del s) = 0"
  by (auto simp: db_Finalise_def clearJournalAndRefund_def destructed_def Let_def split: option.splits)

lemma peek_Finalise:
  "peek be (db_Finalise be del s) a =
     (case db_objects s a of
        None \<Rightarrow> peek be s a
      | Some obj \<Rightarrow>
          if jr_dirties (db_journal s) a = 0 then Some obj
          else if fin_deletes be del obj then None else Some (obj_finalise be s a obj))"
  by (auto simp: peek_def finalise_selectors split: option.splits)

text \<open>An object after \<open>finalise\<close>, with its caches filled.\<close>

lemma origin_value_finalise:
  "origin_value be (destructed s a) a (obj_finalise be s a obj) = origin_value be (destructed s a) a obj"
  by (auto simp: fun_eq_iff origin_value_def obj_finalise_def committed_value_def destructed_def split: option.splits)

lemma canon_finalise:
  "obj_canon be (destructed s a) a (obj_finalise be s a obj) =
     (obj_canon be (destructed s a) a obj)
       \<lparr>so_uncommittedStorage := so_uncommittedStorage (obj_finalise be s a obj),
        so_pendingStorage := so_pendingStorage obj ++ so_dirtyStorage obj,
        so_dirtyStorage := Map.empty, so_newContract := False\<rparr>"
  unfolding obj_canon_def origin_value_finalise
  by (simp add: obj_finalise_def obj_Code_def Let_def)

lemma tracked_finalise:
  assumes "obj_ok be (obj_canon be (destructed s a) a obj)"
  shows "tracked_slot (so_uncommittedStorage (obj_finalise be s a obj) key)
    ((so_pendingStorage obj ++ so_dirtyStorage obj) key) (Some (origin_value be (destructed s a) a obj key))"
proof -
  have t: "tracked_slot (so_uncommittedStorage obj key) (so_pendingStorage obj key)
      (Some (origin_value be (destructed s a) a obj key))"
    and d: "so_dirtyStorage obj key \<noteq> Some (committed_value be s a obj key)"
    using assms by (simp_all add: obj_ok_canon)
  show ?thesis
    using t d
    by (auto simp: tracked_slot_def obj_finalise_def committed_value_canon map_add_def split: option.splits)
qed

lemma obj_ok_finalise:
  assumes "obj_ok be (obj_canon be (destructed s a) a obj)"
  shows "obj_ok be (obj_canon be (destructed s a) a (obj_finalise be s a obj))"
  using assms tracked_finalise [OF assms] unfolding canon_finalise
  by (simp add: obj_ok_def canon_simps)

lemma db_ok_Finalise:
  assumes "db_ok be s"
  shows "db_ok be (db_Finalise be del s)"
proof -
  let ?t = "db_Finalise be del s"
  have "obj_ok be obj \<and> so_originStorage obj = (\<lambda>key. Some (base_value be (destructed ?t a) a key)) \<and>
      so_origin obj = base_account be (destructed ?t a) a"
    if "objv be ?t a = Some obj" for a obj
  proof -
    obtain o1 where o1: "peek be ?t a = Some o1" "obj = obj_canon be (destructed ?t a) a o1"
      using \<open>objv be ?t a = Some obj\<close> by (auto simp: objv_def)
    obtain o0 where o0: "peek be s a = Some o0" "o1 = o0 \<or> o1 = obj_finalise be s a o0"
      and d: "destructed ?t a = destructed s a"
      using o1(1) by (auto simp: peek_Finalise finalise_selectors peek_def split: option.splits if_splits)
    have ok: "obj_ok be (obj_canon be (destructed s a) a o0)"
      "origin_value be (destructed s a) a o0 = base_value be (destructed s a) a"
      "so_origin o0 = base_account be (destructed s a) a"
      using db_ok_objv [OF assms] db_ok_base [OF assms] objv_peek [OF o0(1)]
      by (force simp: canon_simps fun_eq_iff obj_canon_def)+
    moreover have "so_origin (obj_canon be d a o0) = so_origin o0"
      "so_origin (obj_canon be d a (obj_finalise be s a o0)) = so_origin o0" for d
      by (simp_all add: obj_canon_def obj_finalise_def)
    ultimately show ?thesis
      using o0(2) obj_ok_finalise [OF ok(1)] unfolding o1(2) d
      by (auto simp: canon_simps origin_value_finalise)
  qed
  then show ?thesis using assms by (simp add: db_ok_def finalise_selectors)
qed

lemma block_state_ok:
  assumes "block_state be s" "code_addressed be"
  shows "db_ok be s \<and> db_journal s = newJournal \<and> db_refund s = 0"
  using assms
proof (induction rule: block_state.induct)
  case block_start
  then show ?case using db_ok_NewWithReader by (simp add: NewWithReader_def)
next
  case (block_tx s pre thash ti s1 rules sender coinbase dst precompiles list s2 calls s3 del)
  let ?s = "SetTxContext thash ti s"
  have j: "db_journal ?s = newJournal" using block_tx by (simp add: SetTxContext_def)
  have "reached be ?s 0 ?s"
    using block_tx revs_ok_newJournal [OF j] j db_ok_SetTxContext
    by (intro reached_self) (auto simp: stack_def newJournal_def)
  from reached_execs [OF block_tx.hyps(2, 3) this] have r1: "reached be ?s 0 s1" .
  have s2: "db_ok be s2" "stack s2 = stack s1"
    using db_ok_Prepare [OF reached_ok [OF r1] block_tx.hyps(4)] by blast+
  then have "revs_ok s2" using r1 by (simp add: reached_def revs_ok_def)
  with s2(1) have "reached be s2 (jr_nextRevisionId (db_journal s2)) s2"
    by (intro reached_self) (auto simp: revs_ok_def stack_sel dest: bspec)
  from reached_ok [OF reached_execs [OF block_tx.hyps(5, 6) this]] have "db_ok be s3" .
  then show ?case by (simp add: db_ok_Finalise finalise_selectors)
qed


section \<open>Balances and storage as a ledger\<close>

lemma destructed_touch: "destructed (touch a s) = destructed s"
  by (auto simp: destructed_def touch_def j_dirty_def j_append_def Let_def)

lemma peek_simps:
  "peek be (recordRead a s) = peek be s"
  "peek be (recordWrite a s) = peek be s"
  "peek be (recordStorageRead a key v s) = peek be s"
  "peek be (recordStorageWrite a key v s) = peek be s"
  "peek be (j_append e s) = peek be s"
  "peek be (touch a s) = peek be s"
  "peek be (setStateObject a obj s) = (peek be s)(a \<mapsto> obj)"
  by (rule ext, simp add: peek_def track_simps destructed_touch objects_touch)+

lemma peek_loaded [simp]: "peek be (loaded be a s) = peek be s"
  using loaded_cases [of be a s] by (auto simp: peek_simps fun_eq_iff)

lemma peek_journal: "peek be (s\<lparr>db_journal := j\<rparr>) = peek be s"
proof -
  have "destructed (s\<lparr>db_journal := j\<rparr>) = destructed s" by (simp add: destructed_def fun_eq_iff)
  then show ?thesis by (intro ext) (simp add: peek_def)
qed

lemma getOrNew_peek:
  "getOrNewStateObject be a (recordWrite a s) = (obj, s') \<Longrightarrow>
     obj = (case peek be s a of None \<Rightarrow> newObject be None | Some obj \<Rightarrow> obj) \<and>
     peek be s' = (peek be s)(a \<mapsto> obj) \<and> destructed s' = destructed s"
  by (auto simp: getOrNewStateObject_def getStateObject_peek createObject_eq peek_simps track_simps
      split: option.splits)

lemma GetState_slot: "fst (db_GetState be a key s) = slot_value be (destructed s a) a (peek be s a) key"
  by (simp add: getters_peek slot_value_def committed_value_canon track_simps split: option.split)

lemma slot_value_new:
  assumes "storage_of_accounts be" "peek be s a = None"
  shows "slot_value be (destructed s a) a (Some (newObject be None)) key = 0"
  using assms
  by (auto simp: slot_value_def newObject_def origin_value_def storage_of_accounts_def peek_def split: option.splits)

lemma slot_value_setBalance [simp]:
  "slot_value be d a (Some (obj_setBalance v obj)) = slot_value be d a (Some obj)"
  by (simp add: fun_eq_iff slot_value_def obj_setters split: option.split)

lemma balance_update:
  assumes "peek be s' = (peek be s)(a \<mapsto> obj')"
  shows "fst (db_GetBalance be b s') = (if b = a then ac_Balance (so_data obj') else fst (db_GetBalance be b s))"
  using assms by (simp add: getters_peek)

lemma view_update:
  assumes "storage_of_accounts be" "peek be s' = (peek be s)(a \<mapsto> obj')" "destructed s' = destructed s"
    and "obj = (case peek be s a of None \<Rightarrow> newObject be None | Some obj \<Rightarrow> obj)"
    and "slot_value be (destructed s a) a (Some obj') = (slot_value be (destructed s a) a (Some obj))(key := v)"
  shows "ledger_view be s' =
    SetState a key v ((ledger_view be s)\<lparr>balances := (balances (ledger_view be s))(a := ac_Balance (so_data obj'))\<rparr>)"
  using assms slot_value_new [OF assms(1), of s a]
  by (auto simp: ledger_view_def balance_update SetState_def GetState_slot fun_eq_iff slot_value_def [of be _ a None]
      split: option.splits)

lemma view_balance:
  "obj = (case peek be s a of None \<Rightarrow> newObject be None | Some obj \<Rightarrow> obj) \<Longrightarrow>
     balances (ledger_view be s) a = ac_Balance (so_data obj)"
  by (simp add: ledger_view_def getters_peek newObject_def NewEmptyStateAccount_def split: option.split)

text \<open>The object after each of the three operations.\<close>

lemma AddBalance_peek:
  assumes "obj = (case peek be s a of None \<Rightarrow> newObject be None | Some obj \<Rightarrow> obj)"
  shows "peek be (snd (db_AddBalance be a v s)) = (peek be s)(a \<mapsto> obj_setBalance (ac_Balance (so_data obj) + v) obj)"
    "destructed (snd (db_AddBalance be a v s)) = destructed s"
proof -
  obtain o' s1 where g: "getOrNewStateObject be a (recordWrite a s) = (o', s1)"
    by (metis prod.collapse)
  have "obj_setBalance (ac_Balance (so_data obj)) obj = obj" for obj by (simp add: obj_setBalance_def)
  then show "peek be (snd (db_AddBalance be a v s)) = (peek be s)(a \<mapsto> obj_setBalance (ac_Balance (so_data obj) + v) obj)"
    "destructed (snd (db_AddBalance be a v s)) = destructed s"
    using getOrNew_peek [OF g] assms
    by (auto simp: db_AddBalance_def g obj_AddBalance_def obj_SetBalance_def peek_simps track_simps
        destructed_touch Let_def)
qed

lemma SubBalance_peek:
  assumes "obj = (case peek be s a of None \<Rightarrow> newObject be None | Some obj \<Rightarrow> obj)"
  shows "peek be (snd (db_SubBalance be a v s)) = (peek be s)(a \<mapsto> obj_setBalance (ac_Balance (so_data obj) - v) obj)"
    "destructed (snd (db_SubBalance be a v s)) = destructed s"
proof -
  obtain o' s1 where g: "getOrNewStateObject be a (recordWrite a s) = (o', s1)"
    by (metis prod.collapse)
  have "obj_setBalance (ac_Balance (so_data obj)) obj = obj" for obj by (simp add: obj_setBalance_def)
  then show "peek be (snd (db_SubBalance be a v s)) = (peek be s)(a \<mapsto> obj_setBalance (ac_Balance (so_data obj) - v) obj)"
    "destructed (snd (db_SubBalance be a v s)) = destructed s"
    using getOrNew_peek [OF g] assms
    by (auto simp: db_SubBalance_def g obj_SetBalance_def peek_simps track_simps Let_def)
qed

lemma view_AddBalance:
  assumes "storage_of_accounts be"
  shows "ledger_view be (snd (db_AddBalance be a v s)) = AddBalance a v (ledger_view be s)"
proof -
  define obj where obj: "obj = (case peek be s a of None \<Rightarrow> newObject be None | Some obj \<Rightarrow> obj)"
  have "slot_value be (destructed s a) a (Some (obj_setBalance (ac_Balance (so_data obj) + v) obj)) =
      (slot_value be (destructed s a) a (Some obj))(0 := slot_value be (destructed s a) a (Some obj) 0)"
    by simp
  note u = view_update [OF assms AddBalance_peek [OF obj] obj this]
  have "storage (ledger_view be s) a 0 = slot_value be (destructed s a) a (Some obj) 0"
    using slot_value_new [OF assms, of s a]
    by (simp add: obj ledger_view_def GetState_slot slot_value_def [of be _ a None] split: option.split)
  then show ?thesis
    unfolding u using view_balance [OF obj]
    by (auto simp: AddBalance_def SetState_def obj_setters fun_upd_idem)
qed

lemma view_SubBalance:
  assumes "storage_of_accounts be"
  shows "ledger_view be (snd (db_SubBalance be a v s)) = SubBalance a v (ledger_view be s)"
proof -
  define obj where obj: "obj = (case peek be s a of None \<Rightarrow> newObject be None | Some obj \<Rightarrow> obj)"
  have "slot_value be (destructed s a) a (Some (obj_setBalance (ac_Balance (so_data obj) - v) obj)) =
      (slot_value be (destructed s a) a (Some obj))(0 := slot_value be (destructed s a) a (Some obj) 0)"
    by simp
  note u = view_update [OF assms SubBalance_peek [OF obj] obj this]
  have "storage (ledger_view be s) a 0 = slot_value be (destructed s a) a (Some obj) 0"
    using slot_value_new [OF assms, of s a]
    by (simp add: obj ledger_view_def GetState_slot slot_value_def [of be _ a None] split: option.split)
  then show ?thesis
    unfolding u using view_balance [OF obj]
    by (auto simp: SubBalance_def SetState_def obj_setters fun_upd_idem)
qed

lemma slot_value_canon:
  "obj_canon be d a obj = obj_canon be d a obj' \<Longrightarrow> slot_value be d a (Some obj) = slot_value be d a (Some obj')"
  by (simp add: fun_eq_iff slot_value_def obj_canon_eq split: option.split)

lemma SetState_peek:
  assumes "obj = (case peek be s a of None \<Rightarrow> newObject be None | Some obj \<Rightarrow> obj)"
  shows "\<exists>obj'. peek be (snd (db_SetState be a key v s)) = (peek be s)(a \<mapsto> obj') \<and>
    destructed (snd (db_SetState be a key v s)) = destructed s \<and> so_data obj' = so_data obj \<and>
    slot_value be (destructed s a) a (Some obj') = (slot_value be (destructed s a) a (Some obj))(key := v)"
proof -
  obtain o' s1 where g: "getOrNewStateObject be a (recordWrite a s) = (o', s1)"
    by (metis prod.collapse)
  have p: "o' = obj" "peek be s1 = (peek be s)(a \<mapsto> obj)" "destructed s1 = destructed s"
    using getOrNew_peek [OF g] assms by simp_all
  obtain prev orig o1 s2 where st: "obj_getState be a key (obj, s1) = ((prev, orig), o1, s2)"
    by (metis prod.collapse)
  note l = getState_loads [OF st]
  let ?d = "destructed s a"
  have canon: "obj_canon be ?d a o1 = obj_canon be ?d a obj" using l(6) p(3) by simp
  have data: "so_data o1 = so_data obj" using canon by (simp add: obj_canon_eq)
  have prev: "prev = slot_value be ?d a (Some obj) key"
    using l(1, 2) p(3) by (simp add: slot_value_def committed_value_canon split: option.split)
  have peek2: "peek be s2 = peek be s1"
    by (rule ext) (simp add: peek_def l(4, 5))
  show ?thesis
  proof (cases "prev = v")
    case True
    then show ?thesis
      using canon data prev slot_value_canon [OF canon] l(5) p peek2
      by (auto simp: db_SetState_def g p(1) obj_SetState_def st peek_simps track_simps fun_upd_idem intro!: exI [of _ o1])
  next
    case False
    have "slot_value be ?d a (Some (obj_setState key v orig o1)) = (slot_value be ?d a (Some o1))(key := v)"
      using l(1) canon p(3)
      by (auto simp: fun_eq_iff slot_value_def obj_setters committed_value_canon obj_canon_eq split: option.splits)
    then show ?thesis
      using False data slot_value_canon [OF canon] l(5) p peek2
      by (auto simp: db_SetState_def g p(1) obj_SetState_def st peek_simps track_simps Let_def setter_sels
          intro!: exI [of _ "obj_setState key v orig o1"])
  qed
qed

lemma view_SetState:
  assumes "storage_of_accounts be"
  shows "ledger_view be (snd (db_SetState be a key v s)) = SetState a key v (ledger_view be s)"
proof -
  define obj where obj: "obj = (case peek be s a of None \<Rightarrow> newObject be None | Some obj \<Rightarrow> obj)"
  obtain obj' where o': "peek be (snd (db_SetState be a key v s)) = (peek be s)(a \<mapsto> obj')"
    "destructed (snd (db_SetState be a key v s)) = destructed s" "so_data obj' = so_data obj"
    "slot_value be (destructed s a) a (Some obj') = (slot_value be (destructed s a) a (Some obj))(key := v)"
    using SetState_peek [OF obj] by blast
  show ?thesis
    unfolding view_update [OF assms o'(1, 2) obj o'(4)] using view_balance [OF obj] o'(3)
    by (simp add: fun_upd_idem)
qed

interpretation sdb: debit_ledger "\<lambda>a v s. snd (db_AddBalance be a v s)" "\<lambda>s a. fst (db_GetBalance be a s)"
  "\<lambda>a v s. snd (db_SubBalance be a v s)"
  for be
proof unfold_locales
  have b: "fst (db_GetBalance be a s) = ac_Balance (so_data (case peek be s a of None \<Rightarrow> newObject be None | Some obj \<Rightarrow> obj))"
    for a s
    by (simp add: getters_peek newObject_def NewEmptyStateAccount_def split: option.split)
  show "fst (db_GetBalance be b (snd (db_AddBalance be a v s))) =
      (if b = a then fst (db_GetBalance be b s) + v else fst (db_GetBalance be b s))" for a v s b
    by (simp add: balance_update [OF AddBalance_peek(1) [OF refl]] setter_sels b)
  show "fst (db_GetBalance be b (snd (db_SubBalance be a v s))) =
      (if b = a then fst (db_GetBalance be b s) - v else fst (db_GetBalance be b s))" for a v s b
    by (simp add: balance_update [OF SubBalance_peek(1) [OF refl]] setter_sels b)
qed


section \<open>Written slots\<close>

lemma updateTrie_committed:
  assumes "db_ok be s" "db_objects s a = Some obj"
  shows "snd (obj_updateTrie obj (base_value be (destructed s a) a)) = committed_value be s a obj"
proof
  fix key
  have ok: "obj_ok be (obj_canon be (destructed s a) a obj)" using assms by (rule db_ok_objects)
  have base: "origin_value be (destructed s a) a obj = base_value be (destructed s a) a"
    using db_ok_base [OF assms(1) objv_objects [OF assms(2)]] by (simp add: canon_simps fun_eq_iff)
  have "tracked_slot (so_uncommittedStorage obj key) (so_pendingStorage obj key)
      (Some (base_value be (destructed s a) a key))"
    using ok base by (simp add: obj_ok_canon)
  then show "snd (obj_updateTrie obj (base_value be (destructed s a) a)) key = committed_value be s a obj key"
    by (auto simp: obj_updateTrie_def tracked_slot_def committed_value_canon base split: option.splits)
qed

lemma commitStorage_committed:
  assumes "db_ok be s" "db_objects s a = Some obj"
    "\<forall>key. so_pendingStorage obj key \<noteq> None \<longrightarrow> so_originStorage obj key \<noteq> None"
  shows "fst (snd (obj_commitStorage obj)) key =
    (if committed_value be s a obj key = base_value be (destructed s a) a key then None
     else Some (committed_value be s a obj key))"
proof -
  have base: "origin_value be (destructed s a) a obj = base_value be (destructed s a) a"
    using db_ok_base [OF assms(1) objv_objects [OF assms(2)]] by (simp add: canon_simps fun_eq_iff)
  show ?thesis
    using assms(3) [rule_format, of key] fun_cong [OF base, of key]
    by (cases "so_pendingStorage obj key"; cases "so_originStorage obj key")
      (simp_all add: obj_commitStorage_def committed_value_canon Let_def origin_value_def)
qed

section \<open>An example block\<close>

definition sample_rules :: prepare_rules where
  "sample_rules = \<lparr>pr_IsEIP2929 = True, pr_IsEIP4762 = False, pr_IsShanghai = True\<rparr>"

text \<open>The state after one transaction that pays 1 from account 5 and writes one of its slots.\<close>

definition sample_tx :: "StateDB option" where
  "sample_tx =
     Option.bind (db_execs sample_reader [Call_SubBalance 5 1] (SetTxContext 1 0 NewWithReader))
       (\<lambda>s. Option.bind (db_Prepare sample_rules 5 8 None [1] [] s)
          (db_execs sample_reader [Call_SetState 5 1 3]))"

lemma sample_block:
  "\<exists>s. sample_tx = Some s \<and> block_state sample_reader (db_Finalise sample_reader True s) \<and>
     (\<exists>obj. db_objects (db_Finalise sample_reader True s) 5 = Some obj)"
proof -
  have "(case sample_tx of None \<Rightarrow> False
      | Some s \<Rightarrow> \<not> Option.is_none (db_objects (db_Finalise sample_reader True s) 5))"
    by code_simp
  then obtain s obj where s: "sample_tx = Some s" "db_objects (db_Finalise sample_reader True s) 5 = Some obj"
    by (auto split: option.splits simp: is_none_simps dest: not_None)
  then obtain s1 s2 where r: "db_execs sample_reader [Call_SubBalance 5 1] (SetTxContext 1 0 NewWithReader) = Some s1"
    "db_Prepare sample_rules 5 8 None [1] [] s1 = Some s2"
    "db_execs sample_reader [Call_SetState 5 1 3] s2 = Some s"
    unfolding sample_tx_def bind_eq_Some_conv by blast
  have "block_state sample_reader (db_Finalise sample_reader True s)"
    by (rule block_tx [OF block_start r(1) _ r(2) r(3)]) (simp_all add: call_ok_def)
  with s show ?thesis by blast
qed

text \<open>\<open>Finalise\<close> at a marked account that it holds, and at every other account.\<close>

lemma finalise_marked:
  assumes "db_objects s a = Some obj" "jr_dirties (db_journal s) a \<noteq> 0"
  shows "if fin_deletes be del obj
    then \<not> fst (db_Exist be a (db_Finalise be del s)) \<and> fst (db_GetBalance be a (db_Finalise be del s)) = 0 \<and>
      fst (db_GetNonce be a (db_Finalise be del s)) = 0 \<and> fst (db_GetCode be a (db_Finalise be del s)) = [] \<and>
      (\<forall>key. fst (db_GetState be a key (db_Finalise be del s)) = 0)
    else same_account be a (db_Finalise be del s) s \<and>
      (\<forall>key. fst (db_GetCommittedState be a key (db_Finalise be del s)) = fst (db_GetState be a key s))"
proof (cases "fin_deletes be del obj")
  case True
  then have "peek be (db_Finalise be del s) a = None" using assms by (simp add: peek_Finalise)
  then show ?thesis using True by (simp add: getters_peek)
next
  case False
  let ?t = "db_Finalise be del s"
  have p: "peek be ?t a = Some (obj_finalise be s a obj)" "peek be s a = Some obj"
    using assms False by (simp_all add: peek_Finalise) (simp add: peek_def)
  have d: "destructed ?t a = destructed s a" using assms False by (simp add: finalise_selectors)
  have o: "objv be ?t a = Some (obj_canon be (destructed s a) a (obj_finalise be s a obj))"
    "objv be s a = Some (obj_canon be (destructed s a) a obj)"
    using objv_peek [OF p(1)] objv_peek [OF p(2)] d by simp_all
  show ?thesis
    using False unfolding same_account_def getters_objv o canon_finalise
    by (simp add: canon_simps map_add_assoc)
qed

lemma finalise_unmarked:
  assumes "db_objects s a = None \<or> jr_dirties (db_journal s) a = 0"
  shows "same_account be a (db_Finalise be del s) s \<and>
    (\<forall>key. fst (db_GetCommittedState be a key (db_Finalise be del s)) = fst (db_GetCommittedState be a key s))"
proof -
  let ?t = "db_Finalise be del s"
  have p: "peek be ?t a = peek be s a"
  proof (cases "db_objects s a")
    case (Some obj)
    then have "peek be s a = Some obj" by (simp add: peek_def)
    then show ?thesis using Some assms by (simp add: peek_Finalise)
  qed (simp add: peek_Finalise)
  have "destructed ?t a = destructed s a" using assms by (auto simp: finalise_selectors)
  then have "objv be ?t a = objv be s a" using p by (simp add: objv_def)
  then show ?thesis unfolding same_account_def getters_objv by simp
qed

section \<open>Properties\<close>

text \<open>
  C17: The journaled state implements the ledger of the theory \<open>State\<close>: seen through \<open>GetBalance\<close>
  and \<open>GetState\<close>, the operations \<open>AddBalance\<close>, \<open>SubBalance\<close> and \<open>SetState\<close> with their objects,
  caches and journal are the operations of that theory, for every reader that has no storage for
  accounts it does not have.
\<close>

theorem statedb_refines_ledger:
  assumes "storage_of_accounts be"
  shows "ledger_view be (snd (db_AddBalance be a v s)) = AddBalance a v (ledger_view be s) \<and>
    ledger_view be (snd (db_SubBalance be a v s)) = SubBalance a v (ledger_view be s) \<and>
    ledger_view be (snd (db_SetState be a key w s)) = SetState a key w (ledger_view be s)"
  using assms by (simp add: view_AddBalance view_SubBalance view_SetState)

theorem statedb_refines_ledger_witness:
  "ledger_view sample_reader (snd (db_AddBalance sample_reader 5 1 NewWithReader)) =
     AddBalance 5 1 (ledger_view sample_reader NewWithReader)"
  using statedb_refines_ledger [of sample_reader 5 1 NewWithReader]
  by (simp add: storage_of_accounts_def sample_reader_def)

text \<open>
  A transfer on the journaled state, \<open>SubBalance\<close> of the sender and \<open>AddBalance\<close> of the
  recipient, keeps the sum of all balances when the sender has the amount and the sum fits 256 bits.
\<close>

theorem statedb_transfer_conserves:
  assumes "uint v \<le> uint (fst (db_GetBalance be a s))"
    and "(\<Sum>b \<in> UNIV. uint (fst (db_GetBalance be b s))) < 2 ^ 256"
  shows "(\<Sum>b \<in> UNIV. uint (fst (db_GetBalance be b (snd (db_AddBalance be c v (snd (db_SubBalance be a v s))))))) =
    (\<Sum>b \<in> UNIV. uint (fst (db_GetBalance be b s)))"
  using assms by (rule sdb.total_transfer)

theorem statedb_transfer_conserves_witness:
  "(\<Sum>b \<in> UNIV. uint (fst (db_GetBalance sample_reader b
      (snd (db_AddBalance sample_reader 6 40 (snd (db_SubBalance sample_reader 5 40 NewWithReader))))))) =
    (\<Sum>b \<in> UNIV. uint (fst (db_GetBalance sample_reader b NewWithReader)))"
proof (rule statedb_transfer_conserves)
  have bal: "fst (db_GetBalance sample_reader b NewWithReader) = (if b = 5 then 100 else 0)" for b
    by (simp add: getters_peek peek_def NewWithReader_def sample_reader_def destructed_def newObject_def)
  show "uint (40 :: u256) \<le> uint (fst (db_GetBalance sample_reader 5 NewWithReader))"
    by (simp add: bal)
  have "(\<Sum>b \<in> UNIV. uint (fst (db_GetBalance sample_reader b NewWithReader))) =
      (\<Sum>b \<in> UNIV. if b = (5 :: address) then 100 else 0)"
    by (intro sum.cong) (simp_all add: bal)
  then show "(\<Sum>b \<in> UNIV. uint (fst (db_GetBalance sample_reader b NewWithReader))) < 2 ^ 256"
    by simp
qed

text \<open>
  C12: \<open>Finalise\<close> deletes exactly the marked accounts that are self-destructed or, when asked to,
  empty: such an account no longer exists, has no balance, nonce or code and all its slots are zero,
  whatever the database holds. Every other account, marked or not, reads as before; for a marked one
  the values just read are now the committed ones, for the others the committed values stay. The
  journal is empty afterwards and the refund zero.
\<close>

theorem finalise_reads:
  "db_journal (db_Finalise be del s) = newJournal \<and> db_refund (db_Finalise be del s) = 0 \<and>
   (case if jr_dirties (db_journal s) a = 0 then None else db_objects s a of
      None \<Rightarrow> same_account be a (db_Finalise be del s) s \<and>
        (\<forall>key. fst (db_GetCommittedState be a key (db_Finalise be del s)) = fst (db_GetCommittedState be a key s))
    | Some obj \<Rightarrow>
        if fin_deletes be del obj
        then \<not> fst (db_Exist be a (db_Finalise be del s)) \<and> fst (db_GetBalance be a (db_Finalise be del s)) = 0 \<and>
          fst (db_GetNonce be a (db_Finalise be del s)) = 0 \<and> fst (db_GetCode be a (db_Finalise be del s)) = [] \<and>
          (\<forall>key. fst (db_GetState be a key (db_Finalise be del s)) = 0)
        else same_account be a (db_Finalise be del s) s \<and>
          (\<forall>key. fst (db_GetCommittedState be a key (db_Finalise be del s)) = fst (db_GetState be a key s)))"
  using finalise_marked [of s a _ be del] finalise_unmarked [of s a be del]
  by (auto simp: finalise_selectors split: option.split)

text \<open>
  C7: The slots written back at the end of a block are the changed ones. After any transactions of a
  block, with reverts and finalisation, for every object that is held: the slots that \<open>updateTrie\<close>
  writes turn the storage before the block into the committed storage (so none of its two error
  branches changes the result), starting from empty storage for an account destructed in the block.
\<close>

theorem update_trie_writes_committed:
  assumes "block_state be s" "code_addressed be" "db_objects s a = Some obj"
  shows "snd (obj_updateTrie obj (\<lambda>key. if db_destruct s a = None then be_Storage be a key else 0)) =
    (\<lambda>key. fst (db_GetCommittedState be a key s))"
proof -
  have "db_ok be s" using block_state_ok [OF assms(1, 2)] by blast
  note u = updateTrie_committed [OF this assms(3)]
  have "base_value be (destructed s a) a = (\<lambda>key. if db_destruct s a = None then be_Storage be a key else 0)"
    by (auto simp: fun_eq_iff base_value_def destructed_def)
  note u = u [unfolded this]
  show ?thesis unfolding u using assms(3) by (simp add: getters_peek peek_def committed_value_loaded)
qed

theorem update_trie_writes_committed_witness:
  "\<exists>s obj. db_objects s 5 = Some obj \<and>
     snd (obj_updateTrie obj (\<lambda>key. if db_destruct s 5 = None then be_Storage sample_reader 5 key else 0)) =
       (\<lambda>key. fst (db_GetCommittedState sample_reader 5 key s))"
  using sample_block update_trie_writes_committed [OF _ sample_reader_code] by blast

text \<open>
  C11: The well-formedness invariant of the state holds between the transactions of a block, whose
  calls set code only where the old code is loaded or empty and create only absent accounts, over a
  reader that returns code under its hash: cached code has the hash of its account, dirty slots differ
  from the committed ones, changed slots are marked with their value from before the block, the
  account and the slots an object remembers as its origin are those of the reader (none after a
  destruction), the access list is consistent and transient storage has no zeros; the journal and the
  refund are cleared.
\<close>

theorem block_state_invariant:
  assumes "block_state be s" "code_addressed be"
  shows "db_ok be s \<and> db_journal s = newJournal \<and> db_refund s = 0"
  using assms by (rule block_state_ok)

theorem block_state_invariant_witness:
  "\<exists>s. sample_tx = Some s \<and> db_ok sample_reader (db_Finalise sample_reader True s)"
  using sample_block block_state_invariant [OF _ sample_reader_code] by blast

text \<open>
  \<open>SetCode\<close> journals the code that is cached in the object, not the code of the account. When
  the code of an account has not been loaded yet, \<open>SetCode\<close> returns no previous code, and
  reverting it leaves the account with no code and the hash of the empty code.
\<close>

theorem set_code_loses_unloaded_code:
  assumes "revs_ok s" "db_objects s a = Some obj" "so_code obj = []"
    and "ac_CodeHash (so_data obj) \<noteq> EmptyCodeHash be" "db_Snapshot s = (revid, s1)"
  shows "fst (db_SetCode be a code s1) = [] \<and>
    (\<exists>s3. db_RevertToSnapshot be revid (snd (db_SetCode be a code s1)) = Some s3 \<and>
       fst (db_GetCode be a s3) = [] \<and> fst (db_GetCodeHash be a s3) = EmptyCodeHash be \<and>
       fst (db_GetCodeHash be a s) \<noteq> EmptyCodeHash be)"
proof -
  obtain es revs m where st: "stack s = (es, revs, m)" by (metis prod_cases3)
  have s1: "stack s1 = (es, revs @ [(revid, length es)], Suc m)" "revid = m" "db_objects s1 = db_objects s"
    using assms(5) st by (auto simp: db_Snapshot_def Let_def stack_journal stack_sel)
  let ?obj = "obj_setCode (be_keccak be code) code obj"
  let ?s2 = "setStateObject a ?obj (j_append (codeChange a []) (loaded be a (recordWrite a s1)))"
  have p1: "peek be (recordWrite a s1) a = Some obj"
    using assms(2) s1(3) by (simp add: peek_def track_simps)
  have set: "db_SetCode be a code s1 = ([], ?s2)"
    using p1 assms(3)
    by (simp add: db_SetCode_def getOrNewStateObject_def getStateObject_peek obj_SetCode_def Let_def)
  have st2: "stack ?s2 = (es @ [codeChange a []], revs @ (revid, length es) # [], Suc m)"
    by (simp add: track_simps s1)
  have sorted: "sorted_wrt (\<lambda>p q. fst p < fst q \<and> snd p \<le> snd q) (revs @ (revid, length es) # [])"
    using assms(1) st s1(2) by (auto simp: revs_ok_def sorted_wrt_append)
  have p2: "peek be ?s2 a = Some ?obj" by (simp add: peek_simps)
  have "\<exists>t. revert_entries be [codeChange a []] ?s2 = Some t \<and>
      peek be t a = Some (obj_setCode (be_keccak be []) [] ?obj)"
    using p2 by (simp add: on_object_eq Let_def) (simp add: peek_def track_simps)
  then obtain t where t: "revert_entries be [codeChange a []] ?s2 = Some t"
    "peek be t a = Some (obj_setCode (be_keccak be []) [] ?obj)" by blast
  let ?s3 = "t\<lparr>db_journal := (db_journal t)\<lparr>jr_entries := es, jr_validRevisions := revs\<rparr>\<rparr>"
  have "db_RevertToSnapshot be revid ?s2 = Some ?s3"
    using RevertToSnapshot_eq [OF st2 sorted, of be] t(1) by simp
  moreover have "peek be ?s3 a = Some (obj_setCode (be_keccak be []) [] ?obj)"
    using t(2) by (simp add: peek_journal)
  ultimately show ?thesis
    using assms(2, 4) by (auto simp: set getters_peek setter_sels obj_method_simps EmptyCodeHash_def peek_def)
qed

theorem set_code_loses_unloaded_code_witness:
  "\<exists>s s3. fst (db_GetCode sample_reader 5 s) = [7] \<and>
     db_RevertToSnapshot sample_reader 0 (snd (db_SetCode sample_reader 5 [8] (snd (db_Snapshot s)))) = Some s3 \<and>
     fst (db_GetCode sample_reader 5 s3) = []"
proof -
  let ?s = "snd (db_GetBalance sample_reader 5 NewWithReader)"
  let ?obj = "newObject sample_reader (Some \<lparr>ac_Nonce = 1, ac_Balance = 100, ac_Root = 4, ac_CodeHash = 2\<rparr>)"
  have p: "peek sample_reader NewWithReader 5 = Some ?obj"
    by (simp add: peek_def NewWithReader_def sample_reader_def destructed_def)
  have "?s = loaded sample_reader 5 NewWithReader" by (simp add: db_GetBalance_def getStateObject_peek)
  then have s: "stack ?s = ([], [], 0)" "db_objects ?s 5 = Some ?obj"
    using p by (simp_all add: objects_loaded loaded_simps) (simp add: stack_def NewWithReader_def newJournal_def)
  then have "revs_ok ?s" by (simp add: revs_ok_def)
  moreover have "db_Snapshot ?s = (0, snd (db_Snapshot ?s))"
    using s(1) by (simp add: db_Snapshot_def Let_def stack_sel)
  ultimately obtain s3 where
    "db_RevertToSnapshot sample_reader 0 (snd (db_SetCode sample_reader 5 [8] (snd (db_Snapshot ?s)))) = Some s3"
    "fst (db_GetCode sample_reader 5 s3) = []"
    using set_code_loses_unloaded_code [OF _ s(2), of sample_reader 0 "snd (db_Snapshot ?s)" "[8]"]
    by (auto simp: newObject_def EmptyCodeHash_def sample_reader_def)
  moreover have "fst (db_GetCode sample_reader 5 ?s) = [7]" by code_simp
  ultimately show ?thesis by blast
qed

end
