(* ===== verification/Rlp.thy ===== *)
theory Rlp
  imports Prelude
begin

text \<open>
  The RLP encoding of \<open>rlp/encbuffer.go\<close>, \<open>rlp/encode.go\<close> and \<open>rlp/raw.go\<close>. The encoder
  writes string data and list headers to separate buffers and merges them at the end, because
  the size of a list is known only when it is closed; the theory shows that this produces
  the recursive encoding of the value, and that the splitting functions invert it.

  A value is an \<open>item\<close>, a byte string or a list of values: the reflection that walks a Go
  value and calls the writers in order is not modelled. Sizes are natural numbers where the
  code uses \<open>int\<close> and 64-bit words where it uses \<open>uint64\<close>.
\<close>

section \<open>Integers and headers\<close>

definition byte_at :: "nat \<Rightarrow> u64 \<Rightarrow> byte" where
  "byte_at k i = ucast (drop_bit (8 * k) i)"

definition putint_size :: "u64 \<Rightarrow> nat" where
  "putint_size i =
     (if i < 2 ^ 8 then 1 else if i < 2 ^ 16 then 2 else if i < 2 ^ 24 then 3
      else if i < 2 ^ 32 then 4 else if i < 2 ^ 40 then 5 else if i < 2 ^ 48 then 6
      else if i < 2 ^ 56 then 7 else 8)"

text \<open>The bytes that \<open>putint\<close> writes, most significant first.\<close>

definition putint :: "u64 \<Rightarrow> bytes" where
  "putint i = rev (map (\<lambda>k. byte_at k i) [0..<putint_size i])"

definition intsize :: "u64 \<Rightarrow> nat" where
  "intsize i = (if i = 0 then 1 else (bit_length (unat i) + 7) div 8)"

definition headsize :: "u64 \<Rightarrow> nat" where
  "headsize sz = (if sz < 56 then 1 else 1 + intsize sz)"

definition puthead :: "byte \<Rightarrow> byte \<Rightarrow> u64 \<Rightarrow> bytes" where
  "puthead smalltag largetag sz =
     (if sz < 56 then [smalltag + ucast sz]
      else let b = putint sz in (largetag + of_nat (length b)) # b)"

section \<open>The encoder buffer\<close>

record listhead =
  lh_offset :: nat
  lh_size :: nat

record encBuffer =
  eb_str :: bytes
  eb_lheads :: "listhead list"
  eb_lhsize :: nat

definition eb_new :: encBuffer where
  "eb_new = \<lparr>eb_str = [], eb_lheads = [], eb_lhsize = 0\<rparr>"

definition eb_size :: "encBuffer \<Rightarrow> nat" where
  "eb_size buf = length (eb_str buf) + eb_lhsize buf"

definition eb_append :: "bytes \<Rightarrow> encBuffer \<Rightarrow> encBuffer" where
  "eb_append b buf = buf\<lparr>eb_str := eb_str buf @ b\<rparr>"

definition lh_encode :: "listhead \<Rightarrow> bytes" where
  "lh_encode head = puthead 0xC0 0xF7 (of_nat (lh_size head))"

text \<open>The loop of \<open>copyTo\<close> from string position \<open>strpos\<close> on.\<close>

primrec copy_loop :: "bytes \<Rightarrow> listhead list \<Rightarrow> nat \<Rightarrow> bytes" where
  "copy_loop str [] strpos = drop strpos str"
| "copy_loop str (h # hs) strpos =
     slice strpos (lh_offset h) str @ lh_encode h @ copy_loop str hs (lh_offset h)"

definition makeBytes :: "encBuffer \<Rightarrow> bytes" where
  "makeBytes buf = copy_loop (eb_str buf) (eb_lheads buf) 0"

definition writeBool :: "bool \<Rightarrow> encBuffer \<Rightarrow> encBuffer" where
  "writeBool b = eb_append [if b then 0x01 else 0x80]"

definition writeUint64 :: "u64 \<Rightarrow> encBuffer \<Rightarrow> encBuffer" where
  "writeUint64 i =
     eb_append
       (if i = 0 then [0x80] else if i < 128 then [ucast i]
        else let b = putint i in (0x80 + of_nat (length b)) # b)"

definition encodeStringHeader :: "nat \<Rightarrow> encBuffer \<Rightarrow> encBuffer" where
  "encodeStringHeader sz =
     eb_append
       (if sz < 56 then [0x80 + of_nat sz]
        else let b = putint (of_nat sz) in (0xB7 + of_nat (length b)) # b)"

definition writeBytes :: "bytes \<Rightarrow> encBuffer \<Rightarrow> encBuffer" where
  "writeBytes b buf =
     (if length b = 1 \<and> b ! 0 \<le> 0x7F then eb_append [b ! 0] buf
      else eb_append b (encodeStringHeader (length b) buf))"

text \<open>A non-negative big integer: at most 64 bits as \<open>uint64\<close>, otherwise its bytes.\<close>

definition writeBigInt :: "nat \<Rightarrow> encBuffer \<Rightarrow> encBuffer" where
  "writeBigInt i buf =
     (if bit_length i \<le> 64 then writeUint64 (of_nat i) buf
      else let len = (bit_length i + 7) div 8
           in eb_append (be_bytes len i) (encodeStringHeader len buf))"

definition eb_list :: "encBuffer \<Rightarrow> nat \<times> encBuffer" where
  "eb_list buf =
     (length (eb_lheads buf),
      buf\<lparr>eb_lheads := eb_lheads buf @ [\<lparr>lh_offset = length (eb_str buf), lh_size = eb_lhsize buf\<rparr>]\<rparr>)"

definition eb_listEnd :: "nat \<Rightarrow> encBuffer \<Rightarrow> encBuffer" where
  "eb_listEnd index buf =
     (let lh = eb_lheads buf ! index;
          sz = eb_size buf - lh_offset lh - lh_size lh
      in buf\<lparr>eb_lheads := (eb_lheads buf)[index := lh\<lparr>lh_size := sz\<rparr>],
             eb_lhsize := eb_lhsize buf + (if sz < 56 then 1 else 1 + intsize (of_nat sz))\<rparr>)"

section \<open>Values\<close>

datatype item = Str bytes | Lst "item list"

text \<open>The writers of byte slices and of slices or structs of values.\<close>

fun write_item :: "item \<Rightarrow> encBuffer \<Rightarrow> encBuffer" where
  "write_item (Str b) buf = writeBytes b buf"
| "write_item (Lst xs) buf =
     (if xs = [] then eb_append [0xC0] buf
      else let (index, buf1) = eb_list buf in eb_listEnd index (fold write_item xs buf1))"

definition EncodeToBytes :: "item \<Rightarrow> bytes" where
  "EncodeToBytes x = makeBytes (write_item x eb_new)"

section \<open>Splitting encoded data\<close>

datatype rlp_kind = KByte | KString | KList

datatype rlp_error =
    UnexpectedEOF | ErrCanonSize | ErrValueTooLarge | ErrExpectedString | ErrExpectedList
  | ErrCanonInt | UintOverflow

definition readSize :: "bytes \<Rightarrow> nat \<Rightarrow> rlp_error + u64" where
  "readSize b slen =
     (if slen > length b then Inl UnexpectedEOF
      else
        let s = (if 1 \<le> slen \<and> slen \<le> 8 then of_nat (be_nat (take slen b)) else 0) :: u64
        in if s < 56 \<or> b ! 0 = 0 then Inl ErrCanonSize else Inr s)"

text \<open>The kind, the size of the tag and the size of the content of the first value.\<close>

definition readKind :: "bytes \<Rightarrow> rlp_error + (rlp_kind \<times> u64 \<times> u64)" where
  "readKind buf =
     (if buf = [] then Inl UnexpectedEOF
      else
        let b = buf ! 0;
            header =
              (if b < 0x80 then Inr (KByte, 0, 1)
               else if b < 0xB8 then
                 (let contentsize = ucast (b - 0x80) :: u64
                  in if contentsize = 1 \<and> length buf > 1 \<and> buf ! 1 < 128
                     then Inl ErrCanonSize else Inr (KString, 1, contentsize))
               else if b < 0xC0 then
                 map_sum id (\<lambda>s. (KString, ucast (b - 0xB7) + 1, s))
                   (readSize (tl buf) (unat (b - 0xB7)))
               else if b < 0xF8 then Inr (KList, 1, ucast (b - 0xC0))
               else
                 map_sum id (\<lambda>s. (KList, ucast (b - 0xF7) + 1, s))
                   (readSize (tl buf) (unat (b - 0xF7))))
        in case header of
             Inl e \<Rightarrow> Inl e
           | Inr (k, tagsize, contentsize) \<Rightarrow>
               if contentsize > of_nat (length buf) - tagsize then Inl ErrValueTooLarge
               else Inr (k, tagsize, contentsize))"

definition Split :: "bytes \<Rightarrow> rlp_error + (rlp_kind \<times> bytes \<times> bytes)" where
  "Split b =
     map_sum id
       (\<lambda>(k, ts, cs). (k, slice (unat ts) (unat (ts + cs)) b, drop (unat (ts + cs)) b))
       (readKind b)"

definition SplitString :: "bytes \<Rightarrow> rlp_error + (bytes \<times> bytes)" where
  "SplitString b =
     (case Split b of
        Inl e \<Rightarrow> Inl e
      | Inr (k, content, rest) \<Rightarrow> if k = KList then Inl ErrExpectedString else Inr (content, rest))"

definition SplitList :: "bytes \<Rightarrow> rlp_error + (bytes \<times> bytes)" where
  "SplitList b =
     (case Split b of
        Inl e \<Rightarrow> Inl e
      | Inr (k, content, rest) \<Rightarrow> if k \<noteq> KList then Inl ErrExpectedList else Inr (content, rest))"

definition SplitUint64 :: "bytes \<Rightarrow> rlp_error + (u64 \<times> bytes)" where
  "SplitUint64 b =
     (case SplitString b of
        Inl e \<Rightarrow> Inl e
      | Inr (content, rest) \<Rightarrow>
          if content = [] then Inr (0, rest)
          else if length content = 1 then
            (if content ! 0 = 0 then Inl ErrCanonInt else Inr (ucast (content ! 0), rest))
          else if length content > 8 then Inl UintOverflow
          else
            (case readSize content (length content) of
               Inl _ \<Rightarrow> Inl ErrCanonInt
             | Inr x \<Rightarrow> Inr (x, rest)))"

text \<open>
  The loops of \<open>SplitListValues\<close> and \<open>CountValues\<close>. A value has at least one byte, so the
  length of the data is enough fuel; a loop that runs out of it gives None. A count comes
  with the error that ended the loop.
\<close>

fun split_values :: "nat \<Rightarrow> bytes \<Rightarrow> (rlp_error + bytes list) option" where
  "split_values fuel [] = Some (Inr [])"
| "split_values 0 b = None"
| "split_values (Suc fuel) b =
     (case readKind b of
        Inl e \<Rightarrow> Some (Inl e)
      | Inr (_, tagsize, sz) \<Rightarrow>
          map_option (map_sum id (\<lambda>es. take (unat (tagsize + sz)) b # es))
            (split_values fuel (drop (unat (tagsize + sz)) b)))"

fun count_values :: "nat \<Rightarrow> nat \<Rightarrow> bytes \<Rightarrow> (nat \<times> rlp_error option) option" where
  "count_values fuel i [] = Some (i, None)"
| "count_values 0 i b = None"
| "count_values (Suc fuel) i b =
     (case readKind b of
        Inl e \<Rightarrow> Some (i + 1, Some e)
      | Inr (_, tagsize, sz) \<Rightarrow> count_values fuel (i + 1) (drop (unat (tagsize + sz)) b))"

definition CountValues :: "bytes \<Rightarrow> (nat \<times> rlp_error option) option" where
  "CountValues b = count_values (length b) 0 b"

definition SplitListValues :: "bytes \<Rightarrow> (rlp_error + bytes list) option" where
  "SplitListValues b =
     (case SplitList b of
        Inl e \<Rightarrow> Some (Inl e)
      | Inr (content, _) \<Rightarrow>
          (case CountValues content of
             None \<Rightarrow> None
           | Some (_, Some e) \<Rightarrow> Some (Inl e)
           | Some (_, None) \<Rightarrow> split_values (length content) content))"

definition MergeListValues :: "bytes list \<Rightarrow> bytes" where
  "MergeListValues elems =
     (let (index, buf) = eb_list eb_new
      in makeBytes (eb_listEnd index (fold eb_append elems buf)))"

definition AppendUint64 :: "bytes \<Rightarrow> u64 \<Rightarrow> bytes" where
  "AppendUint64 b i =
     (if i = 0 then b @ [0x80] else if i < 128 then b @ [ucast i]
      else b @ (0x80 + of_nat (putint_size i)) # putint i)"

definition BytesSize :: "bytes \<Rightarrow> u64" where
  "BytesSize b =
     (if length b = 0 then 1
      else if length b = 1 then (if b ! 0 \<le> 0x7f then 1 else 2)
      else of_nat (headsize (of_nat (length b)) + length b))"

definition ListSize :: "u64 \<Rightarrow> u64" where
  "ListSize contentSize = of_nat (headsize contentSize) + contentSize"

definition IntSize :: "u64 \<Rightarrow> nat" where
  "IntSize x = (if x < 0x80 then 1 else 1 + intsize x)"

section \<open>Lists kept encoded\<close>

text \<open>
  A \<open>RawList\<close> keeps the encoded items behind nine bytes reserved for the list header, or no
  buffer at all for the zero value; \<open>Bytes\<close> writes the header in front of the content, at
  the end of the reserved bytes.
\<close>

record RawList =
  rl_enc :: "bytes option"
  rl_length :: nat

definition rl_empty :: RawList where
  "rl_empty = \<lparr>rl_enc = None, rl_length = 0\<rparr>"

definition rl_Content :: "RawList \<Rightarrow> bytes" where
  "rl_Content r = (case rl_enc r of None \<Rightarrow> [] | Some e \<Rightarrow> drop 9 e)"

definition rl_Bytes :: "RawList \<Rightarrow> bytes \<times> RawList" where
  "rl_Bytes r =
     (case rl_enc r of
        None \<Rightarrow> ([0xC0], r)
      | Some e \<Rightarrow>
          let head = puthead 0xC0 0xF7 (of_nat (length (rl_Content r)));
              n = length head;
              e1 = head @ drop n e;
              e2 = take (9 - n) e1 @ take n e1 @ drop 9 e1
          in (drop (9 - n) e2, r\<lparr>rl_enc := Some e2\<rparr>))"

definition rl_Size :: "RawList \<Rightarrow> u64" where
  "rl_Size r = ListSize (of_nat (length (rl_Content r)))"

definition rl_buffer :: "RawList \<Rightarrow> bytes" where
  "rl_buffer r = (case rl_enc r of None \<Rightarrow> replicate 9 0 | Some e \<Rightarrow> e)"

definition rl_Append :: "item \<Rightarrow> RawList \<Rightarrow> RawList" where
  "rl_Append x r =
     r\<lparr>rl_enc := Some (rl_buffer r @ makeBytes (write_item x eb_new)), rl_length := rl_length r + 1\<rparr>"

datatype raw_error = Raw rlp_error | TrailingBytes

definition rl_AppendRaw :: "bytes \<Rightarrow> RawList \<Rightarrow> raw_error + RawList" where
  "rl_AppendRaw b r =
     (case readKind b of
        Inl e \<Rightarrow> Inl (Raw e)
      | Inr (_, tagsize, contentsize) \<Rightarrow>
          if tagsize + contentsize \<noteq> of_nat (length b) then Inl TrailingBytes
          else Inr (r\<lparr>rl_enc := Some (rl_buffer r @ b), rl_length := rl_length r + 1\<rparr>))"

definition rl_AppendList :: "RawList \<Rightarrow> RawList \<Rightarrow> RawList" where
  "rl_AppendList oth r =
     (if rl_enc oth = None \<or> rl_length oth = 0 then r
      else r\<lparr>rl_enc := Some (rl_buffer r @ rl_Content oth), rl_length := rl_length r + rl_length oth\<rparr>)"

section \<open>Iterating over a list\<close>

record Iterator =
  it_data :: bytes
  it_next :: bytes
  it_offset :: nat
  it_err :: "rlp_error option"

definition newIterator :: "bytes \<Rightarrow> nat \<Rightarrow> Iterator" where
  "newIterator data initialOffset =
     \<lparr>it_data = data, it_next = [], it_offset = initialOffset, it_err = None\<rparr>"

definition NewListIterator :: "bytes \<Rightarrow> rlp_error + Iterator" where
  "NewListIterator data =
     (case readKind data of
        Inl e \<Rightarrow> Inl e
      | Inr (k, t, c) \<Rightarrow>
          if k \<noteq> KList then Inl ErrExpectedList
          else Inr (newIterator (slice (unat t) (unat (t + c)) data) (unat t)))"

definition it_Next :: "Iterator \<Rightarrow> bool \<times> Iterator" where
  "it_Next it =
     (if it_data it = [] then (False, it)
      else
        case readKind (it_data it) of
          Inl e \<Rightarrow> (True, it\<lparr>it_next := [], it_err := Some e, it_data := []\<rparr>)
        | Inr (_, t, c) \<Rightarrow>
            let n = unat (t + c)
            in (True, it\<lparr>it_next := take n (it_data it), it_data := drop n (it_data it),
                         it_offset := it_offset it + n, it_err := None\<rparr>))"

definition it_Count :: "Iterator \<Rightarrow> nat option" where
  "it_Count it = map_option fst (CountValues (it_data it))"

definition it_Offset :: "Iterator \<Rightarrow> nat" where
  "it_Offset it = it_offset it - length (it_next it)"

section \<open>The encoding as a recursive function\<close>

definition header :: "byte \<Rightarrow> byte \<Rightarrow> nat \<Rightarrow> bytes" where
  "header smalltag largetag n =
     (if n < 56 then [smalltag + of_nat n]
      else (largetag + of_nat (length (big_bytes n))) # big_bytes n)"

fun enc :: "item \<Rightarrow> bytes" where
  "enc (Str b) =
     (if length b = 1 \<and> b ! 0 \<le> 0x7F then b else header 0x80 0xB7 (length b) @ b)"
| "enc (Lst xs) =
     (let content = concat (map enc xs) in header 0xC0 0xF7 (length content) @ content)"

text \<open>The kind and the content that a splitter reports, and the values it accepts.\<close>

fun item_kind :: "item \<Rightarrow> rlp_kind" where
  "item_kind (Str b) = (if length b = 1 \<and> b ! 0 \<le> 0x7F then KByte else KString)"
| "item_kind (Lst xs) = KList"

fun item_content :: "item \<Rightarrow> bytes" where
  "item_content (Str b) = b"
| "item_content (Lst xs) = concat (map enc xs)"

fun frame :: "rlp_kind \<Rightarrow> bytes \<Rightarrow> bytes" where
  "frame KByte c = c"
| "frame KString c = header 0x80 0xB7 (length c) @ c"
| "frame KList c = header 0xC0 0xF7 (length c) @ c"

fun framed :: "rlp_kind \<Rightarrow> bytes \<Rightarrow> bool" where
  "framed KByte c \<longleftrightarrow> length c = 1 \<and> c ! 0 \<le> 0x7F"
| "framed KString c \<longleftrightarrow> \<not> (length c = 1 \<and> c ! 0 \<le> 0x7F)"
| "framed KList c \<longleftrightarrow> True"

definition frames :: "bytes list \<Rightarrow> bool" where
  "frames vs \<longleftrightarrow> (\<forall>v \<in> set vs. \<exists>k c. framed k c \<and> v = frame k c)"

definition rl_ok :: "RawList \<Rightarrow> bool" where
  "rl_ok r \<longleftrightarrow>
     (case rl_enc r of None \<Rightarrow> rl_length r = 0 | Some e \<Rightarrow> 9 \<le> length e) \<and>
     (\<exists>vs. frames vs \<and> rl_Content r = concat vs \<and> rl_length r = length vs)"

definition reads :: "bytes \<Rightarrow> rlp_kind \<Rightarrow> u64 \<Rightarrow> u64 \<Rightarrow> bool" where
  "reads b k t s \<longleftrightarrow>
     (\<exists>c rest. framed k c \<and> b = frame k c @ rest \<and> unat s = length c \<and>
        unat t + unat s = length (frame k c))"

section \<open>What the writers add to a buffer\<close>

definition ready :: "listhead list \<Rightarrow> nat \<Rightarrow> bool" where
  "ready hs n \<longleftrightarrow> hs = [] \<or> n \<le> lh_offset (hd hs)"

text \<open>Between \<open>buf\<close> and \<open>buf'\<close> the writers have added the encoding \<open>e\<close>.\<close>

definition emits :: "encBuffer \<Rightarrow> encBuffer \<Rightarrow> bytes \<Rightarrow> bool" where
  "emits buf buf' e \<longleftrightarrow>
     (\<exists>p hs. eb_str buf' = eb_str buf @ p \<and> eb_lheads buf' = eb_lheads buf @ hs \<and>
        length p + eb_lhsize buf' = length e + eb_lhsize buf \<and>
        (\<forall>h \<in> set hs. length (eb_str buf) \<le> lh_offset h) \<and>
        (\<forall>post rest. ready rest (length (eb_str buf @ p)) \<longrightarrow>
           copy_loop (eb_str buf @ p @ post) (hs @ rest) (length (eb_str buf)) =
           e @ copy_loop (eb_str buf @ p @ post) rest (length (eb_str buf @ p))))"

section \<open>Integers and headers: lemmas\<close>

lemma byte_at_div: "byte_at k i = of_nat (unat i div 256 ^ k)"
proof -
  have "byte_at k i = of_nat (unat (drop_bit (8 * k) i))"
    by (simp add: byte_at_def unsigned_of_nat)
  also have "unat (drop_bit (8 * k) i) = unat i div 256 ^ k"
    unfolding unat_drop_bit_eq by (simp add: drop_bit_eq_div power_mult)
  finally show ?thesis .
qed

lemma rev_digits: "rev (map (\<lambda>k. of_nat (x div 256 ^ k)) [0..<n]) = be_bytes n x"
proof (induction n arbitrary: x)
  case (Suc n)
  have "map (\<lambda>k. of_nat (x div 256 ^ k) :: byte) [0..<Suc n] =
      of_nat x # map (\<lambda>k. of_nat (x div 256 div 256 ^ k)) [0..<n]"
    by (simp add: upt_conv_Cons map_Suc_upt [symmetric] div_mult2_eq comp_def del: upt_Suc)
  with Suc [of "x div 256"] show ?case by simp
qed simp

lemma putint_be_bytes: "putint i = be_bytes (putint_size i) (unat i)"
  by (simp add: putint_def byte_at_div rev_digits)

lemma length_putint [simp]: "length (putint i) = putint_size i"
  by (simp add: putint_be_bytes)

lemma unat_less_power: "i < 2 ^ k \<longleftrightarrow> unat i < 2 ^ k" if "k < 64" for i :: u64
proof -
  have "(2::nat) ^ k < 2 ^ 64" using that by (intro power_strict_increasing) auto
  then have "unat (2 ^ k :: u64) = 2 ^ k" using unat_of_nat_u64 [of "2 ^ k"] by simp
  then show ?thesis by (simp add: word_less_nat_alt)
qed

lemma putint_size_bounds:
  "1 \<le> putint_size i" "putint_size i \<le> 8" "unat i < 256 ^ putint_size i"
  "i \<noteq> 0 \<Longrightarrow> 256 ^ (putint_size i - 1) \<le> unat i"
proof -
  note lt = unat_less_power [of 8 i] unat_less_power [of 16 i] unat_less_power [of 24 i]
    unat_less_power [of 32 i] unat_less_power [of 40 i] unat_less_power [of 48 i]
    unat_less_power [of 56 i]
  show "1 \<le> putint_size i" "putint_size i \<le> 8" by (simp_all add: putint_size_def)
  show "unat i < 256 ^ putint_size i"
    using lt unat_u64_bound [of i] by (auto simp: putint_size_def)
  show "256 ^ (putint_size i - 1) \<le> unat i" if "i \<noteq> 0"
    using lt that by (auto simp: putint_size_def not_less unat_gt_0 Suc_le_eq)
qed

lemma be_nat_putint [simp]: "be_nat (putint i) = unat i"
  using putint_size_bounds(3) by (simp add: putint_be_bytes)

lemma length_big_bytes_le: "length (big_bytes x) \<le> k \<longleftrightarrow> x < 256 ^ k"
proof (induction k arbitrary: x)
  case 0
  then show ?case by (simp add: big_bytes.simps [of x])
next
  case (Suc k)
  have "x < 256 ^ Suc k \<longleftrightarrow> x div 256 < 256 ^ k" by auto
  with Suc [of "x div 256"] show ?case by (cases "x = 0") (simp_all add: big_bytes.simps [of x])
qed

lemma putint_size_big_bytes: "i \<noteq> 0 \<Longrightarrow> putint_size i = length (big_bytes (unat i))"
  using putint_size_bounds [of i] length_big_bytes_le [of "unat i" "putint_size i"]
    length_big_bytes_le [of "unat i" "putint_size i - 1"] by linarith

lemma putint_big_bytes: "i \<noteq> 0 \<Longrightarrow> putint i = big_bytes (unat i)"
  by (simp add: putint_be_bytes putint_size_big_bytes be_bytes_big_bytes)

lemma intsize_putint_size: "intsize i = putint_size i"
proof (cases "i = 0")
  case True
  then show ?thesis by (simp add: intsize_def putint_size_def)
next
  case False
  have "bit_length (unat i) \<le> 8 * putint_size i" "\<not> bit_length (unat i) \<le> 8 * (putint_size i - 1)"
    using putint_size_bounds [of i] False
    by (simp_all flip: bit_length_less add: power_mult not_less)
  with False putint_size_bounds(1) [of i] show ?thesis by (simp add: intsize_def)
qed

lemma hd_big_bytes: "x \<noteq> 0 \<Longrightarrow> hd (big_bytes x) \<noteq> 0"
proof (induction x rule: big_bytes.induct)
  case (1 x)
  show ?case
  proof (cases "x div 256 = 0")
    case True
    then have "x < 256" by (simp add: div_eq_0_iff)
    then have "unat (of_nat x :: byte) = x" by simp
    then have "(of_nat x :: byte) \<noteq> 0" using 1 by (metis unat_0)
    with True 1 show ?thesis by (simp add: big_bytes.simps [of x] big_bytes.simps [of 0])
  next
    case False
    then have "big_bytes (x div 256) \<noteq> []" by (subst big_bytes.simps) simp
    with 1 False show ?thesis by (simp add: big_bytes.simps [of x] hd_append)
  qed
qed

section \<open>Headers of a given length\<close>

lemma of_nat_less_56: "n < 2 ^ 64 \<Longrightarrow> (of_nat n :: u64) < 56 \<longleftrightarrow> n < 56"
  by (simp add: word_less_nat_alt unat_of_nat_u64)

lemma of_nat_u64_eq_0: "n < 2 ^ 64 \<Longrightarrow> (of_nat n :: u64) = 0 \<longleftrightarrow> n = 0"
  using unat_of_nat_u64 [of n] by (auto dest: arg_cong [of _ _ unat])

lemma ucast_of_nat_byte: "(ucast (of_nat n :: u64) :: byte) = of_nat n"
  by (rule word_unat_eq_iff [THEN iffD2])
    (simp add: unsigned_ucast_eq unsigned_of_nat take_bit_eq_mod mod_mod_cancel)

lemma puthead_header:
  assumes "n < 2 ^ 64"
  shows "puthead smalltag largetag (of_nat n) = header smalltag largetag n"
  using assms
  by (simp add: puthead_def header_def of_nat_less_56 putint_big_bytes of_nat_u64_eq_0
      unat_of_nat_u64 ucast_of_nat_byte Let_def putint_size_big_bytes)

lemma length_header:
  assumes "n < 2 ^ 64"
  shows "length (header smalltag largetag n) = (if n < 56 then 1 else 1 + intsize (of_nat n))"
  using assms
  by (simp add: header_def intsize_putint_size putint_size_big_bytes of_nat_u64_eq_0 unat_of_nat_u64)

section \<open>The buffer implements the recursive encoding\<close>

lemma take_split: "n \<le> m \<Longrightarrow> m \<le> k \<Longrightarrow>
    take (k - n) (drop n l) = take (m - n) (drop n l) @ take (k - m) (drop m l)"
  using take_add [of "m - n" "k - m" "drop n l"] by simp

lemma copy_split:
  assumes "n \<le> m" "ready hs m"
  shows "copy_loop str hs n = slice n m str @ copy_loop str hs m"
proof (cases hs)
  case Nil
  have "drop n str = take (m - n) (drop n str) @ drop m str"
    using assms(1) append_take_drop_id [of "m - n" "drop n str"] by simp
  with Nil show ?thesis by (simp add: slice_def)
next
  case (Cons h hs')
  with assms take_split [of n m "lh_offset h" str] show ?thesis
    by (simp add: ready_def slice_def)
qed

lemma emits_refl: "emits buf buf []"
  unfolding emits_def by (intro exI [of _ "[]"]) simp

lemma emits_append: "emits buf (eb_append e buf) e"
  unfolding emits_def
proof (intro exI [of _ e] exI [of _ "[]"] conjI allI impI)
  fix post rest
  assume r: "ready rest (length (eb_str buf @ e))"
  show "copy_loop (eb_str buf @ e @ post) ([] @ rest) (length (eb_str buf)) =
      e @ copy_loop (eb_str buf @ e @ post) rest (length (eb_str buf @ e))"
    using copy_split [OF _ r, of "length (eb_str buf)" "eb_str buf @ e @ post"]
    by (simp add: slice_def)
qed (simp_all add: eb_append_def)

lemma emits_trans:
  assumes "emits a b e" "emits b c f"
  shows "emits a c (e @ f)"
proof -
  obtain p hs where 1: "eb_str b = eb_str a @ p" "eb_lheads b = eb_lheads a @ hs"
    "length p + eb_lhsize b = length e + eb_lhsize a"
    "\<forall>h \<in> set hs. length (eb_str a) \<le> lh_offset h"
    and law1: "\<And>post rest. ready rest (length (eb_str a @ p)) \<Longrightarrow>
       copy_loop (eb_str a @ p @ post) (hs @ rest) (length (eb_str a)) =
       e @ copy_loop (eb_str a @ p @ post) rest (length (eb_str a @ p))"
    using assms(1) unfolding emits_def by blast
  obtain q gs where 2: "eb_str c = eb_str b @ q" "eb_lheads c = eb_lheads b @ gs"
    "length q + eb_lhsize c = length f + eb_lhsize b"
    "\<forall>h \<in> set gs. length (eb_str b) \<le> lh_offset h"
    and law2: "\<And>post rest. ready rest (length (eb_str b @ q)) \<Longrightarrow>
       copy_loop (eb_str b @ q @ post) (gs @ rest) (length (eb_str b)) =
       f @ copy_loop (eb_str b @ q @ post) rest (length (eb_str b @ q))"
    using assms(2) unfolding emits_def by blast
  have "copy_loop (eb_str a @ (p @ q) @ post) ((hs @ gs) @ rest) (length (eb_str a)) =
      (e @ f) @ copy_loop (eb_str a @ (p @ q) @ post) rest (length (eb_str a @ p @ q))"
    if r: "ready rest (length (eb_str a @ p @ q))" for post rest
  proof -
    have "ready (gs @ rest) (length (eb_str a @ p))"
      using r 1(1) 2(4) by (cases gs) (auto simp: ready_def)
    with law1 [of "gs @ rest" "q @ post"] law2 [of rest post] r 1(1) show ?thesis by simp
  qed
  moreover have "\<forall>h \<in> set (hs @ gs). length (eb_str a) \<le> lh_offset h"
    using 1 2 by auto
  ultimately show ?thesis
    unfolding emits_def using 1 2
    by (intro exI [of _ "p @ q"] exI [of _ "hs @ gs"]) auto
qed

lemma emits_fold:
  assumes "\<And>x buf. x \<in> set xs \<Longrightarrow> emits buf (f x buf) (g x)"
  shows "emits buf (fold f xs buf) (concat (map g xs))"
  using assms
proof (induction xs arbitrary: buf)
  case Nil
  then show ?case by (simp add: emits_refl)
next
  case (Cons x xs)
  then show ?case by (auto intro: emits_trans)
qed

lemma emits_list:
  assumes "eb_list buf = (i, buf1)" "emits buf1 buf2 c" "length c < 2 ^ 64"
  shows "emits buf (eb_listEnd i buf2) (header 0xC0 0xF7 (length c) @ c)"
proof -
  let ?h = "\<lparr>lh_offset = length (eb_str buf), lh_size = length c\<rparr>"
  obtain p hs where e: "eb_str buf2 = eb_str buf1 @ p" "eb_lheads buf2 = eb_lheads buf1 @ hs"
    "length p + eb_lhsize buf2 = length c + eb_lhsize buf1"
    "\<forall>h \<in> set hs. length (eb_str buf1) \<le> lh_offset h"
    and law: "\<And>post rest. ready rest (length (eb_str buf1 @ p)) \<Longrightarrow>
       copy_loop (eb_str buf1 @ p @ post) (hs @ rest) (length (eb_str buf1)) =
       c @ copy_loop (eb_str buf1 @ p @ post) rest (length (eb_str buf1 @ p))"
    using assms(2) unfolding emits_def by blast
  have b: "eb_str buf1 = eb_str buf" "eb_lhsize buf1 = eb_lhsize buf" "i = length (eb_lheads buf)"
    "eb_lheads buf1 = eb_lheads buf @ [\<lparr>lh_offset = length (eb_str buf), lh_size = eb_lhsize buf\<rparr>]"
    using assms(1) by (auto simp: eb_list_def)
  have sz: "eb_size buf2 - length (eb_str buf) - eb_lhsize buf = length c"
    using e b by (simp add: eb_size_def)
  have "emits buf (eb_listEnd i buf2) (header 0xC0 0xF7 (length c) @ c)"
    unfolding emits_def
  proof (intro exI [of _ p] exI [of _ "?h # hs"] conjI allI impI)
    fix post rest
    assume "ready rest (length (eb_str buf @ p))"
    then show "copy_loop (eb_str buf @ p @ post) ((?h # hs) @ rest) (length (eb_str buf)) =
        (header 0xC0 0xF7 (length c) @ c) @
        copy_loop (eb_str buf @ p @ post) rest (length (eb_str buf @ p))"
      using law [of rest post] b assms(3)
      by (simp add: slice_def lh_encode_def puthead_header)
  qed (use e b sz assms(3) in \<open>auto simp: eb_listEnd_def Let_def nth_append length_header\<close>)
  then show ?thesis .
qed

lemma length_enc_member:
  assumes "x \<in> set xs"
  shows "length (enc x) \<le> length (concat (map enc xs))"
  using assms by (induction xs) auto

lemma encodeStringHeader_header:
  "n < 2 ^ 64 \<Longrightarrow> encodeStringHeader n = eb_append (header 0x80 0xB7 n)"
  by (simp add: encodeStringHeader_def header_def putint_big_bytes of_nat_u64_eq_0
      unat_of_nat_u64 putint_size_big_bytes Let_def)

lemma writeBytes_emits:
  assumes "length b < 2 ^ 64"
  shows "emits buf (writeBytes b buf) (enc (Str b))"
proof (cases "length b = 1 \<and> b ! 0 \<le> 0x7F")
  case True
  then have "b = [b ! 0]" by (cases b) auto
  with True show ?thesis using emits_append [of buf b] by (simp add: writeBytes_def)
next
  case False
  with assms show ?thesis
    by (auto simp: writeBytes_def encodeStringHeader_header intro: emits_trans emits_append)
qed

lemma write_item_emits:
  "length (enc x) < 2 ^ 64 \<Longrightarrow> emits buf (write_item x buf) (enc x)"
proof (induction x arbitrary: buf)
  case (Str b)
  then have "length b < 2 ^ 64" by (auto split: if_splits)
  from writeBytes_emits [OF this, of buf] show ?case by (simp del: enc.simps)
next
  case (Lst xs)
  show ?case
  proof (cases "xs = []")
    case True
    then show ?thesis using emits_append [of buf "[0xC0]"] by (simp add: header_def)
  next
    case False
    obtain i buf1 where l: "eb_list buf = (i, buf1)" by fastforce
    have len: "length (concat (map enc xs)) < 2 ^ 64" using Lst.prems by (simp add: Let_def)
    have "emits buf1 (fold write_item xs buf1) (concat (map enc xs))"
      using len length_enc_member [of _ xs] by (intro emits_fold Lst.IH) (meson le_less_trans)+
    from emits_list [OF l this len] False l show ?thesis by (simp add: Let_def)
  qed
qed

lemma makeBytes_emits:
  assumes "emits eb_new buf e"
  shows "makeBytes buf = e" "eb_size buf = length e"
proof -
  obtain p hs where b: "eb_str buf = p" "eb_lheads buf = hs"
    "length p + eb_lhsize buf = length e"
    and law: "\<And>post rest. ready rest (length p) \<Longrightarrow>
       copy_loop (p @ post) (hs @ rest) 0 = e @ copy_loop (p @ post) rest (length p)"
    using assms unfolding emits_def eb_new_def by auto
  from b law [of "[]" "[]"] show "makeBytes buf = e" "eb_size buf = length e"
    by (auto simp: makeBytes_def eb_size_def ready_def)
qed

section \<open>The splitter inverts the encoding\<close>

lemma of_nat_56_le: "56 \<le> n \<Longrightarrow> n < 2 ^ 64 \<Longrightarrow> 1 \<le> length (big_bytes n) \<and> length (big_bytes n) \<le> 8"
  using length_big_bytes_le [of n 0] length_big_bytes_le [of n 8]
  by (simp add: Suc_le_eq)

lemma readSize_big_bytes:
  assumes "56 \<le> n" "n < 2 ^ 64"
  shows "readSize (big_bytes n @ c) (length (big_bytes n)) = Inr (of_nat n)"
proof -
  have "\<not> (of_nat n :: u64) < 56" using assms of_nat_less_56 [of n] by simp
  moreover have "(big_bytes n @ c) ! 0 = hd (big_bytes n)"
    using of_nat_56_le [OF assms] by (cases "big_bytes n") auto
  ultimately show ?thesis
    using of_nat_56_le [OF assms] hd_big_bytes [of n] assms(1)
    by (simp add: readSize_def)
qed

lemma small_tag:
  assumes "n < 56"
  shows "\<not> (0x80 + of_nat n :: byte) < 0x80" "(0x80 + of_nat n :: byte) < 0xB8"
    "\<not> (0xC0 + of_nat n :: byte) < 0x80" "\<not> (0xC0 + of_nat n :: byte) < 0xB8"
    "\<not> (0xC0 + of_nat n :: byte) < 0xC0" "(0xC0 + of_nat n :: byte) < 0xF8"
    "ucast (of_nat n :: byte) = (of_nat n :: u64)"
proof -
  have "unat (0x80 + of_nat n :: byte) = 128 + n" "unat (0xC0 + of_nat n :: byte) = 192 + n"
    using assms by (subst unat_word_ariths; simp)+
  then show "\<not> (0x80 + of_nat n :: byte) < 0x80" "(0x80 + of_nat n :: byte) < 0xB8"
    "\<not> (0xC0 + of_nat n :: byte) < 0x80" "\<not> (0xC0 + of_nat n :: byte) < 0xB8"
    "\<not> (0xC0 + of_nat n :: byte) < 0xC0" "(0xC0 + of_nat n :: byte) < 0xF8"
    using assms by (simp_all add: word_less_nat_alt)
  show "ucast (of_nat n :: byte) = (of_nat n :: u64)"
    using assms by (simp add: unsigned_of_nat take_bit_nat_eq_self)
qed

lemma large_tag:
  assumes "1 \<le> k \<and> k \<le> 8"
  shows "\<not> (0xB7 + of_nat k :: byte) < 0x80" "\<not> (0xB7 + of_nat k :: byte) < 0xB8"
    "(0xB7 + of_nat k :: byte) < 0xC0"
    "\<not> (0xF7 + of_nat k :: byte) < 0x80" "\<not> (0xF7 + of_nat k :: byte) < 0xB8"
    "\<not> (0xF7 + of_nat k :: byte) < 0xC0" "\<not> (0xF7 + of_nat k :: byte) < 0xF8"
    "ucast (of_nat k :: byte) = (of_nat k :: u64)" "unat (of_nat k :: byte) = k"
proof -
  have "unat (0xB7 + of_nat k :: byte) = 183 + k" "unat (0xF7 + of_nat k :: byte) = 247 + k"
    using assms by (subst unat_word_ariths; simp)+
  then show "\<not> (0xB7 + of_nat k :: byte) < 0x80" "\<not> (0xB7 + of_nat k :: byte) < 0xB8"
    "(0xB7 + of_nat k :: byte) < 0xC0"
    "\<not> (0xF7 + of_nat k :: byte) < 0x80" "\<not> (0xF7 + of_nat k :: byte) < 0xB8"
    "\<not> (0xF7 + of_nat k :: byte) < 0xC0" "\<not> (0xF7 + of_nat k :: byte) < 0xF8"
    using assms by (simp_all add: word_less_nat_alt)
  show "ucast (of_nat k :: byte) = (of_nat k :: u64)" "unat (of_nat k :: byte) = k"
    using assms by (simp_all add: unsigned_of_nat take_bit_nat_eq_self)
qed

lemma content_fits:
  assumes "t + n \<le> l" "l < 2 ^ 64"
  shows "\<not> (of_nat l - of_nat t :: u64) < of_nat n"
proof -
  have e: "(of_nat l - of_nat t :: u64) = of_nat (l - t)" using assms by (simp add: of_nat_diff)
  show ?thesis unfolding e using assms by (simp add: word_less_nat_alt unat_of_nat_u64 del: of_nat_diff)
qed

lemma readKind_string:
  assumes "length (header 0x80 0xB7 (length c) @ c @ rest) < 2 ^ 64"
    and "\<not> (length c = 1 \<and> c ! 0 \<le> 0x7F)"
  shows "readKind (header 0x80 0xB7 (length c) @ c @ rest) =
    Inr (KString, of_nat (length (header 0x80 0xB7 (length c))), of_nat (length c))"
proof (cases "length c < 56")
  case True
  have c1: "\<not> (of_nat (length c) = (1 :: u64) \<and> Suc 0 < length ([h] @ c @ rest) \<and> (c @ rest) ! 0 < 128)" for h
  proof
    assume a: "of_nat (length c) = (1 :: u64) \<and> Suc 0 < length ([h] @ c @ rest) \<and> (c @ rest) ! 0 < 128"
    then have "length c = 1"
      using assms(1) unat_of_nat_u64 [of "length c"] by (auto dest: arg_cong [of _ _ unat])
    with a assms(2) show False by (simp add: nth_append word_less_nat_alt word_le_nat_alt)
  qed
  have "\<not> (of_nat (Suc (length c + length rest)) - of_nat 1 :: u64) < of_nat (length c)"
    using assms(1) by (intro content_fits) (auto simp: header_def split: if_splits)
  with c1 [of "0x80 + of_nat (length c)"] True small_tag [of "length c"] show ?thesis
    by (auto simp: header_def readKind_def)
next
  case False
  let ?k = "length (big_bytes (length c))"
  have n: "56 \<le> length c" "length c < 2 ^ 64" using False assms(1) by auto
  note k = of_nat_56_le [OF n]
  note t = large_tag [OF k]
  have "\<not> (of_nat (Suc (?k + (length c + length rest))) - of_nat (Suc ?k) :: u64) < of_nat (length c)"
    using assms(1) False by (intro content_fits) (auto simp: header_def split: if_splits)
  with False t readSize_big_bytes [OF n, of "c @ rest"] k show ?thesis
    by (simp add: header_def readKind_def Let_def add.commute)
qed

lemma readKind_list:
  assumes "length (header 0xC0 0xF7 (length c) @ c @ rest) < 2 ^ 64"
  shows "readKind (header 0xC0 0xF7 (length c) @ c @ rest) =
    Inr (KList, of_nat (length (header 0xC0 0xF7 (length c))), of_nat (length c))"
proof (cases "length c < 56")
  case True
  have "\<not> (of_nat (Suc (length c + length rest)) - of_nat 1 :: u64) < of_nat (length c)"
    using assms(1) by (intro content_fits) (auto simp: header_def split: if_splits)
  with True small_tag [of "length c"] show ?thesis
    by (auto simp: header_def readKind_def)
next
  case False
  let ?k = "length (big_bytes (length c))"
  have n: "56 \<le> length c" "length c < 2 ^ 64" using False assms(1) by auto
  note k = of_nat_56_le [OF n]
  note t = large_tag [OF k]
  have "\<not> (of_nat (Suc (?k + (length c + length rest))) - of_nat (Suc ?k) :: u64) < of_nat (length c)"
    using assms(1) False by (intro content_fits) (auto simp: header_def split: if_splits)
  with False t readSize_big_bytes [OF n, of "c @ rest"] k show ?thesis
    by (simp add: header_def readKind_def Let_def add.commute)
qed

lemma enc_nonempty [simp]: "enc x \<noteq> []"
  by (cases x) (auto simp: header_def Let_def)

lemma readKind_enc:
  assumes "length (enc x @ rest) < 2 ^ 64"
  shows "readKind (enc x @ rest) =
    Inr (item_kind x, of_nat (length (enc x) - length (item_content x)), of_nat (length (item_content x)))"
proof (cases x)
  case (Str b)
  show ?thesis
  proof (cases "length b = 1 \<and> b ! 0 \<le> 0x7F")
    case True
    then obtain c where c: "b = [c]" "c < 0x80" "c \<le> 0x7F"
      by (cases b) (auto simp: word_le_nat_alt word_less_nat_alt)
    have "\<not> (of_nat (Suc (length rest)) - of_nat 0 :: u64) < of_nat 1"
      using assms Str c by (intro content_fits) auto
    with c True Str show ?thesis by (simp add: readKind_def)
  next
    case False
    then show ?thesis using readKind_string [of b rest] assms Str by (auto simp: Let_def)
  qed
next
  case (Lst xs)
  then show ?thesis
    using readKind_list [of "concat (map enc xs)" rest] assms by (simp add: Let_def)
qed

lemma split_values_nonempty:
  "b \<noteq> [] \<Longrightarrow> split_values (Suc fuel) b =
     (case readKind b of
        Inl e \<Rightarrow> Some (Inl e)
      | Inr (_, tagsize, sz) \<Rightarrow>
          map_option (map_sum id (\<lambda>es. take (unat (tagsize + sz)) b # es))
            (split_values fuel (drop (unat (tagsize + sz)) b)))"
  by (auto simp only: neq_Nil_conv split_values.simps)

lemma count_values_nonempty:
  "b \<noteq> [] \<Longrightarrow> count_values (Suc fuel) i b =
     (case readKind b of
        Inl e \<Rightarrow> Some (i + 1, Some e)
      | Inr (_, tagsize, sz) \<Rightarrow> count_values fuel (i + 1) (drop (unat (tagsize + sz)) b))"
  by (auto simp only: neq_Nil_conv count_values.simps)

section \<open>What the splitter accepts\<close>

lemma big_bytes_be_nat:
  assumes "bs \<noteq> []" "hd bs \<noteq> 0"
  shows "big_bytes (be_nat bs) = bs"
proof -
  let ?b = "big_bytes (be_nat bs)"
  have e: "bs = replicate (length bs - length ?b) 0 @ drop (length ?b - length bs) ?b"
    using be_bytes_big_bytes [of "length bs" "be_nat bs"] by simp
  have "length ?b \<le> length bs" using length_big_bytes_le be_nat_bound by blast
  moreover have "\<not> length ?b < length bs"
  proof
    assume "length ?b < length bs"
    then obtain k where "length bs - length ?b = Suc k" by (cases "length bs - length ?b") auto
    with e have "hd bs = 0" by (metis append_Cons list.sel(1) replicate_Suc)
    with assms show False by simp
  qed
  ultimately show ?thesis using e by simp
qed

lemma readSize_Inr:
  assumes "readSize b k = Inr s" "1 \<le> k" "k \<le> 8"
  shows "k \<le> length b" "big_bytes (unat s) = take k b" "56 \<le> unat s"
proof -
  have s: "k \<le> length b" "s = of_nat (be_nat (take k b))" "\<not> s < 56" "b ! 0 \<noteq> 0"
    using assms by (auto simp: readSize_def Let_def split: if_splits)
  have "be_nat (take k b) < 256 ^ k" using be_nat_bound [of "take k b"] s(1) by simp
  also have "\<dots> \<le> 256 ^ 8" using assms(3) by (intro power_increasing) auto
  finally have "unat s = be_nat (take k b)" using unat_of_nat_u64 [of "be_nat (take k b)"] s(2) by simp
  moreover have "take k b \<noteq> []" "hd (take k b) \<noteq> 0"
    using s(1,4) assms(2) by (cases b; cases k; simp)+
  ultimately show "big_bytes (unat s) = take k b" using big_bytes_be_nat by simp
  show "k \<le> length b" "56 \<le> unat s" using s by (simp_all add: word_less_nat_alt)
qed

lemma fits_content:
  assumes "\<not> (of_nat l - t :: u64) < s" "unat t \<le> l" "l < 2 ^ 64"
  shows "unat t + unat s \<le> l"
proof -
  have "(of_nat l - t :: u64) = of_nat (l - unat t)" using assms(2) by (simp add: of_nat_diff)
  then have "unat (of_nat l - t :: u64) = l - unat t" using assms(3) by (simp add: unat_of_nat_u64)
  with assms show ?thesis by (simp add: word_less_nat_alt)
qed

text \<open>The bytes after the first one of a value with a length in the tag, or after it.\<close>

lemma small_frame:
  assumes "unat (h - small :: byte) < 56" "unat (h - small) \<le> length b"
  defines "c \<equiv> take (unat (h - small)) b"
  shows "h # b = (header small large (length c) @ c) @ drop (length c) b"
    "length (header small large (length c)) = 1" "length c = unat (h - small)"
  using assms by (auto simp: header_def min_def)

lemma large_frame:
  assumes "readSize b (unat (h - large)) = Inr s" "1 \<le> unat (h - large :: byte)" "unat (h - large) \<le> 8"
    and "unat (h - large) + unat s \<le> length b"
  defines "c \<equiv> take (unat s) (drop (unat (h - large)) b)"
  shows "h # b = (header small large (length c) @ c) @ drop (unat (h - large) + unat s) b"
    "length (header small large (length c)) = Suc (unat (h - large))" "length c = unat s"
proof -
  note r = readSize_Inr [OF assms(1-3)]
  show l: "length c = unat s" using assms(4) by (simp add: c_def)
  have "b = take (unat (h - large)) b @ c @ drop (unat (h - large) + unat s) b"
    unfolding c_def by (metis add.commute append_take_drop_id drop_drop)
  then show "h # b = (header small large (length c) @ c) @ drop (unat (h - large) + unat s) b"
    using r by (simp add: header_def l)
  show "length (header small large (length c)) = Suc (unat (h - large))"
    using r by (simp add: header_def l)
qed

lemma readKind_frame:
  assumes "framed k c" "length (frame k c @ rest) < 2 ^ 64"
  shows "readKind (frame k c @ rest) =
    Inr (k, of_nat (length (frame k c) - length c), of_nat (length c))"
proof (cases k)
  case KByte
  then show ?thesis using readKind_enc [of "Str c" rest] assms by auto
next
  case KString
  then show ?thesis using readKind_string [of c rest] assms by simp
next
  case KList
  then show ?thesis using readKind_list [of c rest] assms by simp
qed

lemma unat_tag: "n \<le> 9 \<Longrightarrow> unat (of_nat n + 1 :: u64) = Suc n"
  using unat_of_nat_u64 [of "Suc n"] by (simp add: add.commute)

lemma reads_large:
  assumes "readSize b (unat (h - large)) = Inr s" "1 \<le> unat (h - large)" "unat (h - large) \<le> 8"
    and "\<not> (of_nat (length (h # b)) - (ucast (h - large) + 1) :: u64) < s"
    and "length (h # b) < 2 ^ 64"
    and "k = KString \<and> small = (0x80 :: byte) \<and> large = 0xB7 \<or> k = KList \<and> small = 0xC0 \<and> large = (0xF7 :: byte)"
  shows "reads (h # b) k (ucast (h - large) + 1) s"
proof -
  have t: "unat (ucast (h - large) + 1 :: u64) = Suc (unat (h - large))"
    using unat_tag [of "unat (h - large)"] assms(3) by (simp add: of_nat_unat)
  note r = readSize_Inr [OF assms(1-3)]
  have fit: "unat (h - large) + unat s \<le> length b"
    using fits_content [OF assms(4)] t r(1) assms(5) by simp
  let ?c = "take (unat s) (drop (unat (h - large)) b)"
  note f = large_frame [OF assms(1-3) fit]
  have "framed k ?c" using assms(6) f(3) r(3) by auto
  moreover have "h # b = frame k ?c @ drop (unat (h - large) + unat s) b"
    using f(1) [of small] assms(6) by auto
  moreover have "unat (ucast (h - large) + 1 :: u64) + unat s = length (frame k ?c)"
    using f(2) [of small] f(3) t assms(6) by auto
  ultimately show ?thesis unfolding reads_def using f(3) by metis
qed

lemma reads_small:
  assumes "unat (h - small) < 56" "length (h # b) < 2 ^ 64"
    and "\<not> (of_nat (length (h # b)) - 1 :: u64) < ucast (h - small)"
    and "k = KString \<and> small = 0x80 \<and> \<not> (ucast (h - small) = (1 :: u64) \<and> length (h # b) > 1 \<and> (h # b) ! 1 < 128)
      \<or> k = KList \<and> small = (0xC0 :: byte)"
  shows "reads (h # b) k 1 (ucast (h - small))"
proof -
  have u: "unat (ucast (h - small) :: u64) = unat (h - small)"
    using assms(1) by (simp add: unsigned_ucast_eq take_bit_nat_eq_self)
  have fit: "unat (h - small) \<le> length b"
    using fits_content [OF assms(3)] u assms(2) by simp
  let ?c = "take (unat (h - small)) b"
  note f = small_frame [OF assms(1) fit]
  have "framed k ?c"
  proof (cases "k = KString \<and> length ?c = 1 \<and> ?c ! 0 \<le> 0x7F")
    case True
    then have one: "unat (h - small) = 1" using f(3) by simp
    then have "ucast (h - small) = (1 :: u64)" using u by (simp add: word_unat_eq_iff)
    moreover have "b ! 0 < 128" using True one by (simp add: word_le_nat_alt word_less_nat_alt)
    ultimately show ?thesis
      using one True assms(4) fit by auto
  next
    case False
    with assms(4) show ?thesis by auto
  qed
  moreover have "h # b = frame k ?c @ drop (length ?c) b"
    "1 + unat (h - small) = length (frame k ?c)"
    using f(1) [of "0xB7"] f(1) [of "0xF7"] f(2) [of "0xB7"] f(2) [of "0xF7"] f(3) assms(4) by auto
  ultimately show ?thesis unfolding reads_def using f(3) u by (metis unat_1)
qed

lemma byte_range:
  assumes "lo \<le> h" "h \<le> (hi :: byte)"
  shows "unat (h - lo) = unat h - unat lo" "unat h \<le> unat hi" "unat lo \<le> unat h"
  using assms by (simp_all add: unat_sub word_le_nat_alt)

lemma readKind_reads:
  assumes "readKind b = Inr (k, t, s)" "length b < 2 ^ 64"
  shows "reads b k t s"
proof (cases b)
  case Nil
  with assms show ?thesis by (simp add: readKind_def)
next
  case (Cons h b')
  note [simp] = Cons
  consider "h < 0x80" | "0x80 \<le> h" "h \<le> 0xB7" | "0xB8 \<le> h" "h \<le> 0xBF"
    | "0xC0 \<le> h" "h \<le> 0xF7" | "0xF8 \<le> h"
    by (force simp: word_le_nat_alt word_less_nat_alt)
  then show ?thesis
  proof cases
    case 1
    then have "k = KByte" "t = 0" "s = 1" using assms(1) by (auto simp: readKind_def split: if_splits)
    moreover have "h \<le> 0x7F" using 1 by (simp add: word_le_nat_alt word_less_nat_alt)
    ultimately show ?thesis unfolding reads_def
      by (intro exI [of _ "[h]"] exI [of _ b']) simp
  next
    case 2
    then have h: "\<not> h < 0x80" "h < 0xB8" by (auto simp: word_le_nat_alt word_less_nat_alt)
    then have "k = KString" "t = 1" "s = ucast (h - 0x80)"
      "\<not> (of_nat (length (h # b')) - 1 :: u64) < ucast (h - 0x80)"
      "\<not> (ucast (h - 0x80) = (1 :: u64) \<and> length (h # b') > 1 \<and> (h # b') ! 1 < 128)"
      using assms(1) by (auto simp: readKind_def Let_def split: if_splits)
    with reads_small [of h "0x80" b'] assms(2) byte_range [OF 2] show ?thesis by simp
  next
    case 3
    then have h: "\<not> h < 0x80" "\<not> h < 0xB8" "h < 0xC0" by (auto simp: word_le_nat_alt word_less_nat_alt)
    then have "k = KString" "t = ucast (h - 0xB7) + 1" "readSize b' (unat (h - 0xB7)) = Inr s"
      "\<not> (of_nat (length (h # b')) - (ucast (h - 0xB7) + 1) :: u64) < s"
      using assms(1) by (auto simp: readKind_def Let_def map_sum_eq_Inr split: if_splits sum.splits)
    moreover have "0xB7 \<le> h" using 3 by (simp add: word_le_nat_alt)
    ultimately show ?thesis
      using reads_large [of b' h "0xB7" s KString "0x80"] assms(2) byte_range [OF _ 3(2), of "0xB7"]
        byte_range [OF 3] by simp
  next
    case 4
    then have h: "\<not> h < 0x80" "\<not> h < 0xB8" "\<not> h < 0xC0" "h < 0xF8"
      by (auto simp: word_le_nat_alt word_less_nat_alt)
    then have "k = KList" "t = 1" "s = ucast (h - 0xC0)"
      "\<not> (of_nat (length (h # b')) - 1 :: u64) < ucast (h - 0xC0)"
      using assms(1) by (auto simp: readKind_def Let_def split: if_splits)
    with reads_small [of h "0xC0" b'] assms(2) byte_range [OF 4] show ?thesis by simp
  next
    case 5
    then have h: "\<not> h < 0x80" "\<not> h < 0xB8" "\<not> h < 0xC0" "\<not> h < 0xF8"
      by (auto simp: word_le_nat_alt word_less_nat_alt)
    then have "k = KList" "t = ucast (h - 0xF7) + 1" "readSize b' (unat (h - 0xF7)) = Inr s"
      "\<not> (of_nat (length (h # b')) - (ucast (h - 0xF7) + 1) :: u64) < s"
      using assms(1) by (auto simp: readKind_def Let_def map_sum_eq_Inr split: if_splits sum.splits)
    moreover have "0xF7 \<le> h" "h \<le> 0xFF" using 5 byte_le_max by (simp_all add: word_le_nat_alt)
    ultimately show ?thesis
      using reads_large [of b' h "0xF7" s KList "0xC0"] assms(2) byte_range [of "0xF7" h "0xFF"]
        byte_range [OF 5, of "0xFF"] by simp
  qed
qed

lemma reads_size:
  assumes "reads b k t s" "length b < 2 ^ 64"
  obtains c rest where "framed k c" "b = frame k c @ rest" "unat s = length c"
    "unat t = length (frame k c) - length c" "unat (t + s) = length (frame k c)"
proof -
  obtain c rest where r: "framed k c" "b = frame k c @ rest" "unat s = length c"
    "unat t + unat s = length (frame k c)"
    using assms(1) unfolding reads_def by blast
  have "unat t + unat s < 2 ^ 64" using r assms(2) by simp
  then have "unat (t + s) = unat t + unat s" by (simp add: unat_word_ariths)
  with r that show thesis by simp
qed

lemma frame_facts:
  "framed k c \<Longrightarrow> frame k c \<noteq> []" "length c \<le> length (frame k c)"
  "drop (length (frame k c) - length c) (frame k c) = c"
  by (cases k; auto simp: header_def)+

lemma frame_sizes:
  assumes "length (frame k c) < 2 ^ 64"
  shows "unat (of_nat (length (frame k c) - length c) + of_nat (length c) :: u64) = length (frame k c)"
    "unat (of_nat (length (frame k c) - length c) :: u64) = length (frame k c) - length c"
proof -
  have "of_nat (length (frame k c) - length c) + of_nat (length c) = (of_nat (length (frame k c)) :: u64)"
    using frame_facts(2) [of c k] by (simp flip: of_nat_add)
  then show "unat (of_nat (length (frame k c) - length c) + of_nat (length c) :: u64) = length (frame k c)"
    using assms by (simp add: unat_of_nat_u64)
  show "unat (of_nat (length (frame k c) - length c) :: u64) = length (frame k c) - length c"
    using assms by (intro unat_of_nat_u64) simp
qed

lemma Split_iff:
  assumes "length b < 2 ^ 64"
  shows "Split b = Inr (k, c, rest) \<longleftrightarrow> framed k c \<and> b = frame k c @ rest"
proof
  assume "Split b = Inr (k, c, rest)"
  then obtain t s where r: "readKind b = Inr (k, t, s)"
    "c = slice (unat t) (unat (t + s)) b" "rest = drop (unat (t + s)) b"
    by (auto simp: Split_def map_sum_eq_Inr)
  obtain d rest' where "framed k d" "b = frame k d @ rest'"
    "unat t = length (frame k d) - length d" "unat (t + s) = length (frame k d)"
    using reads_size [OF readKind_reads [OF r(1) assms] assms] by metis
  with r(2,3) frame_facts(2) [of d k] frame_facts(3) [of k d] show "framed k c \<and> b = frame k c @ rest"
    by (simp add: slice_def)
next
  assume a: "framed k c \<and> b = frame k c @ rest"
  then have f: "framed k c" "length (frame k c @ rest) < 2 ^ 64" "length (frame k c) < 2 ^ 64"
    using assms by auto
  show "Split b = Inr (k, c, rest)"
    using a frame_facts(2) [of c k] frame_facts(3) [of k c]
    by (simp add: Split_def readKind_frame [OF f(1,2)] frame_sizes [OF f(3)] slice_def del: of_nat_diff)
qed

lemma count_values_terminates:
  assumes "length b < 2 ^ 64" "length b \<le> fuel"
  shows "count_values fuel i b \<noteq> None" "split_values fuel b \<noteq> None"
proof -
  have "count_values fuel i b \<noteq> None \<and> split_values fuel b \<noteq> None"
    using assms
  proof (induction fuel arbitrary: i b)
    case (Suc fuel)
    show ?case
    proof (cases "b = [] \<or> (\<exists>e. readKind b = Inl e)")
      case False
      then obtain k t s where r: "readKind b = Inr (k, t, s)" "b \<noteq> []"
        by (metis prod_cases3 sum.exhaust)
      obtain c rest where c: "framed k c" "b = frame k c @ rest" "unat (t + s) = length (frame k c)"
        using reads_size [OF readKind_reads [OF r(1) Suc.prems(1)] Suc.prems(1)] by metis
      have "length (drop (unat (t + s)) b) < length b"
        using c frame_facts(1) by simp
      with Suc.IH [of "drop (unat (t + s)) b" "i + 1"] Suc.prems r show ?thesis
        by (simp add: count_values_nonempty split_values_nonempty)
    next
      case True
      then show ?thesis
        by (cases "b = []") (auto simp: count_values_nonempty split_values_nonempty)
    qed
  qed simp
  then show "count_values fuel i b \<noteq> None" "split_values fuel b \<noteq> None" by auto
qed

section \<open>Sequences of values\<close>

lemma frames_simps [simp]:
  "frames []" "frames (v # vs) \<longleftrightarrow> (\<exists>k c. framed k c \<and> v = frame k c) \<and> frames vs"
  "frames (vs @ ws) \<longleftrightarrow> frames vs \<and> frames ws"
  by (auto simp: frames_def)

lemma values_step:
  assumes "framed k c" "length (frame k c @ rest) < 2 ^ 64"
  shows "count_values (Suc fuel) i (frame k c @ rest) = count_values fuel (i + 1) rest"
    "split_values (Suc fuel) (frame k c @ rest) =
       map_option (map_sum id (\<lambda>es. frame k c # es)) (split_values fuel rest)"
proof -
  have l: "length (frame k c) < 2 ^ 64" using assms by simp
  have "frame k c @ rest \<noteq> []" using frame_facts(1) [OF assms(1)] by simp
  note n = count_values_nonempty [OF this] split_values_nonempty [OF this]
  show "count_values (Suc fuel) i (frame k c @ rest) = count_values fuel (i + 1) rest"
    "split_values (Suc fuel) (frame k c @ rest) =
       map_option (map_sum id (\<lambda>es. frame k c # es)) (split_values fuel rest)"
    by (simp_all only: n readKind_frame [OF assms] sum.case prod.case frame_sizes [OF l]
        take_append drop_append take_all drop_all diff_self_eq_0 take_0 drop_0 append_Nil
        append_Nil2 order_refl)
qed

lemma length_frames: "frames vs \<Longrightarrow> length vs \<le> length (concat vs)"
proof (induction vs)
  case (Cons v vs)
  then have "1 \<le> length v" using frame_facts(1) by (cases v) fastforce+
  with Cons show ?case by (simp del: length_concat)
qed simp

lemma count_frames:
  assumes "frames vs" "length (concat vs) < 2 ^ 64" "length vs \<le> fuel"
  shows "count_values fuel i (concat vs) = Some (i + length vs, None)"
    "split_values fuel (concat vs) = Some (Inr vs)"
proof -
  have "count_values fuel i (concat vs) = Some (i + length vs, None) \<and>
      split_values fuel (concat vs) = Some (Inr vs)"
    using assms
  proof (induction vs arbitrary: fuel i)
    case (Cons v vs)
    then obtain k c f where v: "framed k c" "v = frame k c" "fuel = Suc f" "frames vs"
      by (cases fuel) auto
    with Cons.prems Cons.IH [of f "i + 1"] values_step [of k c "concat vs" f] show ?case
      by (simp del: length_concat)
  qed simp
  then show "count_values fuel i (concat vs) = Some (i + length vs, None)"
    "split_values fuel (concat vs) = Some (Inr vs)" by auto
qed

lemma frame_enc: "\<exists>k c. framed k c \<and> enc x = frame k c"
proof (cases x)
  case (Str b)
  then show ?thesis
    by (cases "length b = 1 \<and> b ! 0 \<le> 0x7F") (fastforce intro: exI [of _ KByte] exI [of _ KString])+
next
  case (Lst xs)
  then show ?thesis by (intro exI [of _ KList] exI [of _ "concat (map enc xs)"]) (simp add: Let_def)
qed

lemma frames_enc [simp]: "frames (map enc xs)"
  using frame_enc by (auto simp: frames_def)

lemma SplitListValues_frames:
  assumes "frames vs" "length (frame KList (concat vs) @ rest) < 2 ^ 64"
  shows "SplitListValues (frame KList (concat vs) @ rest) = Some (Inr vs)"
proof -
  have l: "length (concat vs) < 2 ^ 64" using assms(2) by (simp del: length_concat)
  note v = count_frames [OF assms(1) l length_frames [OF assms(1)]]
  have "Split (frame KList (concat vs) @ rest) = Inr (KList, concat vs, rest)"
    using Split_iff [OF assms(2)] by simp
  then have "SplitList (frame KList (concat vs) @ rest) = Inr (concat vs, rest)"
    by (simp only: SplitList_def) simp
  then show ?thesis by (simp only: SplitListValues_def CountValues_def v) (simp add: v del: length_concat)
qed

lemma enc_Lst: "enc (Lst xs) = frame KList (concat (map enc xs))"
  by (simp add: Let_def)

lemma enc_Str: "enc (Str b) = frame (item_kind (Str b)) b" "framed (item_kind (Str b)) b"
  by simp_all

lemma enc_inj:
  assumes "enc x = enc y" "length (enc x) < 2 ^ 64"
  shows "x = y"
  using assms
proof (induction x arbitrary: y)
  case (Str b)
  have s: "Split (enc (Str b)) = Inr (item_kind (Str b), b, [])"
    using Split_iff [OF Str(2)] enc_Str by simp
  show ?case
  proof (cases y)
    case (Str d)
    have "length (enc (Str d)) < 2 ^ 64" using Str.prems Str by simp
    then have "Split (enc (Str d)) = Inr (item_kind (Str d), d, [])"
      using Split_iff enc_Str by simp
    with s Str Str.prems(1) show ?thesis by simp
  next
    case (Lst ys)
    have "Split (enc (Lst ys)) = Inr (KList, concat (map enc ys), [])"
      using Split_iff [of "enc (Lst ys)"] Str.prems Lst by (simp add: Let_def)
    with s Lst Str.prems(1) show ?thesis by (simp split: if_splits)
  qed
next
  case (Lst xs)
  have s: "SplitListValues (enc (Lst xs)) = Some (Inr (map enc xs))"
    using SplitListValues_frames [of "map enc xs" "[]"] Lst.prems(2) by (simp add: enc_Lst del: enc.simps)
  show ?case
  proof (cases y)
    case (Str d)
    then have "length (enc (Str d)) < 2 ^ 64" using Lst.prems by simp
    then have "Split (enc (Str d)) = Inr (item_kind (Str d), d, [])"
      using Split_iff enc_Str by simp
    moreover have "Split (enc (Lst xs)) = Inr (KList, concat (map enc xs), [])"
      using Split_iff [OF Lst.prems(2)] by (simp add: Let_def)
    ultimately show ?thesis using Str Lst.prems(1) by (simp split: if_splits)
  next
    case (Lst ys)
    then have "SplitListValues (enc (Lst ys)) = Some (Inr (map enc ys))"
      using SplitListValues_frames [of "map enc ys" "[]"] Lst.prems by (simp add: enc_Lst del: enc.simps)
    with s Lst Lst.prems(1) have m: "map enc xs = map enc ys" by simp
    have "z = za" if "z \<in> set xs" "enc z = enc za" for z za
    proof -
      have "length (enc z) < 2 ^ 64"
        using length_enc_member [OF that(1)] Lst.prems(2) by (simp add: Let_def del: length_concat)
      then show ?thesis by (rule Lst.IH [OF that])
    qed
    then have "xs = ys" using list.inj_map_strong [OF _ m] by blast
    with Lst show ?thesis by simp
  qed
qed

section \<open>Integers as values\<close>

lemma big_bytes_byte: "d \<noteq> 0 \<Longrightarrow> big_bytes (unat d) = [d :: byte]"
  using big_bytes_be_nat [of "[d]"] by (simp add: be_nat_def)

lemma AppendUint64_enc: "AppendUint64 b i = b @ enc (Str (big_bytes (unat i)))"
proof -
  consider "i = 0" | "i \<noteq> 0" "i < 128" | "\<not> i < 128" by blast
  then show ?thesis
  proof cases
    case 1
    then show ?thesis by (simp add: AppendUint64_def header_def big_bytes.simps [of 0])
  next
    case 2
    then have u: "unat i < 128" "unat i \<noteq> 0" by (simp_all add: word_less_nat_alt unat_eq_0)
    then have b: "unat (of_nat (unat i) :: byte) = unat i"
      by (simp only: unat_of_nat_byte) simp
    then have "of_nat (unat i) \<noteq> (0 :: byte)" "(of_nat (unat i) :: byte) \<le> 0x7F"
      using u by (simp_all only: word_le_nat_alt unat_eq_0 [symmetric]) simp_all
    with b big_bytes_byte [of "of_nat (unat i)"] have "big_bytes (unat i) = [ucast i]" "(ucast i :: byte) \<le> 0x7F"
      by (simp_all only: of_nat_unat not_False_eq_True)
    then show ?thesis using 2 by (simp add: AppendUint64_def)
  next
    case 3
    then have i: "i \<noteq> 0" "128 \<le> unat i" by (auto simp: word_less_nat_alt)
    let ?c = "big_bytes (unat i)"
    have "length ?c < 56" using putint_size_bounds(2) [of i] putint_size_big_bytes [OF i(1)] by simp
    moreover have "\<not> (length ?c = 1 \<and> ?c ! 0 \<le> 0x7F)"
    proof
      assume a: "length ?c = 1 \<and> ?c ! 0 \<le> 0x7F"
      then obtain d where d: "?c = [d]" by (cases ?c) auto
      then have "unat d = unat i" using be_nat_big_bytes [of "unat i"] by (simp add: be_nat_def)
      moreover have "unat d \<le> 127" using a d by (simp add: word_le_nat_alt)
      ultimately show False using i(2) by simp
    qed
    ultimately have "enc (Str ?c) = (0x80 + of_nat (length ?c)) # ?c"
      by (simp only: enc.simps header_def if_False if_True append_Cons append_Nil)
    then show ?thesis
      using 3 by (simp only: AppendUint64_def putint_big_bytes [OF i(1)] putint_size_big_bytes [OF i(1)]
          i(1) if_False)
  qed
qed

lemma writeUint64_append: "writeUint64 i buf = eb_append (AppendUint64 [] i) buf"
  by (simp add: writeUint64_def AppendUint64_def Let_def)

lemma SplitString_iff:
  assumes "length b < 2 ^ 64"
  shows "SplitString b = Inr (c, rest) \<longleftrightarrow> b = enc (Str c) @ rest"
proof
  assume "SplitString b = Inr (c, rest)"
  then obtain k where "Split b = Inr (k, c, rest)" "k \<noteq> KList"
    by (auto simp: SplitString_def split: sum.splits if_splits)
  then show "b = enc (Str c) @ rest" using Split_iff [OF assms] by (cases k) auto
next
  assume "b = enc (Str c) @ rest"
  then have "Split b = Inr (item_kind (Str c), c, rest)" using Split_iff [OF assms] enc_Str by simp
  then show "SplitString b = Inr (c, rest)" by (simp add: SplitString_def)
qed

lemma SplitUint64_iff:
  "SplitUint64 b = Inr (x, rest) \<longleftrightarrow> SplitString b = Inr (big_bytes (unat x), rest)"
proof
  assume a: "SplitUint64 b = Inr (x, rest)"
  then obtain c where c: "SplitString b = Inr (c, rest)"
    by (auto simp: SplitUint64_def split: sum.splits if_splits)
  consider "c = []" | d where "c = [d]" | "2 \<le> length c" by (cases c; cases "tl c") auto
  then have "c = big_bytes (unat x)"
  proof cases
    case 1
    with a c show ?thesis by (simp add: SplitUint64_def big_bytes.simps [of 0])
  next
    case 2
    with a c have "d \<noteq> 0" "x = ucast d" by (auto simp: SplitUint64_def split: if_splits)
    then show ?thesis using 2 big_bytes_byte by simp
  next
    case 3
    with a c have "readSize c (length c) = Inr x" "length c \<le> 8"
      by (auto simp: SplitUint64_def split: if_splits sum.splits)
    with readSize_Inr(2) [of c "length c" x] 3 show ?thesis by simp
  qed
  with c show "SplitString b = Inr (big_bytes (unat x), rest)" by simp
next
  let ?c = "big_bytes (unat x)"
  assume s: "SplitString b = Inr (?c, rest)"
  have l8: "length ?c \<le> 8" using length_big_bytes_le [of "unat x" 8] unat_u64_bound [of x] by simp
  consider "x = 0" | d where "?c = [d]" "x \<noteq> 0" | "2 \<le> length ?c"
    by (cases ?c; cases "tl ?c") (auto simp: big_bytes.simps [of "unat x"] unat_eq_0 split: if_splits)
  then show "SplitUint64 b = Inr (x, rest)"
  proof cases
    case 1
    with s show ?thesis by (simp add: SplitUint64_def big_bytes.simps [of 0])
  next
    case 2
    then have "d \<noteq> 0" "unat d = unat x"
      using hd_big_bytes [of "unat x"] be_nat_big_bytes [of "unat x"] by (auto simp: be_nat_def unat_eq_0)
    then have "d \<noteq> 0" "ucast d = x" by (auto simp: word_unat_eq_iff)
    with s 2 show ?thesis by (simp add: SplitUint64_def)
  next
    case 3
    then have "\<not> unat x < 256" using length_big_bytes_le [of "unat x" 1] by simp
    then have "readSize ?c (length ?c) = Inr x"
      using readSize_big_bytes [of "unat x" "[]"] unat_u64_bound [of x] by simp
    with s 3 l8 show ?thesis by (auto simp: SplitUint64_def)
  qed
qed

section \<open>Raw lists and iterators\<close>

lemma length_puthead:
  "1 \<le> length (puthead a b n)" "length (puthead a b n) \<le> 9"
  using putint_size_bounds(2) [of n] by (auto simp: puthead_def Let_def)

lemma rl_Bytes_frame:
  assumes "rl_ok r" "length (rl_Content r) < 2 ^ 64"
  shows "fst (rl_Bytes r) = frame KList (rl_Content r)"
    "rl_Content (snd (rl_Bytes r)) = rl_Content r" "rl_length (snd (rl_Bytes r)) = rl_length r"
proof -
  let ?h = "puthead 0xC0 0xF7 (of_nat (length (rl_Content r)))"
  have h: "?h = header 0xC0 0xF7 (length (rl_Content r))" using puthead_header assms(2) by simp
  show "fst (rl_Bytes r) = frame KList (rl_Content r)"
    "rl_Content (snd (rl_Bytes r)) = rl_Content r" "rl_length (snd (rl_Bytes r)) = rl_length r"
  proof (atomize (full), cases "rl_enc r")
    case None
    then show "fst (rl_Bytes r) = frame KList (rl_Content r) \<and>
      rl_Content (snd (rl_Bytes r)) = rl_Content r \<and> rl_length (snd (rl_Bytes r)) = rl_length r"
      by (simp add: rl_Bytes_def rl_Content_def header_def)
  next
    case (Some e)
    then have e: "9 \<le> length e" "rl_Content r = drop 9 e" using assms(1)
      by (auto simp: rl_ok_def rl_Content_def)
    have n: "length ?h \<le> 9" by (rule length_puthead)
    define p where "p = take (9 - length ?h) (?h @ drop (length ?h) e)"
    have p: "length p = 9 - length ?h" using n e(1) by (simp add: p_def)
    have d: "drop 9 (?h @ drop (length ?h) e) = drop 9 e" using n by simp
    have "rl_Bytes r = (drop (9 - length ?h) (p @ ?h @ drop 9 e), r\<lparr>rl_enc := Some (p @ ?h @ drop 9 e)\<rparr>)"
      unfolding rl_Bytes_def Some option.case Let_def d p_def [symmetric] by simp
    moreover have "drop (9 - length ?h) (p @ ?h @ drop 9 e) = ?h @ drop 9 e"
      using p by simp
    moreover have "drop 9 (p @ ?h @ drop 9 e) = drop 9 e" using p n by simp
    ultimately show "fst (rl_Bytes r) = frame KList (rl_Content r) \<and>
      rl_Content (snd (rl_Bytes r)) = rl_Content r \<and> rl_length (snd (rl_Bytes r)) = rl_length r"
      using e(2) h by (simp add: rl_Content_def)
  qed
qed

lemma rl_buffer_drop: "rl_ok r \<Longrightarrow> drop 9 (rl_buffer r @ b) = rl_Content r @ b \<and> 9 \<le> length (rl_buffer r)"
  by (auto simp: rl_ok_def rl_buffer_def rl_Content_def split: option.splits)

lemma rl_ok_add:
  assumes "rl_ok r" "frames ws"
  shows "rl_ok (r\<lparr>rl_enc := Some (rl_buffer r @ concat ws), rl_length := rl_length r + length ws\<rparr>)"
    "rl_Content (r\<lparr>rl_enc := Some (rl_buffer r @ concat ws), rl_length := n\<rparr>) = rl_Content r @ concat ws"
proof -
  have c: "rl_Content (r\<lparr>rl_enc := Some (rl_buffer r @ concat ws), rl_length := n\<rparr>) = rl_Content r @ concat ws" for n
    using rl_buffer_drop [OF assms(1), of "concat ws"] by (subst rl_Content_def) auto
  obtain vs where "frames vs" "rl_Content r = concat vs" "rl_length r = length vs"
    using assms(1) by (auto simp: rl_ok_def)
  with assms(2) show "rl_ok (r\<lparr>rl_enc := Some (rl_buffer r @ concat ws), rl_length := rl_length r + length ws\<rparr>)"
    unfolding rl_ok_def c using rl_buffer_drop [OF assms(1)]
    by (auto intro!: exI [of _ "vs @ ws"] simp: trans_le_add1)
  show "rl_Content (r\<lparr>rl_enc := Some (rl_buffer r @ concat ws), rl_length := n\<rparr>) = rl_Content r @ concat ws"
    by (rule c)
qed

lemma rl_AppendRaw_iff:
  assumes "length b < 2 ^ 64"
  shows "rl_AppendRaw b r = Inr r' \<longleftrightarrow>
    (\<exists>k c. framed k c \<and> b = frame k c) \<and>
    r' = r\<lparr>rl_enc := Some (rl_buffer r @ b), rl_length := rl_length r + 1\<rparr>"
proof
  assume "rl_AppendRaw b r = Inr r'"
  then obtain k t s where r: "readKind b = Inr (k, t, s)" "t + s = of_nat (length b)"
    "r' = r\<lparr>rl_enc := Some (rl_buffer r @ b), rl_length := rl_length r + 1\<rparr>"
    by (auto simp: rl_AppendRaw_def split: sum.splits if_splits)
  obtain c rest where c: "framed k c" "b = frame k c @ rest" "unat (t + s) = length (frame k c)"
    using reads_size [OF readKind_reads [OF r(1) assms] assms] by metis
  have "unat (t + s) = length b" unfolding r(2) using assms by (rule unat_of_nat_u64)
  with c r(3) show "(\<exists>k c. framed k c \<and> b = frame k c) \<and>
    r' = r\<lparr>rl_enc := Some (rl_buffer r @ b), rl_length := rl_length r + 1\<rparr>" by auto
next
  assume "(\<exists>k c. framed k c \<and> b = frame k c) \<and>
    r' = r\<lparr>rl_enc := Some (rl_buffer r @ b), rl_length := rl_length r + 1\<rparr>"
  then obtain k c where c: "framed k c" "b = frame k c"
    and r': "r' = r\<lparr>rl_enc := Some (rl_buffer r @ b), rl_length := rl_length r + 1\<rparr>" by auto
  have "of_nat (length b - length c) + of_nat (length c) = (of_nat (length b) :: u64)"
    using frame_facts(2) [of c k] c(2) by (simp flip: of_nat_add)
  with readKind_frame [of k c "[]"] c r' assms show "rl_AppendRaw b r = Inr r'"
    by (simp add: rl_AppendRaw_def del: of_nat_diff)
qed

lemma EncodeToBytes_enc:
  "length (enc x) < 2 ^ 64 \<Longrightarrow> EncodeToBytes x = enc x \<and> eb_size (write_item x eb_new) = length (enc x)"
  using makeBytes_emits [OF write_item_emits] by (simp add: EncodeToBytes_def)

lemma MergeListValues_frame:
  assumes "length (concat vs) < 2 ^ 64"
  shows "MergeListValues vs = frame KList (concat vs)"
proof -
  obtain i b where l: "eb_list eb_new = (i, b)" by fastforce
  have "emits b (fold eb_append vs b) (concat (map (\<lambda>v. v) vs))"
    by (intro emits_fold emits_append)
  then have "emits eb_new (eb_listEnd i (fold eb_append vs b)) (frame KList (concat vs))"
    using emits_list [OF l] assms by simp
  from makeBytes_emits(1) [OF this] l show ?thesis by (simp add: MergeListValues_def)
qed

lemma rl_append_ops:
  assumes "rl_ok r" "length (enc x) < 2 ^ 64" "rl_ok oth"
  shows "rl_ok (rl_Append x r)" "rl_Content (rl_Append x r) = rl_Content r @ enc x"
    "rl_ok (rl_AppendList oth r)" "rl_Content (rl_AppendList oth r) = rl_Content r @ rl_Content oth"
    "rl_length (rl_AppendList oth r) = rl_length r + rl_length oth"
proof -
  have e: "rl_Append x r = r\<lparr>rl_enc := Some (rl_buffer r @ concat [enc x]), rl_length := rl_length r + length [enc x]\<rparr>"
    using makeBytes_emits [OF write_item_emits [OF assms(2)]] by (simp add: rl_Append_def)
  have f: "frames [enc x]" using frame_enc [of x] by simp
  show "rl_ok (rl_Append x r)" "rl_Content (rl_Append x r) = rl_Content r @ enc x"
    unfolding e using rl_ok_add [OF assms(1) f] by auto
  obtain ws where w: "frames ws" "rl_Content oth = concat ws" "rl_length oth = length ws"
    using assms(3) by (auto simp: rl_ok_def)
  have z: "rl_enc oth = None \<or> rl_length oth = 0 \<Longrightarrow> rl_length oth = 0 \<and> rl_Content oth = []"
    using assms(3) w by (auto simp: rl_ok_def rl_Content_def)
  show "rl_ok (rl_AppendList oth r)" "rl_Content (rl_AppendList oth r) = rl_Content r @ rl_Content oth"
    "rl_length (rl_AppendList oth r) = rl_length r + rl_length oth"
    using rl_ok_add [OF assms(1) w(1)] assms(1) z by (auto simp: rl_AppendList_def w(2,3))
qed

lemma it_Next_frame:
  assumes "framed k c" "length (frame k c @ rest) < 2 ^ 64" "it_data it = frame k c @ rest"
  shows "it_Next it = (True, it\<lparr>it_next := frame k c, it_data := rest,
     it_offset := it_offset it + length (frame k c), it_err := None\<rparr>)"
proof -
  have l: "length (frame k c) < 2 ^ 64" using assms by simp
  show ?thesis
    using frame_facts(1) [OF assms(1)]
    by (simp add: it_Next_def assms(3) readKind_frame [OF assms(1,2)] frame_sizes [OF l] Let_def del: of_nat_diff)
qed

lemma it_Next_run:
  assumes "frames vs" "length (concat vs) < 2 ^ 64" "n < length vs" "it_data it = concat vs"
  shows "it_data (((\<lambda>it. snd (it_Next it)) ^^ Suc n) it) = concat (drop (Suc n) vs) \<and>
    it_next (((\<lambda>it. snd (it_Next it)) ^^ Suc n) it) = vs ! n \<and>
    it_offset (((\<lambda>it. snd (it_Next it)) ^^ Suc n) it) = it_offset it + length (concat (take (Suc n) vs))"
  using assms
proof (induction vs arbitrary: it n)
  case (Cons v vs)
  then obtain k c where v: "framed k c" "v = frame k c" by auto
  let ?it = "it\<lparr>it_next := v, it_data := concat vs, it_offset := it_offset it + length v, it_err := None\<rparr>"
  have s: "snd (it_Next it) = ?it"
    using it_Next_frame [OF v(1), of "concat vs" it] Cons.prems v(2) by (simp del: length_concat)
  show ?case
  proof (cases n)
    case 0
    with s show ?thesis by simp
  next
    case (Suc m)
    then have "((\<lambda>it. snd (it_Next it)) ^^ Suc n) it = ((\<lambda>it. snd (it_Next it)) ^^ Suc m) ?it"
      using s by (simp only: funpow_Suc_right comp_apply)
    with Cons.IH [of m ?it] Cons.prems Suc show ?thesis by (simp del: length_concat funpow.simps)
  qed
qed simp

section \<open>Correctness of the codec\<close>

text \<open>C23: The encoder buffer, which keeps list headers apart from the data and merges them when
the buffer is read, implements the recursive RLP encoding: for every value whose encoding is
shorter than 2^64 bytes, \<open>EncodeToBytes\<close> returns that encoding, and the size the buffer
computes for the output before copying is exactly its length.\<close>

theorem encode_refines:
  assumes "length (enc x) < 2 ^ 64"
  shows "EncodeToBytes x = enc x \<and> eb_size (write_item x eb_new) = length (enc x)"
  using assms by (rule EncodeToBytes_enc)

theorem encode_refines_witness:
  "EncodeToBytes (Lst [Str [1, 2], Lst [Str [0x80]]]) = [0xC6, 0x82, 1, 2, 0xC2, 0x81, 0x80]"
  using encode_refines [of "Lst [Str [1, 2], Lst [Str [0x80]]]"] by (simp add: header_def)

text \<open>C24: What \<open>Split\<close> accepts is exactly the canonical encodings: it reports kind k, content c
and remainder rest if and only if the input is the one canonical frame of that kind around c,
followed by rest. In particular non-minimal length fields and single bytes written as strings
are refused.\<close>

theorem split_accepts_canonical:
  assumes "length b < 2 ^ 64"
  shows "Split b = Inr (k, c, rest) \<longleftrightarrow> framed k c \<and> b = frame k c @ rest"
  using assms by (rule Split_iff)

theorem split_accepts_canonical_witness:
  "Split [0x82, 1, 2, 3] = Inr (KString, [1, 2], [3]) \<and> Split [0x81, 5] \<noteq> Inr (KString, [5], [])"
  using split_accepts_canonical [of "[0x82, 1, 2, 3]" KString "[1, 2]" "[3]"]
    split_accepts_canonical [of "[0x81, 5]" KString "[5]" "[]"] by (simp add: header_def)

text \<open>C25: Encoding is injective and lists decode element by element: two values with the same
encoding are equal; splitting the encoding of a list, with any bytes behind it, returns the
encodings of its elements, and merging those gives the encoding back.\<close>

theorem encoding_roundtrip:
  assumes "length (EncodeToBytes (Lst xs) @ rest) < 2 ^ 64" "length (enc (Lst xs)) < 2 ^ 64"
  shows "SplitListValues (EncodeToBytes (Lst xs) @ rest) = Some (Inr (map EncodeToBytes xs)) \<and>
    MergeListValues (map EncodeToBytes xs) = EncodeToBytes (Lst xs) \<and>
    (length (enc y) < 2 ^ 64 \<longrightarrow> EncodeToBytes y = EncodeToBytes (Lst xs) \<longrightarrow> y = Lst xs)"
proof -
  have c: "length (concat (map enc xs)) < 2 ^ 64" using assms(2) by (simp add: Let_def del: length_concat)
  have m: "map EncodeToBytes xs = map enc xs"
    using EncodeToBytes_enc length_enc_member [of _ xs] c by (auto intro: le_less_trans)
  have l: "EncodeToBytes (Lst xs) = enc (Lst xs)" using EncodeToBytes_enc assms(2) by blast
  then have "SplitListValues (EncodeToBytes (Lst xs) @ rest) = Some (Inr (map EncodeToBytes xs))"
    unfolding l m using SplitListValues_frames [of "map enc xs" rest] assms(1)
    by (simp only: enc_Lst frames_enc l)
  moreover have "MergeListValues (map EncodeToBytes xs) = EncodeToBytes (Lst xs)"
    unfolding l m using MergeListValues_frame [OF c] by (simp only: enc_Lst)
  ultimately show ?thesis using enc_inj [of y "Lst xs"] EncodeToBytes_enc [of y] l by auto
qed

theorem encoding_roundtrip_witness:
  "SplitListValues (EncodeToBytes (Lst [Str [7], Lst []]) @ [9]) = Some (Inr [[7], [0xC0]])"
  using encoding_roundtrip [of "[Str [7], Lst []]" "[9]" "Str []"]
    EncodeToBytes_enc [of "Lst [Str [7], Lst []]"] EncodeToBytes_enc [of "Str [7]"]
    EncodeToBytes_enc [of "Lst []"] by (simp add: header_def)

text \<open>Integers decode canonically: on input shorter than 2^64 bytes \<open>SplitUint64\<close> returns x and
the rest if and only if the input is what \<open>AppendUint64\<close> writes for x, followed by the rest; the
writer of the buffer adds the same bytes.\<close>

theorem uint64_roundtrip:
  assumes "length b < 2 ^ 64"
  shows "(SplitUint64 b = Inr (x, rest) \<longleftrightarrow> b = AppendUint64 [] x @ rest) \<and>
    writeUint64 x buf = eb_append (AppendUint64 [] x) buf"
  using SplitUint64_iff [of b x rest] SplitString_iff [OF assms] AppendUint64_enc [of "[]" x]
    writeUint64_append by simp

theorem uint64_roundtrip_witness:
  "SplitUint64 [0x82, 1, 0, 5] = Inr (256, [5])"
proof -
  have "AppendUint64 [] 256 = [0x82, 1, 0]" by code_simp
  with uint64_roundtrip [of "[0x82, 1, 0, 5]" 256 "[5]" eb_new] show ?thesis by simp
qed


text \<open>A \<open>RawList\<close> always holds a well-formed sequence of as many values as its length says.
The empty list does, and every append keeps it so: \<open>Append\<close> adds the encoding of the item,
\<open>AppendRaw\<close> accepts exactly the byte strings that are one canonical value, and \<open>AppendList\<close>
concatenates. \<open>Bytes\<close> then returns the canonical list encoding of the content and
\<open>CountValues\<close> of the content is the length.\<close>

theorem raw_list_invariant:
  assumes "rl_ok r" "rl_ok oth" "length (enc x) < 2 ^ 64" "length b < 2 ^ 64"
    "length (rl_Content r) < 2 ^ 64"
  shows "rl_ok rl_empty \<and> rl_ok (rl_Append x r) \<and> rl_Content (rl_Append x r) = rl_Content r @ enc x \<and>
    rl_ok (rl_AppendList oth r) \<and>
    rl_Content (rl_AppendList oth r) = rl_Content r @ rl_Content oth \<and>
    ((\<exists>r'. rl_AppendRaw b r = Inr r') \<longleftrightarrow> (\<exists>k c. framed k c \<and> b = frame k c)) \<and>
    (\<forall>r'. rl_AppendRaw b r = Inr r' \<longrightarrow> rl_ok r' \<and> rl_Content r' = rl_Content r @ b) \<and>
    fst (rl_Bytes r) = frame KList (rl_Content r) \<and>
    CountValues (rl_Content r) = Some (rl_length r, None)"
proof (intro conjI)
  show "rl_ok rl_empty" by (auto simp: rl_ok_def rl_empty_def rl_Content_def intro: exI [of _ "[]"])
  show "rl_ok (rl_Append x r)" "rl_Content (rl_Append x r) = rl_Content r @ enc x"
    "rl_ok (rl_AppendList oth r)" "rl_Content (rl_AppendList oth r) = rl_Content r @ rl_Content oth"
    using rl_append_ops assms by auto
  show "fst (rl_Bytes r) = frame KList (rl_Content r)" using rl_Bytes_frame assms by blast
  show "(\<exists>r'. rl_AppendRaw b r = Inr r') \<longleftrightarrow> (\<exists>k c. framed k c \<and> b = frame k c)"
    using rl_AppendRaw_iff [OF assms(4)] by auto
  show "\<forall>r'. rl_AppendRaw b r = Inr r' \<longrightarrow> rl_ok r' \<and> rl_Content r' = rl_Content r @ b"
    using rl_AppendRaw_iff [OF assms(4)] rl_ok_add [OF assms(1), of "[b]"] by auto
  obtain vs where v: "frames vs" "rl_Content r = concat vs" "rl_length r = length vs"
    using assms(1) by (auto simp: rl_ok_def)
  then show "CountValues (rl_Content r) = Some (rl_length r, None)"
    using count_frames(1) [OF v(1) _ length_frames [OF v(1)], of 0] assms(5)
    by (simp add: CountValues_def)
qed

theorem raw_list_invariant_witness:
  "rl_ok (rl_Append (Str [1, 2]) rl_empty) \<and> fst (rl_Bytes rl_empty) = [0xC0]"
proof -
  have "rl_ok rl_empty" by (auto simp: rl_ok_def rl_empty_def rl_Content_def intro: exI [of _ "[]"])
  then show ?thesis
    using raw_list_invariant [of rl_empty rl_empty "Str [1, 2]" "[5]"]
    by (simp add: header_def rl_Content_def rl_empty_def)
qed

text \<open>Iterating over an encoded list visits its values in order: after n+1 calls of \<open>Next\<close>
on the iterator of a list of at least n+1 values, the current value is the n-th one and
\<open>Offset\<close> is the position in the input at which it starts.\<close>

theorem iterator_visits_values:
  assumes "frames vs" "length (frame KList (concat vs)) < 2 ^ 64" "n < length vs"
  shows "\<exists>it it'. NewListIterator (frame KList (concat vs)) = Inr it \<and>
     it' = ((\<lambda>it. snd (it_Next it)) ^^ Suc n) it \<and> it_next it' = vs ! n \<and>
     has_prefix (vs ! n) (drop (it_Offset it') (frame KList (concat vs)))"
proof -
  let ?h = "header 0xC0 0xF7 (length (concat vs))"
  have l: "length (concat vs) < 2 ^ 64" using assms(2) by (simp del: length_concat)
  have "readKind (frame KList (concat vs) @ []) =
      Inr (KList, of_nat (length (frame KList (concat vs)) - length (concat vs)), of_nat (length (concat vs)))"
    using assms(2) by (intro readKind_frame) simp_all
  then have new: "NewListIterator (frame KList (concat vs)) = Inr (newIterator (concat vs) (length ?h))"
    using frame_sizes [OF assms(2)] frame_facts(3) [of KList "concat vs"]
    by (simp add: NewListIterator_def slice_def del: length_concat)
  let ?it = "((\<lambda>it. snd (it_Next it)) ^^ Suc n) (newIterator (concat vs) (length ?h))"
  have r: "it_next ?it = vs ! n"
    "it_offset ?it = length ?h + length (concat (take (Suc n) vs))"
    using it_Next_run [OF assms(1) l assms(3), of "newIterator (concat vs) (length ?h)"]
    by (simp_all add: newIterator_def del: length_concat funpow.simps)
  have v: "concat (take (Suc n) vs) = concat (take n vs) @ vs ! n"
    "vs = take n vs @ vs ! n # drop (Suc n) vs"
    using assms(3) by (simp_all add: take_Suc_conv_app_nth id_take_nth_drop [symmetric])
  have "concat (take n vs) @ vs ! n @ concat (drop (Suc n) vs) = concat vs"
    using arg_cong [OF v(2), of concat] by simp
  then have f: "frame KList (concat vs) = (?h @ concat (take n vs)) @ vs ! n @ concat (drop (Suc n) vs)"
    by (simp only: frame.simps append_assoc)
  have "it_Offset ?it = length (?h @ concat (take n vs))"
    by (simp add: it_Offset_def r v(1) del: length_concat funpow.simps)
  then have "has_prefix (vs ! n) (drop (it_Offset ?it) (frame KList (concat vs)))"
    unfolding f by (simp only: has_prefix_drop)
  with new r(1) show ?thesis by blast
qed

theorem iterator_visits_values_witness:
  "\<exists>it. NewListIterator [0xC2, 7, 8] = Inr it \<and>
     it_next (((\<lambda>it. snd (it_Next it)) ^^ Suc 1) it) = [8]"
proof -
  have "frames [[7], [8]]" by (auto intro!: exI [of _ KByte])
  from iterator_visits_values [OF this, of 1] show ?thesis by (auto simp: header_def)
qed

text \<open>C27: The loops over encoded values end on every input of fewer than 2^64 bytes, well-formed or
not: \<open>CountValues\<close> and \<open>SplitListValues\<close> always return.\<close>

theorem value_loops_terminate:
  assumes "length b < 2 ^ 64"
  shows "(\<exists>n e. CountValues b = Some (n, e)) \<and> (\<exists>r. SplitListValues b = Some r)"
proof -
  have c: "CountValues d \<noteq> None" "split_values (length d) d \<noteq> None" if "length d \<le> length b" for d
    using count_values_terminates(1) [of d "length d" 0] count_values_terminates(2) [of d "length d"]
      that assms by (auto simp: CountValues_def)
  have "length d \<le> length b" if "SplitList b = Inr (d, rest)" for d rest
  proof -
    have "Split b = Inr (KList, d, rest)"
      using that by (auto simp: SplitList_def split: sum.splits if_splits)
    then have "b = frame KList d @ rest" using Split_iff [OF assms] by simp
    then show ?thesis by simp
  qed
  then have "SplitListValues b \<noteq> None"
    using c by (fastforce simp: SplitListValues_def split: sum.splits option.splits)
  with c(1) [of b] show ?thesis by auto
qed

theorem value_loops_terminate_witness:
  "\<exists>r. SplitListValues [0xC2, 0x81, 5] = Some r"
  using value_loops_terminate [of "[0xC2, 0x81, 5]"] by simp

end
