(* ===== verification/Waves.thy ===== *)
theory Waves
  imports Rlp "HOL-Library.Multiset" "HOL-Library.List_Lexorder"
begin

unbundle bit_operations_syntax

text \<open>
  The optimistic scheduler of \<open>consensus/antartical/parallel.go\<close> and the conflict transcript
  of \<open>profile.go\<close>: access sets and their conflicts, the greedy waves, the execution of the
  waves, and the commitment to a schedule.

  The goroutines of a wave write their result in a critical section. The only choice the
  runtime has is the order in which they enter it: the function \<open>completes\<close> gives this
  order for every wave. The callback \<open>run\<close> returns a value, the observed accesses and nil or
  an error; it runs on an isolated snapshot, so it is a function of the index and the item.
\<close>

section \<open>Access sets\<close>

record StorageAccess =
  sa_Address :: address
  sa_Key :: hash

record AccessSet =
  as_Reads :: "address list"
  as_Writes :: "address list"
  as_StorageReads :: "StorageAccess list"
  as_StorageWrites :: "StorageAccess list"
  as_Unknown :: bool

definition storageAccessConflicts :: "StorageAccess \<Rightarrow> StorageAccess list \<Rightarrow> bool" where
  "storageAccessConflicts access slots =
     list_ex (\<lambda>slot. sa_Address access = sa_Address slot \<and> sa_Key access = sa_Key slot) slots"

definition accountAddressConflicts :: "address \<Rightarrow> address list \<Rightarrow> bool" where
  "accountAddressConflicts address accounts = list_ex (\<lambda>account. address = account) accounts"

definition storageSlotAddressConflicts :: "address \<Rightarrow> StorageAccess list \<Rightarrow> bool" where
  "storageSlotAddressConflicts address slots = list_ex (\<lambda>slot. address = sa_Address slot) slots"

definition conflicts :: "AccessSet \<Rightarrow> AccessSet \<Rightarrow> bool" where
  "conflicts a b =
     (if as_Unknown a \<or> as_Unknown b then True
      else
        list_ex (\<lambda>x. list_ex (\<lambda>y. x = y) (as_Reads b @ as_Writes b) \<or>
                     storageSlotAddressConflicts x (as_StorageReads b) \<or>
                     storageSlotAddressConflicts x (as_StorageWrites b)) (as_Writes a) \<or>
        list_ex (\<lambda>x. list_ex (\<lambda>y. x = y) (as_Reads a) \<or>
                     storageSlotAddressConflicts x (as_StorageReads a) \<or>
                     storageSlotAddressConflicts x (as_StorageWrites a)) (as_Writes b) \<or>
        list_ex (\<lambda>x. storageAccessConflicts x (as_StorageReads b) \<or>
                     storageAccessConflicts x (as_StorageWrites b) \<or>
                     accountAddressConflicts (sa_Address x) (as_Reads b) \<or>
                     accountAddressConflicts (sa_Address x) (as_Writes b)) (as_StorageWrites a) \<or>
        list_ex (\<lambda>x. storageAccessConflicts x (as_StorageReads a) \<or>
                     accountAddressConflicts (sa_Address x) (as_Reads a) \<or>
                     accountAddressConflicts (sa_Address x) (as_Writes a)) (as_StorageWrites b))"

section \<open>The access set of a transaction\<close>

definition hex_digit :: "byte \<Rightarrow> byte" where
  "hex_digit n = (if n < 10 then 48 + n else 87 + n)"

definition addr_hex :: "address \<Rightarrow> bytes" where
  "addr_hex a =
     str_bytes ''0x'' @ concat (map (\<lambda>b. [hex_digit (drop_bit 4 b), hex_digit (b AND 0xf)]) (addr_bytes a))"

text \<open>EIP-55: a letter is written upper-case where the digit of the hash is above seven.\<close>

definition checksum_char :: "bytes \<Rightarrow> nat \<Rightarrow> byte \<Rightarrow> byte" where
  "checksum_char h i c =
     (if i < 2 then c
      else
        let b = h ! ((i - 2) div 2);
            d = (if i mod 2 = 0 then drop_bit 4 b else b AND 0xf)
        in if c > 57 \<and> d > 7 then c - 32 else c)"

definition checksumHex :: "(bytes \<Rightarrow> hash) \<Rightarrow> address \<Rightarrow> bytes" where
  "checksumHex keccak a =
     (let buf = addr_hex a;
          h = hash_bytes (keccak (drop 2 buf))
      in map (\<lambda>(i, c). checksum_char h i c) (enumerate 0 buf))"

text \<open>A transaction is nil, or has an access list and a receiver.\<close>

definition AccessSetForTransaction ::
    "(bytes \<Rightarrow> hash) \<Rightarrow> ((address \<times> hash list) list \<times> address option) option \<Rightarrow> AccessSet" where
  "AccessSetForTransaction keccak tx =
     (let unknown = \<lparr>as_Reads = [], as_Writes = [], as_StorageReads = [], as_StorageWrites = [],
                     as_Unknown = True\<rparr>
      in case tx of
           None \<Rightarrow> unknown
         | Some (accessList, to) \<Rightarrow>
             (case to of
                None \<Rightarrow> unknown
              | Some a \<Rightarrow>
                  if accessList = [] then unknown
                  else \<lparr>as_Reads = sort_key (checksumHex keccak) (map fst accessList),
                        as_Writes = [a], as_StorageReads = [], as_StorageWrites = [],
                        as_Unknown = False\<rparr>))"

section \<open>Waves\<close>

text \<open>The search for a wave without a conflict, among the waves behind the barrier.\<close>

primrec first_fit :: "(nat \<Rightarrow> bool) \<Rightarrow> nat \<Rightarrow> nat list list \<Rightarrow> nat list list option" where
  "first_fit clash i [] = None"
| "first_fit clash i (w # ws) =
     (if list_all (\<lambda>j. \<not> clash j) w then Some ((w @ [i]) # ws)
      else map_option ((#) w) (first_fit clash i ws))"

text \<open>The state of the loop is the waves and \<open>barrier + 1\<close>.\<close>

definition wave_step ::
    "AccessSet list \<Rightarrow> nat \<times> AccessSet \<Rightarrow> nat list list \<times> nat \<Rightarrow> nat list list \<times> nat" where
  "wave_step access x s =
     (let (i, item) = x; (waves, start) = s
      in if as_Unknown item then (waves @ [[i]], length waves + 1)
         else
           (case first_fit (\<lambda>j. conflicts item (access ! j)) i (drop start waves) of
              Some ws \<Rightarrow> (take start waves @ ws, start)
            | None \<Rightarrow> (waves @ [[i]], start)))"

definition BuildExecutionWaves :: "AccessSet list \<Rightarrow> nat list list" where
  "BuildExecutionWaves access = fst (fold (wave_step access) (enumerate 0 access) ([], 0))"

section \<open>Transcripts\<close>

record ConflictTranscript =
  ct_Waves :: "u32 list list"
  ct_Access :: "AccessSet list"

datatype transcript_error = ErrInvalidConflictTranscript

definition NewConflictTranscript :: "AccessSet list \<Rightarrow> ConflictTranscript" where
  "NewConflictTranscript access =
     \<lparr>ct_Waves = map (map of_nat) (BuildExecutionWaves access), ct_Access = access\<rparr>"

definition uint32Bytes :: "u32 list \<Rightarrow> bytes" where
  "uint32Bytes values = concat (map u32_bytes values)"

definition equalWaves :: "u32 list list \<Rightarrow> u32 list list \<Rightarrow> bool" where
  "equalWaves a b \<longleftrightarrow>
     length a = length b \<and> list_all (\<lambda>(x, y). uint32Bytes x = uint32Bytes y) (zip a b)"

definition transcript_Validate :: "ConflictTranscript \<Rightarrow> transcript_error + unit" where
  "transcript_Validate t =
     (if ct_Waves t = [] \<or> ct_Access t = [] then Inl ErrInvalidConflictTranscript
      else if \<not> equalWaves (ct_Waves (NewConflictTranscript (ct_Access t))) (ct_Waves t)
      then Inl ErrInvalidConflictTranscript
      else Inr ())"

definition item_bool :: "bool \<Rightarrow> item" where
  "item_bool b = Str (if b then [1] else [])"

definition item_uint :: "u32 \<Rightarrow> item" where
  "item_uint x = Str (big_bytes (unat x))"

definition item_addr :: "address \<Rightarrow> item" where
  "item_addr a = Str (addr_bytes a)"

definition item_slot :: "StorageAccess \<Rightarrow> item" where
  "item_slot s = Lst [Str (addr_bytes (sa_Address s)), Str (hash_bytes (sa_Key s))]"

definition item_list :: "('a \<Rightarrow> item) \<Rightarrow> 'a list \<Rightarrow> item" where
  "item_list f xs = Lst (map f xs)"

definition hasStorage :: "AccessSet list \<Rightarrow> bool" where
  "hasStorage access = list_ex (\<lambda>s. as_StorageReads s \<noteq> [] \<or> as_StorageWrites s \<noteq> []) access"

definition transcript_fields :: "ConflictTranscript \<Rightarrow> item" where
  "transcript_fields t =
     (let base = [item_list (item_list item_uint) (ct_Waves t),
                  item_list (item_list item_addr) (map as_Reads (ct_Access t)),
                  item_list (item_list item_addr) (map as_Writes (ct_Access t)),
                  item_list item_bool (map as_Unknown (ct_Access t))]
      in if hasStorage (ct_Access t) then
           Lst (Str (str_bytes ''TKM_CONFLICT_TRANSCRIPT_V2'') # base @
                [item_list (item_list item_slot) (map as_StorageReads (ct_Access t)),
                 item_list (item_list item_slot) (map as_StorageWrites (ct_Access t))])
         else Lst (Str (str_bytes ''TKM_CONFLICT_TRANSCRIPT_V1'') # base))"

definition Commitment :: "(bytes \<Rightarrow> hash) \<Rightarrow> ConflictTranscript \<Rightarrow> transcript_error + hash" where
  "Commitment keccak t =
     (case transcript_Validate t of
        Inl e \<Rightarrow> Inl e
      | Inr _ \<Rightarrow> Inr (keccak (EncodeToBytes (transcript_fields t))))"

definition transcript_Verify ::
    "(bytes \<Rightarrow> hash) \<Rightarrow> ConflictTranscript \<Rightarrow> AccessSet list \<Rightarrow> hash \<Rightarrow> bool" where
  "transcript_Verify keccak t access expected =
     (let canonical = NewConflictTranscript access
      in if \<not> equalWaves (ct_Waves canonical) (ct_Waves t) \<or>
            length (ct_Access canonical) \<noteq> length (ct_Access t) then False
         else Commitment keccak t = Inr expected)"

section \<open>Optimistic execution\<close>

record ('r) speculation =
  sp_results :: "'r list"
  sp_dynamic :: "AccessSet list"

datatype 'e exec_error = InvalidInput | RunError 'e

definition speculate ::
    "(nat \<Rightarrow> 'a \<Rightarrow> 'r \<times> AccessSet \<times> 'e option) \<Rightarrow> 'a list \<Rightarrow> nat \<Rightarrow>
     'r speculation \<times> 'e option \<Rightarrow> 'r speculation \<times> 'e option" where
  "speculate run items index s =
     (let (sp, firstErr) = s; (val, observed, err) = run index (items ! index)
      in if err \<noteq> None \<and> firstErr = None then (sp, err)
         else (\<lparr>sp_results = (sp_results sp)[index := val],
                sp_dynamic = (sp_dynamic sp)[index := observed]\<rparr>, firstErr))"

fun wave_conflict :: "AccessSet list \<Rightarrow> nat list \<Rightarrow> bool" where
  "wave_conflict dynamic [] = False"
| "wave_conflict dynamic (left # rest) =
     (list_ex (\<lambda>right. conflicts (dynamic ! left) (dynamic ! right)) rest \<or>
      wave_conflict dynamic rest)"

fun retry_wave ::
    "(nat \<Rightarrow> 'a \<Rightarrow> 'r \<times> AccessSet \<times> 'e option) \<Rightarrow> 'a list \<Rightarrow> nat list \<Rightarrow>
     'r speculation \<Rightarrow> 'e + 'r speculation" where
  "retry_wave run items [] sp = Inr sp"
| "retry_wave run items (index # rest) sp =
     (case run index (items ! index) of
        (_, _, Some e) \<Rightarrow> Inl e
      | (val, observed, None) \<Rightarrow>
          retry_wave run items rest
            \<lparr>sp_results = (sp_results sp)[index := val],
             sp_dynamic = (sp_dynamic sp)[index := observed]\<rparr>)"

definition run_wave ::
    "(nat list \<Rightarrow> nat list) \<Rightarrow> (nat \<Rightarrow> 'a \<Rightarrow> 'r \<times> AccessSet \<times> 'e option) \<Rightarrow> 'a list \<Rightarrow>
     nat list \<Rightarrow> 'r speculation \<Rightarrow> 'e + 'r speculation" where
  "run_wave completes run items wave sp =
     (case fold (speculate run items) (completes wave) (sp, None) of
        (_, Some e) \<Rightarrow> Inl e
      | (sp', None) \<Rightarrow>
          if wave_conflict (sp_dynamic sp') wave then retry_wave run items wave sp' else Inr sp')"

fun run_waves ::
    "(nat list \<Rightarrow> nat list) \<Rightarrow> (nat \<Rightarrow> 'a \<Rightarrow> 'r \<times> AccessSet \<times> 'e option) \<Rightarrow> 'a list \<Rightarrow>
     nat list list \<Rightarrow> 'r speculation \<Rightarrow> 'e + 'r speculation" where
  "run_waves completes run items [] sp = Inr sp"
| "run_waves completes run items (w # ws) sp =
     (case run_wave completes run items w sp of
        Inl e \<Rightarrow> Inl e
      | Inr sp' \<Rightarrow> run_waves completes run items ws sp')"

definition AccessSet_zero :: AccessSet where
  "AccessSet_zero = \<lparr>as_Reads = [], as_Writes = [], as_StorageReads = [], as_StorageWrites = [],
     as_Unknown = False\<rparr>"

definition ExecuteOptimisticResults ::
    "(nat list \<Rightarrow> nat list) \<Rightarrow> 'r \<Rightarrow> 'a list \<Rightarrow> AccessSet list \<Rightarrow>
     (nat \<Rightarrow> 'a \<Rightarrow> 'r \<times> AccessSet \<times> 'e option) \<Rightarrow> 'e exec_error + ('r list \<times> ConflictTranscript)" where
  "ExecuteOptimisticResults completes zero items access run =
     (if length items \<noteq> length access then Inl InvalidInput
      else if items = [] then Inr ([], \<lparr>ct_Waves = [], ct_Access = []\<rparr>)
      else
        (case run_waves completes run items (BuildExecutionWaves access)
                \<lparr>sp_results = replicate (length items) zero,
                 sp_dynamic = replicate (length items) AccessSet_zero\<rparr> of
           Inl e \<Rightarrow> Inl (RunError e)
         | Inr sp \<Rightarrow> Inr (sp_results sp, NewConflictTranscript (sp_dynamic sp))))"

section \<open>What an access set allows a transaction to do\<close>

text \<open>
  The state as cells: the data of an account, and its storage slots. Naming an account in the
  account lists covers the account and all its slots; naming a slot covers the slot.
\<close>

datatype cell = Acct address | Slot address hash

definition account_cells :: "address \<Rightarrow> cell set" where
  "account_cells a = insert (Acct a) (range (Slot a))"

definition slot_cell :: "StorageAccess \<Rightarrow> cell" where
  "slot_cell s = Slot (sa_Address s) (sa_Key s)"

definition written :: "AccessSet \<Rightarrow> cell set" where
  "written a = (\<Union>x \<in> set (as_Writes a). account_cells x) \<union> slot_cell ` set (as_StorageWrites a)"

definition touched :: "AccessSet \<Rightarrow> cell set" where
  "touched a = written a \<union> (\<Union>x \<in> set (as_Reads a). account_cells x) \<union> slot_cell ` set (as_StorageReads a)"

text \<open>A state change writes only what the set declares written, and depends on what it touches.\<close>

definition obeys :: "((cell \<Rightarrow> 'v) \<Rightarrow> cell \<Rightarrow> 'v) \<Rightarrow> AccessSet \<Rightarrow> bool" where
  "obeys f a \<longleftrightarrow>
     as_Unknown a \<or>
     (\<forall>s. \<forall>c. c \<notin> written a \<longrightarrow> f s c = s c) \<and>
     (\<forall>s s'. (\<forall>c \<in> touched a. s c = s' c) \<longrightarrow> (\<forall>c \<in> written a. f s c = f s' c))"

text \<open>
  The first \<open>k\<close> items have been scheduled into the waves \<open>ws\<close>: every item is in one wave, waves
  are in index order and free of conflicts, and an unknown item separates what comes before
  it from what comes after it.
\<close>

definition separates :: "nat list list \<Rightarrow> nat \<Rightarrow> nat \<Rightarrow> bool" where
  "separates ws u p \<longleftrightarrow>
     p < length ws \<and> ws ! p = [u] \<and> (\<forall>w \<in> set (take p ws). \<forall>i \<in> set w. i < u) \<and>
     (\<forall>w \<in> set (drop (Suc p) ws). \<forall>i \<in> set w. u < i)"

definition waves_ok :: "AccessSet list \<Rightarrow> nat \<Rightarrow> nat list list \<Rightarrow> nat \<Rightarrow> bool" where
  "waves_ok access k ws start \<longleftrightarrow>
     mset (concat ws) = mset [0..<k] \<and> start \<le> length ws \<and>
     (\<forall>w \<in> set ws. w \<noteq> [] \<and> sorted_wrt (<) w \<and>
        (\<forall>i \<in> set w. \<forall>j \<in> set w. i \<noteq> j \<longrightarrow> \<not> conflicts (access ! i) (access ! j))) \<and>
     (\<forall>u < k. as_Unknown (access ! u) \<longrightarrow> (\<exists>p < start. separates ws u p))"

text \<open>The arrays of the executor when exactly the indexes in \<open>S\<close> have run.\<close>

definition run_value :: "(nat \<Rightarrow> 'a \<Rightarrow> 'r \<times> AccessSet \<times> 'e option) \<Rightarrow> 'a list \<Rightarrow> nat \<Rightarrow> 'r" where
  "run_value run items i = fst (run i (items ! i))"

definition run_access :: "(nat \<Rightarrow> 'a \<Rightarrow> 'r \<times> AccessSet \<times> 'e option) \<Rightarrow> 'a list \<Rightarrow> nat \<Rightarrow> AccessSet" where
  "run_access run items i = fst (snd (run i (items ! i)))"

definition run_error :: "(nat \<Rightarrow> 'a \<Rightarrow> 'r \<times> AccessSet \<times> 'e option) \<Rightarrow> 'a list \<Rightarrow> nat \<Rightarrow> 'e option" where
  "run_error run items i = snd (snd (run i (items ! i)))"

definition executed ::
    "(nat \<Rightarrow> 'a \<Rightarrow> 'r \<times> AccessSet \<times> 'e option) \<Rightarrow> 'a list \<Rightarrow> 'r \<Rightarrow> nat set \<Rightarrow> 'r speculation" where
  "executed run items zero S =
     \<lparr>sp_results = map (\<lambda>i. if i \<in> S then run_value run items i else zero) [0..<length items],
      sp_dynamic = map (\<lambda>i. if i \<in> S then run_access run items i else AccessSet_zero) [0..<length items]\<rparr>"

text \<open>A transaction that writes one account.\<close>

definition example_access :: "address \<Rightarrow> AccessSet" where
  "example_access a = AccessSet_zero\<lparr>as_Writes := [a]\<rparr>"

section \<open>Conflicts\<close>

lemma cell_simps [simp]:
  "Acct x \<in> account_cells y \<longleftrightarrow> x = y" "Slot x k \<in> account_cells y \<longleftrightarrow> x = y"
  "Acct x \<noteq> slot_cell s" "Slot x k = slot_cell s \<longleftrightarrow> x = sa_Address s \<and> k = sa_Key s"
  by (auto simp: account_cells_def slot_cell_def)

lemma ex_cell: "(\<exists>c. P c) \<longleftrightarrow> (\<exists>x. P (Acct x)) \<or> (\<exists>x k. P (Slot x k))"
  by (metis cell.exhaust)

lemma in_written:
  "Acct x \<in> written a \<longleftrightarrow> x \<in> set (as_Writes a)"
  "Slot x k \<in> written a \<longleftrightarrow> x \<in> set (as_Writes a) \<or> Slot x k \<in> slot_cell ` set (as_StorageWrites a)"
  by (auto simp: written_def)

lemma in_touched:
  "Acct x \<in> touched a \<longleftrightarrow> x \<in> set (as_Writes a) \<or> x \<in> set (as_Reads a)"
  "Slot x k \<in> touched a \<longleftrightarrow>
     x \<in> set (as_Writes a) \<or> x \<in> set (as_Reads a) \<or>
     Slot x k \<in> slot_cell ` set (as_StorageWrites a) \<or> Slot x k \<in> slot_cell ` set (as_StorageReads a)"
  by (auto simp: touched_def in_written)

lemma conflict_simps:
  "accountAddressConflicts x A \<longleftrightarrow> x \<in> set A"
  "storageSlotAddressConflicts x S \<longleftrightarrow> (\<exists>k. Slot x k \<in> slot_cell ` set S)"
  "storageAccessConflicts s S \<longleftrightarrow> slot_cell s \<in> slot_cell ` set S"
  "list_ex (\<lambda>y. x = y) A \<longleftrightarrow> x \<in> set A"
  by (auto simp: accountAddressConflicts_def storageSlotAddressConflicts_def
      storageAccessConflicts_def list_ex_iff slot_cell_def image_iff)

lemma ex_slot: "(\<exists>s \<in> set S. P (sa_Address s) (slot_cell s)) \<longleftrightarrow>
    (\<exists>x k. Slot x k \<in> slot_cell ` set S \<and> P x (Slot x k))"
  by (auto simp: slot_cell_def image_iff)

lemma conflicts_cells:
  assumes "\<not> as_Unknown a" "\<not> as_Unknown b"
  shows "conflicts a b \<longleftrightarrow>
     (\<exists>c. c \<in> written a \<and> c \<in> touched b) \<or> (\<exists>c. c \<in> written b \<and> c \<in> touched a)"
proof -
  let ?C = "\<lambda>S. slot_cell ` set S"
  have e: "(\<exists>s \<in> set S. slot_cell s \<in> P \<or> slot_cell s \<in> Q \<or> sa_Address s \<in> A \<or> sa_Address s \<in> B) \<longleftrightarrow>
      (\<exists>x k. Slot x k \<in> ?C S \<and> (Slot x k \<in> P \<or> Slot x k \<in> Q \<or> x \<in> A \<or> x \<in> B))"
    "(\<exists>s \<in> set S. slot_cell s \<in> P \<or> sa_Address s \<in> A \<or> sa_Address s \<in> B) \<longleftrightarrow>
      (\<exists>x k. Slot x k \<in> ?C S \<and> (Slot x k \<in> P \<or> x \<in> A \<or> x \<in> B))" for S P Q A B
    by (rule ex_slot)+
  show ?thesis
    unfolding conflicts_def list_ex_iff [where xs = "as_Writes _"] list_ex_iff [where xs = "as_StorageWrites _"]
      conflict_simps e ex_cell in_written in_touched
    using assms by (simp add: if_not_P) blast
qed

lemma conflicts_iff:
  "conflicts a b \<longleftrightarrow>
     as_Unknown a \<or> as_Unknown b \<or>
     (\<exists>c. c \<in> written a \<and> c \<in> touched b) \<or> (\<exists>c. c \<in> written b \<and> c \<in> touched a)"
  using conflicts_cells by (auto simp: conflicts_def)

lemma conflicts_sym: "conflicts a b \<longleftrightarrow> conflicts b a"
  unfolding conflicts_iff by blast

lemma obeys_commute:
  assumes "\<not> conflicts a b" "obeys f a" "obeys g b"
  shows "f (g s) = g (f s)"
proof
  fix c
  have d: "\<And>c. c \<in> written a \<Longrightarrow> c \<notin> touched b" "\<And>c. c \<in> written b \<Longrightarrow> c \<notin> touched a"
    and u: "\<not> as_Unknown a" "\<not> as_Unknown b"
    using assms(1) by (auto simp: conflicts_iff)
  have wt: "written x \<subseteq> touched x" for x by (auto simp: touched_def)
  have fa: "c \<notin> written a \<Longrightarrow> f s c = s c" "(\<And>c. c \<in> touched a \<Longrightarrow> s c = s' c) \<Longrightarrow> c \<in> written a \<Longrightarrow> f s c = f s' c"
    and gb: "c \<notin> written b \<Longrightarrow> g s c = s c" "(\<And>c. c \<in> touched b \<Longrightarrow> s c = s' c) \<Longrightarrow> c \<in> written b \<Longrightarrow> g s c = g s' c"
    for s s' c using assms(2,3) u by (auto simp: obeys_def)
  consider "c \<in> written a" | "c \<in> written b" | "c \<notin> written a" "c \<notin> written b" by blast
  then show "f (g s) c = g (f s) c"
  proof cases
    case 1
    then have "c \<notin> written b" using d wt by blast
    moreover have "f (g s) c = f s c" using 1 d gb(1) by (intro fa(2)) blast+
    ultimately show ?thesis by (simp add: gb(1))
  next
    case 2
    then have "c \<notin> written a" using d wt by blast
    moreover have "g (f s) c = g s c" using 2 d fa(1) by (intro gb(2)) blast+
    ultimately show ?thesis by (simp add: fa(1))
  next
    case 3
    then show ?thesis by (simp add: fa(1) gb(1))
  qed
qed

section \<open>Waves\<close>

lemma first_fit_Some:
  "first_fit clash i ws = Some ws' \<Longrightarrow>
     \<exists>a w b. ws = a @ w # b \<and> ws' = a @ (w @ [i]) # b \<and> (\<forall>j \<in> set w. \<not> clash j)"
proof (induction ws arbitrary: ws')
  case (Cons v vs)
  show ?case
  proof (cases "list_all (\<lambda>j. \<not> clash j) v")
    case True
    with Cons.prems show ?thesis
      by (intro exI [of _ "[]"] exI [of _ v] exI [of _ vs]) (auto simp: list_all_iff)
  next
    case False
    with Cons.prems obtain vs' where v: "first_fit clash i vs = Some vs'" "ws' = v # vs'" by auto
    from Cons.IH [OF v(1)] obtain a w b where
      "vs = a @ w # b" "vs' = a @ (w @ [i]) # b" "\<forall>j \<in> set w. \<not> clash j" by blast
    with v show ?thesis by (intro exI [of _ "v # a"]) auto
  qed
qed simp

lemma waves_ok_members: "waves_ok access k ws start \<Longrightarrow> w \<in> set ws \<Longrightarrow> i \<in> set w \<Longrightarrow> i < k"
proof -
  assume "waves_ok access k ws start" "w \<in> set ws" "i \<in> set w"
  then have "set (concat ws) = set [0..<k]" unfolding waves_ok_def by (metis set_mset_mset)
  with \<open>w \<in> set ws\<close> \<open>i \<in> set w\<close> show "i < k" by auto
qed

lemma separates_append: "separates ws u p \<Longrightarrow> u < k \<Longrightarrow> separates (ws @ [[k]]) u p"
  by (simp add: separates_def nth_append)

lemma separates_add:
  assumes "separates (a @ w # b) u p" "p < length a" "u < k"
  shows "separates (a @ (w @ [k]) # b) u p"
  using assms by (simp add: separates_def nth_append ball_Un Suc_le_eq)

lemma waves_ok_new:
  assumes "waves_ok access k ws start" "start' = (if as_Unknown (access ! k) then Suc (length ws) else start)"
  shows "waves_ok access (Suc k) (ws @ [[k]]) start'"
proof -
  have sep: "\<exists>p < start'. separates (ws @ [[k]]) u p" if u: "u < Suc k" "as_Unknown (access ! u)" for u
  proof (cases "u = k")
    case True
    then show ?thesis
      using u assms(2) waves_ok_members [OF assms(1)]
      by (intro exI [of _ "length ws"]) (auto simp: separates_def nth_append)
  next
    case False
    then have "u < k" using u by simp
    with u assms(1) obtain p where p: "p < start" "separates ws u p"
      unfolding waves_ok_def by blast
    have "start \<le> start'" using assms by (auto simp: waves_ok_def)
    with p False u separates_append [OF p(2), of k] show ?thesis by (intro exI [of _ p]) auto
  qed
  moreover have "start' \<le> length (ws @ [[k]])" using assms by (auto simp: waves_ok_def)
  ultimately show ?thesis using assms(1) unfolding waves_ok_def by (simp add: ball_Un)
qed

lemma waves_ok_add:
  assumes "waves_ok access k (a @ w # b) start" "start \<le> length a"
    and "\<forall>j \<in> set w. \<not> conflicts (access ! k) (access ! j)" "\<not> as_Unknown (access ! k)"
  shows "waves_ok access (Suc k) (a @ (w @ [k]) # b) start"
proof -
  have lt: "i < k" if "i \<in> set w" for i using waves_ok_members [OF assms(1)] that by auto
  have "\<exists>p < start. separates (a @ (w @ [k]) # b) u p" if u: "u < Suc k" "as_Unknown (access ! u)" for u
  proof -
    have "u < k" using u assms(4) by (metis less_antisym)
    with u assms(1) obtain p where "p < start" "separates (a @ w # b) u p"
      unfolding waves_ok_def by blast
    with separates_add [of a w b u p k] assms(2) \<open>u < k\<close> show ?thesis by auto
  qed
  moreover have "sorted_wrt (<) (w @ [k])"
    using assms(1) lt by (auto simp: waves_ok_def sorted_wrt_append)
  moreover have "\<not> conflicts (access ! i) (access ! j)" if "i \<in> set (w @ [k])" "j \<in> set (w @ [k])" "i \<noteq> j" for i j
  proof -
    have "\<forall>i \<in> set w. \<forall>j \<in> set w. i \<noteq> j \<longrightarrow> \<not> conflicts (access ! i) (access ! j)"
      using assms(1) by (simp add: waves_ok_def)
    with that assms(3) conflicts_sym [of "access ! i" "access ! j"] show ?thesis by auto
  qed
  ultimately show ?thesis using assms(1) unfolding waves_ok_def by (simp add: ball_Un)
qed

lemma wave_step_ok:
  assumes "waves_ok access k ws start"
  shows "case wave_step access (k, access ! k) (ws, start) of (ws', start') \<Rightarrow> waves_ok access (Suc k) ws' start'"
proof (cases "as_Unknown (access ! k)")
  case True
  with waves_ok_new [OF assms, of "Suc (length ws)"] show ?thesis by (simp add: wave_step_def)
next
  case False
  show ?thesis
  proof (cases "first_fit (\<lambda>j. conflicts (access ! k) (access ! j)) k (drop start ws)")
    case None
    with False waves_ok_new [OF assms, of start] show ?thesis by (simp add: wave_step_def)
  next
    case (Some ws')
    obtain a w b where f: "drop start ws = a @ w # b" "ws' = a @ (w @ [k]) # b"
      "\<forall>j \<in> set w. \<not> conflicts (access ! k) (access ! j)"
      using first_fit_Some [OF Some] by blast
    have "ws = (take start ws @ a) @ w # b" using f(1) by (metis append_assoc append_take_drop_id)
    then have "waves_ok access k ((take start ws @ a) @ w # b) start" using assms by metis
    from waves_ok_add [OF this _ f(3) False] have "waves_ok access (Suc k) (take start ws @ ws') start"
      using assms f(2) by (simp add: waves_ok_def)
    with False Some show ?thesis by (simp add: wave_step_def)
  qed
qed

lemma fold_wave_ok:
  "k \<le> length access \<Longrightarrow>
     case fold (wave_step access) (enumerate 0 (take k access)) ([], 0) of (ws, start) \<Rightarrow> waves_ok access k ws start"
proof (induction k)
  case 0
  then show ?case by (simp add: waves_ok_def)
next
  case (Suc k)
  then have "enumerate 0 (take (Suc k) access) = enumerate 0 (take k access) @ [(k, access ! k)]"
    by (simp add: take_Suc_conv_app_nth enumerate_append_eq)
  moreover obtain ws start where
    "fold (wave_step access) (enumerate 0 (take k access)) ([], 0) = (ws, start)" by fastforce
  ultimately show ?case using Suc wave_step_ok [of access k ws start] by simp
qed

lemma BuildExecutionWaves_ok: "\<exists>start. waves_ok access (length access) (BuildExecutionWaves access) start"
  using fold_wave_ok [of "length access" access] by (auto simp: BuildExecutionWaves_def split: prod.splits)

section \<open>Execution\<close>

lemma map_upd: "(map (\<lambda>i. if i \<in> S then f i else z) [0..<n])[k := f k] = map (\<lambda>i. if i \<in> insert k S then f i else z) [0..<n]"
proof (rule nth_equalityI)
  fix i
  assume "i < length ((map (\<lambda>i. if i \<in> S then f i else z) [0..<n])[k := f k])"
  then show "(map (\<lambda>i. if i \<in> S then f i else z) [0..<n])[k := f k] ! i =
      map (\<lambda>i. if i \<in> insert k S then f i else z) [0..<n] ! i"
    by (cases "i = k") auto
qed simp

lemma executed_insert:
  "\<lparr>sp_results = (sp_results (executed run items zero S))[i := run_value run items i],
    sp_dynamic = (sp_dynamic (executed run items zero S))[i := run_access run items i]\<rparr> =
   executed run items zero (insert i S)"
  by (simp add: executed_def map_upd)

lemma speculate_executed:
  "run_error run items i = None \<Longrightarrow>
     speculate run items i (executed run items zero S, None) = (executed run items zero (insert i S), None)"
  using executed_insert [of run items zero S i]
  by (cases "run i (items ! i)") (simp add: speculate_def run_error_def run_value_def run_access_def)

lemma speculate_fold:
  "\<forall>i \<in> set is. run_error run items i = None \<Longrightarrow>
     fold (speculate run items) is (executed run items zero S, None) =
     (executed run items zero (S \<union> set is), None)"
  by (induction "is" arbitrary: S) (simp_all add: speculate_executed)

lemma speculate_stays: "snd (fold (speculate run items) is (sp, Some e)) = Some e"
proof (induction "is" arbitrary: sp)
  case (Cons i "is")
  then show ?case by (cases "run i (items ! i)") (simp add: speculate_def)
qed simp

lemma find_append: "find P (xs @ ys) = (case find P xs of None \<Rightarrow> find P ys | Some x \<Rightarrow> Some x)"
  by (induction xs) simp_all

lemma speculate_error:
  assumes "find (\<lambda>i. run_error run items i \<noteq> None) is = Some i"
  shows "snd (fold (speculate run items) is (executed run items zero S, None)) = run_error run items i"
  using assms
proof (induction "is" arbitrary: S)
  case (Cons k "is")
  show ?case
  proof (cases "run_error run items k")
    case None
    with Cons show ?thesis by (auto simp: speculate_executed)
  next
    case (Some e)
    then have "speculate run items k (executed run items zero S, None) = (executed run items zero S, Some e)"
      by (cases "run k (items ! k)") (simp add: speculate_def run_error_def)
    with Some Cons.prems show ?thesis by (auto simp: speculate_stays)
  qed
qed simp

lemma retry_executed:
  "\<forall>i \<in> set is. run_error run items i = None \<Longrightarrow>
     retry_wave run items is (executed run items zero S) = Inr (executed run items zero (S \<union> set is))"
proof (induction "is" arbitrary: S)
  case (Cons i "is")
  then show ?case
    using executed_insert [of run items zero S i] Cons.IH [of "insert i S"]
    by (cases "run i (items ! i)") (simp add: run_error_def run_value_def run_access_def)
qed simp

lemma run_wave_executed:
  assumes "\<forall>i \<in> set w. run_error run items i = None" "mset (completes w) = mset w"
  shows "run_wave completes run items w (executed run items zero S) = Inr (executed run items zero (S \<union> set w))"
proof -
  have e: "set (completes w) = set w" using assms(2) by (metis set_mset_mset)
  show ?thesis
    using speculate_fold [of "completes w" run items zero S] retry_executed [of w run items zero "S \<union> set w"]
      assms(1) e by (simp add: run_wave_def)
qed

lemma run_wave_error:
  assumes "find (\<lambda>i. run_error run items i \<noteq> None) (completes w) = Some i"
  shows "run_wave completes run items w (executed run items zero S) = Inl (the (run_error run items i))"
  using speculate_error [OF assms, of zero S] assms
  by (auto simp: run_wave_def find_Some_iff split: prod.splits)

text \<open>The waves run until the first transaction, in the order of completion, that fails.\<close>

lemma run_waves_result:
  assumes "\<And>w. mset (completes w) = mset w"
  shows "run_waves completes run items ws (executed run items zero S) =
    (case find (\<lambda>i. run_error run items i \<noteq> None) (concat (map completes ws)) of
       None \<Rightarrow> Inr (executed run items zero (S \<union> set (concat ws)))
     | Some i \<Rightarrow> Inl (the (run_error run items i)))"
proof (induction ws arbitrary: S)
  case (Cons w ws)
  have e: "set (completes w) = set w" using assms by (metis set_mset_mset)
  show ?case
  proof (cases "find (\<lambda>i. run_error run items i \<noteq> None) (completes w)")
    case None
    then have "\<forall>i \<in> set w. run_error run items i = None" using e by (auto simp: find_None_iff)
    then have "run_wave completes run items w (executed run items zero S) = Inr (executed run items zero (S \<union> set w))"
      using assms by (intro run_wave_executed) auto
    with Cons.IH [of "S \<union> set w"] None show ?thesis by (simp add: find_append Un_assoc split: option.split)
  next
    case (Some i)
    then show ?thesis using run_wave_error [of run items completes w i zero S] by (simp add: find_append)
  qed
qed simp

lemma executed_all: "executed run items zero {0..<length items} =
    \<lparr>sp_results = map (run_value run items) [0..<length items],
     sp_dynamic = map (run_access run items) [0..<length items]\<rparr>"
  by (simp add: executed_def)

lemma executed_none: "executed run items zero {} =
    \<lparr>sp_results = replicate (length items) zero, sp_dynamic = replicate (length items) AccessSet_zero\<rparr>"
  by (simp add: executed_def map_replicate_trivial)

lemma set_waves: "set (concat (BuildExecutionWaves access)) = {0..<length access}"
  using BuildExecutionWaves_ok [of access] unfolding waves_ok_def
  by (metis set_mset_mset set_upt)

section \<open>Transcripts\<close>

lemma u32_bytes_inject [simp]: "u32_bytes x = u32_bytes y \<longleftrightarrow> x = y"
  by (metis word_bytes_decode(2))

lemma uint32Bytes_inject: "uint32Bytes xs = uint32Bytes ys \<longleftrightarrow> xs = ys"
proof (induction xs arbitrary: ys)
  case Nil
  then show ?case by (cases ys) (auto simp: uint32Bytes_def u32_bytes_def dest: arg_cong [of _ _ length])
next
  case (Cons x xs)
  show ?case
  proof (cases ys)
    case Nil
    have "length (u32_bytes x) = 4" by simp
    then have "u32_bytes x \<noteq> []" by (metis list.size(3) zero_neq_numeral)
    with Nil show ?thesis by (simp add: uint32Bytes_def)
  next
    case (Cons y zs)
    with Cons.IH [of zs] show ?thesis by (simp add: uint32Bytes_def)
  qed
qed

lemma equalWaves_iff: "equalWaves a b \<longleftrightarrow> a = b"
proof -
  have "length a = length b \<Longrightarrow> list_all (\<lambda>(x, y). uint32Bytes x = uint32Bytes y) (zip a b) \<longleftrightarrow> a = b"
    by (induction a b rule: list_induct2) (simp_all add: uint32Bytes_inject)
  then show ?thesis by (auto simp: equalWaves_def)
qed

lemma waves_nonempty: "access \<noteq> [] \<Longrightarrow> BuildExecutionWaves access \<noteq> []"
  using set_waves [of access] by auto

lemma Validate_iff:
  "transcript_Validate t = Inr () \<longleftrightarrow> ct_Access t \<noteq> [] \<and> t = NewConflictTranscript (ct_Access t)"
  using waves_nonempty [of "ct_Access t"]
  by (cases t) (auto simp: transcript_Validate_def equalWaves_iff NewConflictTranscript_def)

lemma item_inject [simp]:
  "item_bool p = item_bool q \<longleftrightarrow> p = q" "item_uint x = item_uint y \<longleftrightarrow> x = y"
  "item_addr a = item_addr b \<longleftrightarrow> a = b" "item_slot s = item_slot t \<longleftrightarrow> s = t"
proof -
  show "item_bool p = item_bool q \<longleftrightarrow> p = q" by (auto simp: item_bool_def)
  show "item_uint x = item_uint y \<longleftrightarrow> x = y"
    by (metis be_nat_big_bytes item.inject(1) item_uint_def word_unat_eq_iff)
  show "item_addr a = item_addr b \<longleftrightarrow> a = b" "item_slot s = item_slot t \<longleftrightarrow> s = t"
    by (cases s, cases t, auto simp: item_addr_def item_slot_def)
qed

lemma item_list_inject:
  assumes "\<And>x y. f x = f y \<longleftrightarrow> x = y"
  shows "item_list f xs = item_list f ys \<longleftrightarrow> xs = ys"
proof -
  have "inj f" using assms by (simp add: inj_def)
  then show ?thesis by (simp add: item_list_def inj_map_eq_map)
qed

lemmas item_lists = item_list_inject [OF item_inject(1)]
  item_list_inject [OF item_list_inject [OF item_inject(2)]]
  item_list_inject [OF item_list_inject [OF item_inject(3)]]
  item_list_inject [OF item_list_inject [OF item_inject(4)]]

lemma map_eq_nth: "map f xs = map f ys \<Longrightarrow> i < length xs \<Longrightarrow> f (xs ! i) = f (ys ! i)"
  by (metis length_map nth_map)

lemma access_eqI:
  fixes xs ys :: "AccessSet list"
  assumes "map as_Reads xs = map as_Reads ys" "map as_Writes xs = map as_Writes ys"
    "map as_Unknown xs = map as_Unknown ys" "map as_StorageReads xs = map as_StorageReads ys"
    "map as_StorageWrites xs = map as_StorageWrites ys"
  shows "xs = ys"
proof (rule nth_equalityI)
  show l: "length xs = length ys" using assms(1) by (rule map_eq_imp_length_eq)
  fix i
  assume i: "i < length xs"
  note e = assms [THEN map_eq_nth, OF i]
  show "xs ! i = ys ! i" using e by (cases "xs ! i"; cases "ys ! i") simp
qed

lemma no_storage:
  assumes "\<not> hasStorage xs"
  shows "map as_StorageReads xs = replicate (length xs) []" "map as_StorageWrites xs = replicate (length xs) []"
  using assms by (induction xs) (auto simp: hasStorage_def)

lemma transcript_fields_inject: "transcript_fields t = transcript_fields t' \<Longrightarrow> t = t'"
proof -
  assume a: "transcript_fields t = transcript_fields t'"
  then have e: "ct_Waves t = ct_Waves t'" "map as_Reads (ct_Access t) = map as_Reads (ct_Access t')"
    "map as_Writes (ct_Access t) = map as_Writes (ct_Access t')"
    "map as_Unknown (ct_Access t) = map as_Unknown (ct_Access t')"
    "hasStorage (ct_Access t) = hasStorage (ct_Access t')"
    by (auto simp: transcript_fields_def Let_def item_lists split: if_splits)
  have "length (ct_Access t) = length (ct_Access t')" using e(2) by (rule map_eq_imp_length_eq)
  then have "map as_StorageReads (ct_Access t) = map as_StorageReads (ct_Access t') \<and>
      map as_StorageWrites (ct_Access t) = map as_StorageWrites (ct_Access t')"
    using a e(5) by (cases "hasStorage (ct_Access t)")
      (auto simp: transcript_fields_def Let_def item_lists no_storage)
  with e have "ct_Access t = ct_Access t'" by (intro access_eqI) auto
  with e(1) show "t = t'" by (cases t, cases t') simp
qed

section \<open>Correctness of the scheduler\<close>

text \<open>C19: Transactions of one wave commute. If every transaction of a wave of the schedule writes
only what its access set declares written, and depends only on what the set declares
accessed, then applying them in any order gives the same state as applying them in wave
order. Access sets are compared exactly: two sets with known accesses conflict if and only if
one may write a cell that the other accesses.\<close>

theorem wave_order_irrelevant:
  fixes f :: "nat \<Rightarrow> (cell \<Rightarrow> 'v) \<Rightarrow> cell \<Rightarrow> 'v"
  assumes "w \<in> set (BuildExecutionWaves access)"
    and "\<And>i. i \<in> set w \<Longrightarrow> obeys (f i) (access ! i)"
    and "mset order = mset w"
  shows "fold f order s = fold f w s"
proof -
  have "f i \<circ> f j = f j \<circ> f i" if "i \<in> set w" "j \<in> set w" for i j
  proof (cases "i = j")
    case False
    then have "\<not> conflicts (access ! i) (access ! j)"
      using BuildExecutionWaves_ok [of access] assms(1) that unfolding waves_ok_def by blast
    with obeys_commute assms(2) that show ?thesis by (fastforce simp: fun_eq_iff)
  qed simp
  moreover have "set order = set w" using assms(3) by (metis set_mset_mset)
  ultimately have "fold f order = fold f w" using assms(3) by (intro fold_multiset_equiv) auto
  then show ?thesis by simp
qed

theorem wave_order_irrelevant_witness:
  "fold (\<lambda>i s. s(Acct (of_nat i) := s (Acct (of_nat i)) + 1)) [1, 0] (\<lambda>_. 5) =
   fold (\<lambda>i s. s(Acct (of_nat i) := s (Acct (of_nat i)) + (1 :: nat))) [0, 1] (\<lambda>_. 5)"
proof (rule wave_order_irrelevant [where access = "[example_access 0, example_access 1]"])
  have "BuildExecutionWaves [example_access 0, example_access 1] = [[0, 1]]" by code_simp
  then show "[0, 1] \<in> set (BuildExecutionWaves [example_access 0, example_access 1])" by simp
  show "obeys (\<lambda>s. s(Acct (of_nat i) := s (Acct (of_nat i)) + 1)) ([example_access 0, example_access 1] ! i)"
    if "i \<in> set [0, 1]" for i :: nat
    using that by (auto simp: obeys_def example_access_def AccessSet_zero_def written_def touched_def account_cells_def)
qed simp

text \<open>C20: The waves are a schedule of the block: every index occurs in exactly one wave, every wave
is non-empty and in index order, no two members of a wave conflict, and an item with unknown
accesses is alone in its wave, with all earlier items in earlier waves and all later items in
later waves.\<close>

theorem waves_schedule_block:
  "mset (concat (BuildExecutionWaves access)) = mset [0..<length access] \<and>
   (\<forall>w \<in> set (BuildExecutionWaves access). w \<noteq> [] \<and> sorted_wrt (<) w \<and>
      (\<forall>i \<in> set w. \<forall>j \<in> set w. i \<noteq> j \<longrightarrow> \<not> conflicts (access ! i) (access ! j))) \<and>
   (\<forall>u < length access. as_Unknown (access ! u) \<longrightarrow> (\<exists>p. separates (BuildExecutionWaves access) u p))"
  using BuildExecutionWaves_ok [of access] unfolding waves_ok_def by blast

theorem waves_schedule_block_witness:
  "\<exists>p. separates (BuildExecutionWaves [example_access 1, example_access 2,
     AccessSet_zero\<lparr>as_Unknown := True\<rparr>, example_access 3]) 2 p"
  using waves_schedule_block [of "[example_access 1, example_access 2,
     AccessSet_zero\<lparr>as_Unknown := True\<rparr>, example_access 3]"] by (simp add: numeral_eq_Suc)

text \<open>The waves do not keep the order of conflicting transactions: there is a block in which the
second and the third transaction conflict, yet the third one is scheduled in an earlier wave
than the second.\<close>

theorem waves_invert_conflict_order:
  "\<exists>access. conflicts (access ! 1) (access ! 2) \<and> BuildExecutionWaves access = [[0, 2], [1]]"
proof (rule exI, rule conjI)
  let ?access = "[example_access 1, AccessSet_zero\<lparr>as_Writes := [1, 2]\<rparr>, example_access 2]"
  show "conflicts (?access ! 1) (?access ! 2)" by code_simp
  show "BuildExecutionWaves ?access = [[0, 2], [1]]" by code_simp
qed

text \<open>C21: What optimistic execution returns, for every order in which the goroutines of each wave may
finish. If no transaction fails, the result holds the value of every transaction and the transcript
of the observed accesses; neither depends on the order of completion or on whether a wave was
retried. If some transaction fails, the call fails with the error of the failing transaction that
finishes first in the first wave that has one, the only thing that depends on that order.\<close>

theorem optimistic_execution_deterministic:
  assumes "length items = length access" "items \<noteq> []" "\<And>w. mset (completes w) = mset w"
  shows "ExecuteOptimisticResults completes zero items access run =
    (case find (\<lambda>i. run_error run items i \<noteq> None) (concat (map completes (BuildExecutionWaves access))) of
       None \<Rightarrow> Inr (map (run_value run items) [0..<length items],
                NewConflictTranscript (map (run_access run items) [0..<length items]))
     | Some i \<Rightarrow> Inl (RunError (the (run_error run items i))))"
  using run_waves_result [OF assms(3), of run items "BuildExecutionWaves access" zero "{}"] assms(1,2)
    executed_all [of run items zero]
  by (simp add: ExecuteOptimisticResults_def executed_none set_waves del: set_concat split: option.split)

theorem optimistic_execution_deterministic_witness:
  "ExecuteOptimisticResults rev 0 [10, 20 :: nat] [example_access 1, example_access 2]
     (\<lambda>i x. (x + i, example_access 7, None :: unit option)) =
   Inr ([10, 21], NewConflictTranscript [example_access 7, example_access 7])"
  using optimistic_execution_deterministic [of "[10, 20 :: nat]" "[example_access 1, example_access 2]" rev 0
      "\<lambda>i x. (x + i, example_access 7, None :: unit option)"]
  by (simp add: run_value_def run_access_def run_error_def find_None_iff [THEN iffD2])

text \<open>C22: A transcript is valid exactly when it is the canonical schedule of its own access sets,
and its commitment binds it: with a hash function that does not collide on the two encodings,
equal commitments mean equal transcripts, storage accesses included.\<close>

theorem transcript_commitment_binds:
  assumes "Commitment keccak t = Inr h" "Commitment keccak t' = Inr h"
    and "length (enc (transcript_fields t)) < 2 ^ 64" "length (enc (transcript_fields t')) < 2 ^ 64"
    and "inj_on keccak {EncodeToBytes (transcript_fields t), EncodeToBytes (transcript_fields t')}"
  shows "t = t' \<and> t = NewConflictTranscript (ct_Access t)"
proof -
  have h: "keccak (EncodeToBytes (transcript_fields t)) = h" "keccak (EncodeToBytes (transcript_fields t')) = h"
    and v: "transcript_Validate t = Inr ()"
    using assms(1,2) by (auto simp: Commitment_def split: sum.splits)
  have "EncodeToBytes (transcript_fields t) = EncodeToBytes (transcript_fields t')"
    by (rule inj_onD [OF assms(5)]) (simp_all add: h)
  then have "enc (transcript_fields t) = enc (transcript_fields t')"
    using EncodeToBytes_enc [OF assms(3)] EncodeToBytes_enc [OF assms(4)] by simp
  from transcript_fields_inject [OF enc_inj [OF this assms(3)]] have "t = t'" .
  moreover have "t = NewConflictTranscript (ct_Access t)" using v by (rule Validate_iff [THEN iffD1, THEN conjunct2])
  ultimately show ?thesis by (rule conjI)
qed

theorem transcript_commitment_binds_witness:
  "NewConflictTranscript [example_access 1] = NewConflictTranscript (ct_Access (NewConflictTranscript [example_access 1]))"
proof -
  let ?t = "NewConflictTranscript [example_access 1]"
  have "BuildExecutionWaves [example_access 1] = [[0]]" by code_simp
  then have l: "length (enc (transcript_fields ?t)) < 2 ^ 64"
    by (simp add: NewConflictTranscript_def transcript_fields_def hasStorage_def example_access_def
        AccessSet_zero_def item_list_def item_uint_def item_addr_def item_bool_def Let_def header_def
        big_bytes.simps [of 0] big_bytes.simps [of "numeral n" for n])
  have "transcript_Validate ?t = Inr ()" by (simp add: Validate_iff NewConflictTranscript_def)
  then have "Commitment (\<lambda>b. 0) ?t = Inr 0" by (simp add: Commitment_def)
  from transcript_commitment_binds [OF this this l l] show ?thesis by simp
qed

text \<open>\<open>Verify\<close> does not compare the access sets it is given with those of the transcript: it
accepts a transcript of other access sets of the same number that happen to have the same
waves, here a transcript for account 1 when the accesses supplied are those of account 2.\<close>

theorem verify_ignores_access:
  "\<exists>t access h. transcript_Verify keccak t access h \<and> ct_Access t \<noteq> access"
proof (intro exI conjI)
  let ?t = "NewConflictTranscript [example_access 1]" and ?a = "[example_access 2]"
  have "BuildExecutionWaves [example_access 1] = [[0]]" "BuildExecutionWaves ?a = [[0]]" by code_simp+
  then show "transcript_Verify keccak ?t ?a (keccak (EncodeToBytes (transcript_fields ?t)))"
    by (simp add: transcript_Verify_def Let_def equalWaves_iff Commitment_def transcript_Validate_def
        NewConflictTranscript_def)
  show "ct_Access ?t \<noteq> ?a" by (simp add: NewConflictTranscript_def example_access_def AccessSet_zero_def)
qed

end
