(* ===== verification/Speculative.thy ===== *)
theory Speculative
  imports Statedb_Commit Waves "HOL-Library.Product_Lexorder"
begin

text \<open>
  Speculative deltas (\<open>core/state/speculative_delta.go\<close>): the write-set of a transaction that was
  executed on a copy of the state, its validation against the state it is merged into, and the
  merge. A copy of a state is the state itself; the iterations over maps visit the keys in
  ascending order and the results are sorted as in the source.
\<close>

section \<open>Deltas\<close>

record SpeculativeSlot =
  ss_Key :: hash
  ss_Origin :: hash
  ss_Value :: hash

record SpeculativeRead =
  sr_Address :: address
  sr_Key :: hash
  sr_Value :: hash

record SpeculativeAccount =
  spa_Address :: address
  spa_Origin :: "StateAccount option"
  spa_Current :: "StateAccount option"
  spa_Slots :: "SpeculativeSlot list"
  spa_Code :: "bytes option"

record SpeculativeDelta =
  sd_Accounts :: "SpeculativeAccount list"
  sd_Reads :: "SpeculativeRead list"

datatype delta_error = ErrSpeculativeDelta

text \<open>The keys of a map, in ascending order.\<close>

definition map_keys :: "('k :: {finite, linorder} \<rightharpoonup> 'v) \<Rightarrow> 'k list" where
  "map_keys m = sorted_list_of_set (dom m)"

text \<open>The first value read of every slot, and the values written, in the order of address and slot.\<close>

definition StorageAccessSummary :: "StateDB \<Rightarrow> SpeculativeRead list \<times> SpeculativeRead list" where
  "StorageAccessSummary s =
     (let entries = (\<lambda>m. map (\<lambda>(a, key). \<lparr>sr_Address = a, sr_Key = key, sr_Value = the (m (a, key))\<rparr>) (map_keys m))
      in (entries (db_storageReads s), entries (db_storageWrites s)))"

definition AccessSummary :: "StateDB \<Rightarrow> address list \<times> address list" where
  "AccessSummary s = (sorted_list_of_set (db_accessReads s), sorted_list_of_set (db_accessWrites s))"

section \<open>Building a delta\<close>

definition delta_refuses :: "StateDB \<Rightarrow> address \<Rightarrow> bool" where
  "delta_refuses s a \<longleftrightarrow>
     (case db_mutations s a of None \<Rightarrow> True | Some m \<Rightarrow> mu_typ m = mutDeletion) \<or>
     (case db_objects s a of
        None \<Rightarrow> True
      | Some obj \<Rightarrow>
          so_selfDestructed obj \<or> so_origin obj = None \<and> ac_Root (so_data obj) \<noteq> EmptyRootHash \<or>
          (\<exists>key. so_pendingStorage obj key \<noteq> None \<and> so_originStorage obj key = None))"

text \<open>
  Code is a byte list here, in which nil and an empty slice are the same; empty dirty code is nil in
  the delta. The sources clear the code of an account by setting nil (a cleared authorization); an
  empty slice is set only by a contract creation, on an account that has no code before and after.
\<close>

definition delta_account :: "StateDB \<Rightarrow> address \<Rightarrow> SpeculativeAccount" where
  "delta_account s a =
     (let obj = the (db_objects s a)
      in \<lparr>spa_Address = a, spa_Origin = so_origin obj, spa_Current = Some (so_data obj),
          spa_Slots = map (\<lambda>key. \<lparr>ss_Key = key, ss_Origin = the (so_originStorage obj key),
                                ss_Value = the (so_pendingStorage obj key)\<rparr>)
                       (map_keys (so_pendingStorage obj)),
          spa_Code = (if so_dirtyCode obj \<and> so_code obj \<noteq> [] then Some (so_code obj) else None)\<rparr>)"

definition BuildSpeculativeDelta ::
    "backend \<Rightarrow> StateDB \<Rightarrow> (delta_error + SpeculativeDelta) \<times> StateDB" where
  "BuildSpeculativeDelta be s =
     (let s = db_Finalise be True s; addrs = map_keys (db_mutations s)
      in (if \<exists>a \<in> set addrs. delta_refuses s a then Inl ErrSpeculativeDelta
          else Inr \<lparr>sd_Accounts = sort_key (\<lambda>account. checksumHex (be_keccak be) (spa_Address account))
                                    (map (delta_account s) addrs),
                    sd_Reads = fst (StorageAccessSummary s)\<rparr>, s))"

section \<open>Validating and applying a delta\<close>

definition accountsEqual :: "StateAccount option \<Rightarrow> StateAccount option \<Rightarrow> bool" where
  "accountsEqual a b =
     (case (a, b) of
        (Some a, Some b) \<Rightarrow>
          ac_Nonce a = ac_Nonce b \<and> ac_Root a = ac_Root b \<and> ac_CodeHash a = ac_CodeHash b \<and>
          ac_Balance a = ac_Balance b
      | (None, None) \<Rightarrow> True
      | _ \<Rightarrow> False)"

fun check_reads :: "backend \<Rightarrow> SpeculativeRead list \<Rightarrow> StateDB \<Rightarrow> bool \<times> StateDB" where
  "check_reads be [] s = (True, s)"
| "check_reads be (r # rs) s =
     (let (v, s) = db_GetState be (sr_Address r) (sr_Key r) s
      in if v \<noteq> sr_Value r then (False, s) else check_reads be rs s)"

fun check_slots :: "backend \<Rightarrow> address \<Rightarrow> SpeculativeSlot list \<Rightarrow> StateDB \<Rightarrow> bool \<times> StateDB" where
  "check_slots be a [] s = (True, s)"
| "check_slots be a (slot # slots) s =
     (let (v, s) = db_GetState be a (ss_Key slot) s
      in if v \<noteq> ss_Origin slot then (False, s) else check_slots be a slots s)"

fun check_accounts :: "backend \<Rightarrow> SpeculativeAccount list \<Rightarrow> StateDB \<Rightarrow> bool \<times> StateDB" where
  "check_accounts be [] s = (True, s)"
| "check_accounts be (account # accounts) s =
     (let (obj, s) = getStateObject be (spa_Address account) s
      in if \<not> accountsEqual (map_option so_data obj) (spa_Origin account) then (False, s)
         else
           let (ok, s) = check_slots be (spa_Address account) (spa_Slots account) s
           in if ok then check_accounts be accounts s else (False, s))"

definition CanApplySpeculativeDelta ::
    "backend \<Rightarrow> SpeculativeDelta \<Rightarrow> StateDB \<Rightarrow> delta_error option \<times> StateDB" where
  "CanApplySpeculativeDelta be delta s =
     (let (ok, s) = check_reads be (sd_Reads delta) s
      in if \<not> ok then (Some ErrSpeculativeDelta, s)
         else
           let (ok, s) = check_accounts be (sd_Accounts delta) s
           in (if ok then None else Some ErrSpeculativeDelta, s))"

definition apply_account ::
    "backend \<Rightarrow> SpeculativeAccount \<Rightarrow> StateDB \<Rightarrow> delta_error option \<times> StateDB" where
  "apply_account be account s =
     (let a = spa_Address account;
          s = (if spa_Origin account = None then db_CreateAccount be a s else s)
      in case spa_Current account of
           None \<Rightarrow> (Some ErrSpeculativeDelta, s)
         | Some cur \<Rightarrow>
             let s = db_SetBalance be a (ac_Balance cur) s;
                 s = db_SetNonce be a (ac_Nonce cur) s;
                 s = fold (\<lambda>slot s. snd (db_SetState be a (ss_Key slot) (ss_Value slot) s)) (spa_Slots account) s;
                 s = (case spa_Code account of None \<Rightarrow> s | Some code \<Rightarrow> snd (db_SetCode be a code s))
             in (None, s))"

fun apply_accounts ::
    "backend \<Rightarrow> SpeculativeAccount list \<Rightarrow> StateDB \<Rightarrow> delta_error option \<times> StateDB" where
  "apply_accounts be [] s = (None, s)"
| "apply_accounts be (account # accounts) s =
     (case apply_account be account s of
        (Some e, s) \<Rightarrow> (Some e, s)
      | (None, s) \<Rightarrow> apply_accounts be accounts s)"

definition ApplySpeculativeDelta ::
    "backend \<Rightarrow> SpeculativeDelta \<Rightarrow> StateDB \<Rightarrow> delta_error option \<times> StateDB" where
  "ApplySpeculativeDelta be delta s =
     (case CanApplySpeculativeDelta be delta s of
        (Some e, s) \<Rightarrow> (Some e, s)
      | (None, s) \<Rightarrow> apply_accounts be (sd_Accounts delta) s)"

section \<open>What the accounts of a state hold\<close>

record aview =
  av_Balance :: u256
  av_Nonce :: u64
  av_CodeHash :: hash
  av_Slot :: "hash \<Rightarrow> hash"

definition view_obj :: "backend \<Rightarrow> bool \<Rightarrow> address \<Rightarrow> stateObject \<Rightarrow> aview" where
  "view_obj be d a obj =
     \<lparr>av_Balance = ac_Balance (so_data obj), av_Nonce = ac_Nonce (so_data obj),
      av_CodeHash = ac_CodeHash (so_data obj), av_Slot = slot_value be d a (Some obj)\<rparr>"

definition aviews :: "backend \<Rightarrow> StateDB \<Rightarrow> address \<rightharpoonup> aview" where
  "aviews be s a = map_option (view_obj be (destructed s a) a) (peek be s a)"

definition new_aview :: "backend \<Rightarrow> aview" where
  "new_aview be = \<lparr>av_Balance = 0, av_Nonce = 0, av_CodeHash = EmptyCodeHash be, av_Slot = (\<lambda>_. 0)\<rparr>"

definition upd_aview :: "backend \<Rightarrow> address \<Rightarrow> (aview \<Rightarrow> aview) \<Rightarrow> (address \<rightharpoonup> aview) \<Rightarrow> (address \<rightharpoonup> aview)" where
  "upd_aview be a f m = m(a \<mapsto> f (case m a of None \<Rightarrow> new_aview be | Some v \<Rightarrow> v))"

text \<open>The account that a delta asks for.\<close>

definition delta_aview :: "backend \<Rightarrow> SpeculativeAccount \<Rightarrow> aview \<Rightarrow> aview" where
  "delta_aview be account v =
     \<lparr>av_Balance = ac_Balance (the (spa_Current account)), av_Nonce = ac_Nonce (the (spa_Current account)),
      av_CodeHash = (case spa_Code account of None \<Rightarrow> av_CodeHash v | Some code \<Rightarrow> be_keccak be code),
      av_Slot = fold (\<lambda>slot m. m(ss_Key slot := ss_Value slot)) (spa_Slots account) (av_Slot v)\<rparr>"

text \<open>What the validation of a delta demands of a state.\<close>

definition delta_fits :: "backend \<Rightarrow> SpeculativeDelta \<Rightarrow> StateDB \<Rightarrow> bool" where
  "delta_fits be delta s \<longleftrightarrow>
     (\<forall>r \<in> set (sd_Reads delta). fst (db_GetState be (sr_Address r) (sr_Key r) s) = sr_Value r) \<and>
     (\<forall>account \<in> set (sd_Accounts delta).
        map_option so_data (peek be s (spa_Address account)) = spa_Origin account \<and>
        (\<forall>slot \<in> set (spa_Slots account).
           fst (db_GetState be (spa_Address account) (ss_Key slot) s) = ss_Origin slot))"

text \<open>The accounts after a merge.\<close>

definition merged :: "backend \<Rightarrow> SpeculativeAccount list \<Rightarrow> (address \<rightharpoonup> aview) \<Rightarrow> (address \<rightharpoonup> aview)" where
  "merged be accounts m = fold (\<lambda>account. upd_aview be (spa_Address account) (delta_aview be account)) accounts m"

section \<open>Updates of accounts\<close>

lemma aviews_sim:
  assumes "sim be s t"
  shows "aviews be s = aviews be t"
proof
  fix a
  have d: "destructed t = destructed s" using assms destructed_rest [of s t] by (simp add: sim_def)
  have same: "view_obj be (destructed s a) a obj = view_obj be (destructed s a) a obj'"
    if "obj_canon be (destructed s a) a obj = obj_canon be (destructed s a) a obj'" for obj obj'
    using that slot_value_canon [OF that] by (simp add: view_obj_def obj_canon_eq)
  have "(case peek be s a of None \<Rightarrow> None | Some obj \<Rightarrow> Some (view_obj be (destructed s a) a obj)) =
      (case peek be t a of None \<Rightarrow> None | Some obj \<Rightarrow> Some (view_obj be (destructed s a) a obj))"
    by (rule sim_case [OF assms], rule arg_cong [of _ _ Some], rule same)
  then show "aviews be s a = aviews be t a" by (simp add: aviews_def d map_option_case)
qed

lemma aviews_silent: "silent be s t \<Longrightarrow> aviews be t = aviews be s"
  by (simp add: silent_def aviews_sim)

lemma view_obj_new:
  assumes "storage_of_accounts be" "peek be s a = None"
  shows "view_obj be (destructed s a) a (newObject be None) = new_aview be"
  using slot_value_new [OF assms]
  by (simp add: view_obj_def new_aview_def newObject_def NewEmptyStateAccount_def fun_eq_iff)

lemma aviews_update:
  assumes "storage_of_accounts be" "peek be s' = (peek be s)(a \<mapsto> obj')" "destructed s' = destructed s"
    and "view_obj be (destructed s a) a obj' =
      f (view_obj be (destructed s a) a (case peek be s a of None \<Rightarrow> newObject be None | Some obj \<Rightarrow> obj))"
  shows "aviews be s' = upd_aview be a f (aviews be s)"
proof
  fix b
  show "aviews be s' b = upd_aview be a f (aviews be s) b"
    using assms(2-4) view_obj_new [OF assms(1), of s a]
    by (cases "peek be s a") (simp_all add: aviews_def upd_aview_def)
qed


lemma destructed_j_append_set: "destructed (setStateObject a obj (j_append e s)) = destructed s"
  by (simp add: track_simps)

lemma view_obj_setters:
  "view_obj be d a (obj_setBalance v obj) = (view_obj be d a obj)\<lparr>av_Balance := v\<rparr>"
  "view_obj be d a (obj_setNonce n obj) = (view_obj be d a obj)\<lparr>av_Nonce := n\<rparr>"
  "view_obj be d a (obj_setCode h code obj) = (view_obj be d a obj)\<lparr>av_CodeHash := h\<rparr>"
  by (simp_all add: view_obj_def setter_sels)
    (simp_all add: slot_value_def obj_setters fun_eq_iff split: option.split)

lemma aviews_SetBalance:
  assumes "storage_of_accounts be"
  shows "aviews be (db_SetBalance be a v s) = upd_aview be a (\<lambda>w. w\<lparr>av_Balance := v\<rparr>) (aviews be s)"
proof -
  obtain obj s1 where g: "getOrNewStateObject be a (recordWrite a s) = (obj, s1)" by (metis prod.collapse)
  show ?thesis
    using getOrNew_peek [OF g]
    by (intro aviews_update [OF assms, of _ _ _ "obj_setBalance v obj"])
      (simp_all add: db_SetBalance_def g obj_SetBalance_def peek_simps track_simps view_obj_setters Let_def)
qed

lemma aviews_SetNonce:
  assumes "storage_of_accounts be"
  shows "aviews be (db_SetNonce be a n s) = upd_aview be a (\<lambda>w. w\<lparr>av_Nonce := n\<rparr>) (aviews be s)"
proof -
  obtain obj s1 where g: "getOrNewStateObject be a (recordWrite a s) = (obj, s1)" by (metis prod.collapse)
  show ?thesis
    using getOrNew_peek [OF g]
    by (intro aviews_update [OF assms, of _ _ _ "obj_setNonce n obj"])
      (simp_all add: db_SetNonce_def g obj_SetNonce_def peek_simps track_simps view_obj_setters Let_def)
qed

lemma aviews_SetCode:
  assumes "storage_of_accounts be"
  shows "aviews be (snd (db_SetCode be a code s)) =
    upd_aview be a (\<lambda>w. w\<lparr>av_CodeHash := be_keccak be code\<rparr>) (aviews be s)"
proof -
  obtain obj s1 where g: "getOrNewStateObject be a (recordWrite a s) = (obj, s1)" by (metis prod.collapse)
  show ?thesis
    using getOrNew_peek [OF g]
    by (intro aviews_update [OF assms, of _ _ _ "obj_setCode (be_keccak be code) code obj"])
      (simp_all add: db_SetCode_def g obj_SetCode_def peek_simps track_simps view_obj_setters Let_def)
qed

lemma aviews_SetState:
  assumes "storage_of_accounts be"
  shows "aviews be (snd (db_SetState be a key v s)) =
    upd_aview be a (\<lambda>w. w\<lparr>av_Slot := (av_Slot w)(key := v)\<rparr>) (aviews be s)"
proof -
  obtain obj' where o': "peek be (snd (db_SetState be a key v s)) = (peek be s)(a \<mapsto> obj')"
    "destructed (snd (db_SetState be a key v s)) = destructed s"
    "so_data obj' = so_data (case peek be s a of None \<Rightarrow> newObject be None | Some obj \<Rightarrow> obj)"
    "slot_value be (destructed s a) a (Some obj') =
      (slot_value be (destructed s a) a (Some (case peek be s a of None \<Rightarrow> newObject be None | Some obj \<Rightarrow> obj)))(key := v)"
    using SetState_peek [OF refl] by blast
  show ?thesis
    by (rule aviews_update [OF assms o'(1, 2)]) (simp add: view_obj_def o'(3, 4))
qed

lemma aviews_CreateAccount:
  assumes "storage_of_accounts be" "peek be s a = None"
  shows "aviews be (db_CreateAccount be a s) = (aviews be s)(a \<mapsto> new_aview be)"
  using view_obj_new [OF assms]
  by (auto simp: db_CreateAccount_def createObject_eq aviews_def peek_simps track_simps fun_eq_iff)

lemma aviews_None: "aviews be s a = None \<longleftrightarrow> peek be s a = None"
  by (simp add: aviews_def)

lemma upd_aview_upd: "upd_aview be a g (upd_aview be a f m) = upd_aview be a (\<lambda>w. g (f w)) m"
  by (simp add: upd_aview_def)

lemma upd_aview_other: "b \<noteq> a \<Longrightarrow> upd_aview be a f m b = m b"
  by (simp add: upd_aview_def)

lemma aviews_SetState_fold:
  assumes "storage_of_accounts be" "aviews be s = upd_aview be a f m"
  shows "aviews be (fold (\<lambda>slot s. snd (db_SetState be a (ss_Key slot) (ss_Value slot) s)) slots s) =
    upd_aview be a (\<lambda>w. (f w)\<lparr>av_Slot := fold (\<lambda>slot m. m(ss_Key slot := ss_Value slot)) slots (av_Slot (f w))\<rparr>) m"
  using assms(2)
proof (induction slots arbitrary: s f)
  case (Cons slot slots)
  let ?t = "snd (db_SetState be a (ss_Key slot) (ss_Value slot) s)"
  have "aviews be ?t = upd_aview be a (\<lambda>w. (f w)\<lparr>av_Slot := (av_Slot (f w))(ss_Key slot := ss_Value slot)\<rparr>) m"
    by (simp add: aviews_SetState [OF assms(1)] Cons.prems upd_aview_upd)
  from Cons.IH [OF this] show ?case by simp
qed simp

lemma apply_account_views:
  assumes "storage_of_accounts be" "spa_Current account = Some cur"
    "spa_Origin account = None \<Longrightarrow> aviews be s (spa_Address account) = None"
  shows "fst (apply_account be account s) = None \<and>
    aviews be (snd (apply_account be account s)) =
      upd_aview be (spa_Address account) (delta_aview be account) (aviews be s)"
proof -
  let ?a = "spa_Address account"
  define s0 where "s0 = (if spa_Origin account = None then db_CreateAccount be ?a s else s)"
  have s0: "upd_aview be ?a f (aviews be s0) = upd_aview be ?a f (aviews be s)" for f
    using aviews_CreateAccount [OF assms(1), of s ?a] assms(3)
    by (cases "spa_Origin account") (simp_all add: s0_def upd_aview_def flip: aviews_None)
  define s1 where "s1 = db_SetNonce be ?a (ac_Nonce cur) (db_SetBalance be ?a (ac_Balance cur) s0)"
  have s1: "aviews be s1 = upd_aview be ?a
      (\<lambda>w. w\<lparr>av_Balance := ac_Balance cur, av_Nonce := ac_Nonce cur\<rparr>) (aviews be s)"
    by (simp add: s1_def aviews_SetNonce [OF assms(1)] aviews_SetBalance [OF assms(1)] upd_aview_upd s0)
  define s2 where "s2 = fold (\<lambda>slot s. snd (db_SetState be ?a (ss_Key slot) (ss_Value slot) s)) (spa_Slots account) s1"
  note s2 = aviews_SetState_fold [OF assms(1) s1, of "spa_Slots account", folded s2_def]
  have r: "apply_account be account s =
      (None, case spa_Code account of None \<Rightarrow> s2 | Some code \<Rightarrow> snd (db_SetCode be ?a code s2))"
    by (simp only: apply_account_def assms(2) option.case s0_def s1_def s2_def Let_def)
  show ?thesis
  proof (cases "spa_Code account")
    case None
    have "(\<lambda>w. w\<lparr>av_Balance := ac_Balance cur, av_Nonce := ac_Nonce cur, av_Slot :=
        fold (\<lambda>slot m. m(ss_Key slot := ss_Value slot)) (spa_Slots account) (av_Slot w)\<rparr>) = delta_aview be account"
      by (rule ext) (simp add: delta_aview_def None assms(2))
    then show ?thesis using s2 by (simp add: r None)
  next
    case (Some code)
    have "(\<lambda>w. w\<lparr>av_Balance := ac_Balance cur, av_Nonce := ac_Nonce cur, av_Slot :=
        fold (\<lambda>slot m. m(ss_Key slot := ss_Value slot)) (spa_Slots account) (av_Slot w),
        av_CodeHash := be_keccak be code\<rparr>) = delta_aview be account"
      by (rule ext) (simp add: delta_aview_def Some assms(2))
    then show ?thesis using s2 by (simp add: r Some aviews_SetCode [OF assms(1)] upd_aview_upd)
  qed
qed

section \<open>Validation\<close>

lemma silent_reads: "silent be s t \<Longrightarrow> fst (db_GetState be a key t) = fst (db_GetState be a key s)"
  using same_reads_sim [of be t s] by (simp add: silent_def same_reads_def)

lemma silent_data:
  assumes "silent be s t"
  shows "map_option so_data (peek be t a) = map_option so_data (peek be s a)"
proof -
  have "map_option so_data (objv be t a) = map_option so_data (objv be s a)"
    using assms by (simp add: silent_def sim_def)
  then show ?thesis by (simp add: objv_def option.map_comp comp_def canon_simps)
qed

lemma accountsEqual_iff: "accountsEqual a b \<longleftrightarrow> a = b"
  by (cases a; cases b) (auto simp: accountsEqual_def)

lemma check_reads_iff:
  "silent be s (snd (check_reads be rs s)) \<and>
   (fst (check_reads be rs s) \<longleftrightarrow> (\<forall>r \<in> set rs. fst (db_GetState be (sr_Address r) (sr_Key r) s) = sr_Value r))"
proof (induction rs arbitrary: s)
  case (Cons r rs)
  obtain v t where g: "db_GetState be (sr_Address r) (sr_Key r) s = (v, t)" by (metis prod.collapse)
  have t: "silent be s t" using silent_GetState [of be s "sr_Address r" "sr_Key r"] g by simp
  show ?case
    using Cons [of t] g silent_trans [OF t] silent_reads [OF t] t by simp
qed simp

lemma check_slots_iff:
  "silent be s (snd (check_slots be a slots s)) \<and>
   (fst (check_slots be a slots s) \<longleftrightarrow> (\<forall>slot \<in> set slots. fst (db_GetState be a (ss_Key slot) s) = ss_Origin slot))"
proof (induction slots arbitrary: s)
  case (Cons slot slots)
  obtain v t where g: "db_GetState be a (ss_Key slot) s = (v, t)" by (metis prod.collapse)
  have t: "silent be s t" using silent_GetState [of be s a "ss_Key slot"] g by simp
  show ?case
    using Cons [of t] g silent_trans [OF t] silent_reads [OF t] t by simp
qed simp

lemma check_accounts_iff:
  "silent be s (snd (check_accounts be accounts s)) \<and>
   (fst (check_accounts be accounts s) \<longleftrightarrow>
      (\<forall>account \<in> set accounts. map_option so_data (peek be s (spa_Address account)) = spa_Origin account \<and>
         (\<forall>slot \<in> set (spa_Slots account).
            fst (db_GetState be (spa_Address account) (ss_Key slot) s) = ss_Origin slot)))"
proof (induction accounts arbitrary: s)
  case (Cons account accounts)
  let ?a = "spa_Address account"
  let ?t = "loaded be ?a s"
  obtain ok u where g: "check_slots be ?a (spa_Slots account) ?t = (ok, u)" by (metis prod.collapse)
  have t: "silent be s ?t" by (rule silent_loaded)
  note c = check_slots_iff [of be ?t ?a "spa_Slots account", unfolded g, simplified]
  have u: "silent be s u" using t c by (auto intro: silent_trans)
  have ok: "ok \<longleftrightarrow> (\<forall>slot \<in> set (spa_Slots account). fst (db_GetState be ?a (ss_Key slot) s) = ss_Origin slot)"
    using c silent_reads [OF t] by simp
  show ?case
    using Cons [of u] silent_trans [OF u] silent_reads [OF u] silent_data [OF u] t u ok
    by (simp add: getStateObject_peek accountsEqual_iff g)
qed simp

lemma CanApply_iff:
  "silent be s (snd (CanApplySpeculativeDelta be delta s))"
  "fst (CanApplySpeculativeDelta be delta s) = None \<longleftrightarrow> delta_fits be delta s"
proof -
  obtain ok t where g: "check_reads be (sd_Reads delta) s = (ok, t)" by (metis prod.collapse)
  obtain ok' u where h: "check_accounts be (sd_Accounts delta) t = (ok', u)" by (metis prod.collapse)
  note c = check_reads_iff [of be s "sd_Reads delta", unfolded g, simplified]
  note d = check_accounts_iff [of be t "sd_Accounts delta", unfolded h, simplified]
  have t: "silent be s t" using c by simp
  have u: "silent be s u" using t d by (auto intro: silent_trans)
  show "silent be s (snd (CanApplySpeculativeDelta be delta s))"
    using t u by (simp add: CanApplySpeculativeDelta_def g h)
  show "fst (CanApplySpeculativeDelta be delta s) = None \<longleftrightarrow> delta_fits be delta s"
    using c d silent_reads [OF t] silent_data [OF t]
    by (simp add: CanApplySpeculativeDelta_def g h delta_fits_def)
qed

section \<open>Merging\<close>

lemma merged_other: "a \<notin> spa_Address ` set accounts \<Longrightarrow> merged be accounts m a = m a"
  by (induction accounts arbitrary: m) (simp_all add: merged_def upd_aview_other)

lemma merged_at:
  assumes "distinct (map spa_Address accounts)" "account \<in> set accounts"
  shows "merged be accounts m (spa_Address account) =
    Some (delta_aview be account (case m (spa_Address account) of None \<Rightarrow> new_aview be | Some v \<Rightarrow> v))"
  using assms
proof (induction accounts arbitrary: m)
  case (Cons x xs)
  show ?case
  proof (cases "account = x")
    case True
    then have "spa_Address x \<notin> spa_Address ` set xs" using Cons.prems(1) by simp
    from merged_other [OF this] show ?thesis using True by (simp add: merged_def upd_aview_def)
  next
    case False
    then have mem: "account \<in> set xs" using Cons.prems(2) by simp
    then have "spa_Address account \<in> spa_Address ` set xs" by (rule imageI)
    then have ne: "spa_Address account \<noteq> spa_Address x" using Cons.prems(1) by auto
    show ?thesis
      using Cons.IH [OF _ mem, of "upd_aview be (spa_Address x) (delta_aview be x) m"] Cons.prems(1)
        upd_aview_other [OF ne]
      by (simp add: merged_def)
  qed
qed simp

lemma apply_accounts_views:
  assumes "storage_of_accounts be" "distinct (map spa_Address accounts)"
    and "\<forall>account \<in> set accounts. spa_Current account \<noteq> None \<and>
      (spa_Origin account = None \<longrightarrow> aviews be s (spa_Address account) = None)"
  shows "fst (apply_accounts be accounts s) = None \<and>
    aviews be (snd (apply_accounts be accounts s)) = merged be accounts (aviews be s)"
  using assms(2, 3)
proof (induction accounts arbitrary: s)
  case (Cons x xs)
  obtain cur where cur: "spa_Current x = Some cur" using Cons.prems(2) by auto
  obtain e t where g: "apply_account be x s = (e, t)" by (metis prod.collapse)
  have t: "e = None" "aviews be t = upd_aview be (spa_Address x) (delta_aview be x) (aviews be s)"
    using apply_account_views [OF assms(1) cur] Cons.prems(2) g by force+
  have "\<forall>account \<in> set xs. spa_Current account \<noteq> None \<and>
      (spa_Origin account = None \<longrightarrow> aviews be t (spa_Address account) = None)"
  proof
    fix account assume mem: "account \<in> set xs"
    then have "spa_Address account \<in> spa_Address ` set xs" by (rule imageI)
    then have "spa_Address account \<noteq> spa_Address x" using Cons.prems(1) by auto
    then show "spa_Current account \<noteq> None \<and>
        (spa_Origin account = None \<longrightarrow> aviews be t (spa_Address account) = None)"
      using Cons.prems(2) mem by (simp add: t(2) upd_aview_other)
  qed
  from Cons.IH [OF _ this] show ?case using Cons.prems(1) t by (simp add: g merged_def)
qed (simp add: merged_def)

lemma Apply_views:
  assumes "storage_of_accounts be" "distinct (map spa_Address (sd_Accounts delta))"
    and "\<forall>account \<in> set (sd_Accounts delta). spa_Current account \<noteq> None" "delta_fits be delta s"
  shows "\<exists>t. ApplySpeculativeDelta be delta s = (None, t) \<and>
    aviews be t = merged be (sd_Accounts delta) (aviews be s)"
proof -
  obtain e u where g: "CanApplySpeculativeDelta be delta s = (e, u)" by (metis prod.collapse)
  have e: "e = None" and u: "silent be s u"
    using CanApply_iff(1) [where delta = delta and s = s and be = be] CanApply_iff(2) [where delta = delta and s = s and be = be] assms(4) g by simp_all
  have "\<forall>account \<in> set (sd_Accounts delta). spa_Current account \<noteq> None \<and>
      (spa_Origin account = None \<longrightarrow> aviews be u (spa_Address account) = None)"
    using assms(3, 4) by (auto simp: aviews_silent [OF u] aviews_None delta_fits_def)
  from apply_accounts_views [OF assms(1, 2) this] show ?thesis
    using g e aviews_silent [OF u]
    by (cases "apply_accounts be (sd_Accounts delta) u") (simp add: ApplySpeculativeDelta_def)
qed


text \<open>Other objects are not touched.\<close>

lemma peek_other:
  assumes "b \<noteq> a"
  shows "peek be (db_SetBalance be a v s) b = peek be s b" "peek be (db_SetNonce be a n s) b = peek be s b"
    "peek be (snd (db_SetCode be a code s)) b = peek be s b" "peek be (db_CreateAccount be a s) b = peek be s b"
    "peek be (snd (db_SetState be a key w s)) b = peek be s b"
proof -
  obtain obj s1 where g: "getOrNewStateObject be a (recordWrite a s) = (obj, s1)" by (metis prod.collapse)
  have "peek be s1 b = peek be s b" using getOrNew_peek [OF g] assms by simp
  then show "peek be (db_SetBalance be a v s) b = peek be s b" "peek be (db_SetNonce be a n s) b = peek be s b"
    "peek be (snd (db_SetCode be a code s)) b = peek be s b" "peek be (db_CreateAccount be a s) b = peek be s b"
    using assms
    by (simp_all add: db_SetBalance_def db_SetNonce_def db_SetCode_def g obj_SetBalance_def obj_SetNonce_def
        obj_SetCode_def peek_simps db_CreateAccount_def createObject_eq Let_def)
  show "peek be (snd (db_SetState be a key w s)) b = peek be s b"
    using SetState_peek [OF refl, where be = be and s = s and a = a and key = key and v = w] assms by auto
qed

lemma apply_account_other:
  assumes "b \<noteq> spa_Address account"
  shows "peek be (snd (apply_account be account s)) b = peek be s b"
proof -
  have "peek be (fold (\<lambda>slot s. snd (db_SetState be (spa_Address account) (ss_Key slot) (ss_Value slot) s)) slots s) b =
      peek be s b" for slots :: "SpeculativeSlot list" and s
    by (induction slots arbitrary: s) (simp_all add: peek_other [OF assms])
  then show ?thesis
    by (simp add: apply_account_def peek_other [OF assms] Let_def split: option.split)
qed

lemma apply_accounts_other:
  "b \<notin> spa_Address ` set accounts \<Longrightarrow> peek be (snd (apply_accounts be accounts s)) b = peek be s b"
proof (induction accounts arbitrary: s)
  case (Cons account accounts)
  then have ne: "b \<noteq> spa_Address account" by auto
  show ?case
    using Cons apply_account_other [OF ne, of be s]
    by (cases "apply_account be account s") (auto split: option.split)
qed simp

lemma Apply_other:
  assumes "b \<notin> spa_Address ` set (sd_Accounts delta)"
  shows "map_option so_data (peek be (snd (ApplySpeculativeDelta be delta s)) b) = map_option so_data (peek be s b)"
proof -
  obtain e u where g: "CanApplySpeculativeDelta be delta s = (e, u)" by (metis prod.collapse)
  have "silent be s u" using CanApply_iff(1) [where delta = delta and s = s and be = be] g by simp
  from silent_data [OF this, of b] show ?thesis
    using apply_accounts_other [OF assms, of be u]
    by (simp add: ApplySpeculativeDelta_def g split: option.split)
qed

lemma GetState_aviews:
  "fst (db_GetState be a key s) = (case aviews be s a of None \<Rightarrow> 0 | Some v \<Rightarrow> av_Slot v key)"
  by (simp add: GetState_slot aviews_def view_obj_def slot_value_def split: option.split)

end
