(* ===== verification/Speculative_Delta.thy ===== *)
theory Speculative_Delta
  imports Speculative
begin

text \<open>
  A delta is the effect of the transaction it was built from: it is accepted by the state the
  transaction started from, and applying it there gives the accounts of the speculative state.
\<close>

section \<open>States and their reads\<close>

text \<open>A state at the start of the block: nothing is changed, objects and slots may be cached.\<close>

definition clean :: "backend \<Rightarrow> StateDB \<Rightarrow> bool" where
  "clean be s \<longleftrightarrow>
     db_ok be s \<and> db_journal s = newJournal \<and> objv be s = objv be NewWithReader \<and>
     db_destruct s = Map.empty \<and> db_mutations s = Map.empty \<and> db_storageReads s = Map.empty"

text \<open>Recorded reads are the values from before the block.\<close>

definition reads_ok :: "backend \<Rightarrow> StateDB \<Rightarrow> bool" where
  "reads_ok be s \<longleftrightarrow>
     (\<forall>a key v. db_storageReads s (a, key) = Some v \<longrightarrow> v = base_value be (destructed s a) a key)"

text \<open>The delta does not clear the code of an account.\<close>

definition keeps_code :: "backend \<Rightarrow> SpeculativeDelta \<Rightarrow> bool" where
  "keeps_code be delta \<longleftrightarrow>
     (\<forall>account \<in> set (sd_Accounts delta). spa_Code account = None \<longrightarrow>
        ac_CodeHash (the (spa_Current account)) =
          (case spa_Origin account of None \<Rightarrow> EmptyCodeHash be | Some acct \<Rightarrow> ac_CodeHash acct))"

text \<open>The code hash an account starts with, and accounts without their code hash.\<close>

definition start_hash :: "backend \<Rightarrow> StateDB \<Rightarrow> address \<Rightarrow> hash" where
  "start_hash be s a = (case aviews be s a of None \<Rightarrow> EmptyCodeHash be | Some v \<Rightarrow> av_CodeHash v)"

definition codeless :: "aview option \<Rightarrow> (u256 \<times> u64 \<times> (hash \<Rightarrow> hash)) option" where
  "codeless v = map_option (\<lambda>v. (av_Balance v, av_Nonce v, av_Slot v)) v"

text \<open>
  Two example transactions: one pays an account, the other stores a balance, plus one, in a slot.
\<close>

definition store_balance :: "backend \<Rightarrow> address \<Rightarrow> address \<Rightarrow> hash \<Rightarrow> StateDB \<Rightarrow> StateDB" where
  "store_balance be from a key s =
     (let (b, s) = db_GetBalance be from s in snd (db_SetState be a key (ucast b + 1) s))"

definition sample_payment :: StateDB where
  "sample_payment = snd (db_AddBalance sample_reader 6 10 NewWithReader)"

definition sample_store :: StateDB where
  "sample_store = store_balance sample_reader 6 5 2 NewWithReader"


definition sample_account :: StateAccount where
  "sample_account = \<lparr>ac_Nonce = 1, ac_Balance = 100, ac_Root = 4, ac_CodeHash = 2\<rparr>"

section \<open>Fields that calls leave alone\<close>

lemma fixed_simps:
  "db_destruct (recordRead a s) = db_destruct s" "db_mutations (recordRead a s) = db_mutations s"
  "db_destruct (setStateObject a obj s) = db_destruct s" "db_mutations (setStateObject a obj s) = db_mutations s"
  "db_destruct (loaded be a s) = db_destruct s" "db_mutations (loaded be a s) = db_mutations s"
  using loaded_cases [of be a s]
  by (auto simp: recordRead_def setStateObject_def)

lemma fixed_entry_revert:
  "entry_revert be e s = Some t \<Longrightarrow> db_destruct t = db_destruct s \<and> db_mutations t = db_mutations s"
  by (cases e)
    (auto simp: on_object_eq getStateObject_peek fixed_simps split: option.splits if_splits)

lemma fixed_revert_entries:
  "revert_entries be es s = Some t \<Longrightarrow> db_destruct t = db_destruct s \<and> db_mutations t = db_mutations s"
proof (induction es arbitrary: s)
  case (Cons e es)
  then obtain u where u: "entry_revert be e s = Some u"
    "revert_entries be es (u\<lparr>db_journal := (db_journal u)\<lparr>jr_dirties :=
       count_dirty (- 1) e (jr_dirties (db_journal u))\<rparr>\<rparr>) = Some t"
    by (auto simp: Let_def split: option.splits)
  then show ?case using Cons.IH [OF u(2)] fixed_entry_revert [OF u(1)] by simp
qed simp

lemma fixed_reached:
  assumes "reached be s lim t"
  shows "db_destruct t = db_destruct s" "db_mutations t = db_mutations s"
proof -
  from assms obtain es where "undoable be s t es" unfolding reached_def by blast
  from this [unfolded undoable_def, rule_format, of 0] obtain u where
    u: "revert_entries be (rev es) t = Some u" "sim be u s" by auto
  then show "db_destruct t = db_destruct s" "db_mutations t = db_mutations s"
    using fixed_revert_entries [OF u(1)] rest_sel [of u s] by (simp_all add: sim_def)
qed

lemma reached_start:
  assumes "db_ok be s" "db_journal s = newJournal"
  shows "reached be s 0 s"
  using assms revs_ok_newJournal [OF assms(2)]
  by (intro reached_self) (simp_all add: stack_def newJournal_def)

section \<open>Recorded reads\<close>

lemma reads_simps:
  "db_storageReads (recordRead a s) = db_storageReads s"
  "db_storageReads (recordWrite a s) = db_storageReads s"
  "db_storageReads (recordStorageWrite a key v s) = db_storageReads s"
  "db_storageReads (setStateObject a obj s) = db_storageReads s"
  "db_storageReads (j_append e s) = db_storageReads s"
  "db_storageReads (touch a s) = db_storageReads s"
  by (simp_all add: recordRead_def recordWrite_def recordStorageWrite_def setStateObject_def j_append_def
      touch_def j_dirty_def Let_def)

lemma reads_loaded [simp]: "db_storageReads (loaded be a s) = db_storageReads s"
  using loaded_cases [of be a s] by (auto simp: reads_simps)

lemma reads_getOrNew: "getOrNewStateObject be a s = (obj, t) \<Longrightarrow> db_storageReads t = db_storageReads s"
  by (auto simp: getOrNewStateObject_def getStateObject_peek createObject_eq reads_simps split: option.splits)

text \<open>Calls that do not read slots.\<close>

lemma reads_entry_revert: "entry_revert be e s = Some t \<Longrightarrow> db_storageReads t = db_storageReads s"
  by (cases e) (auto simp: on_object_eq getStateObject_peek reads_simps split: option.splits if_splits)

lemma reads_revert_entries: "revert_entries be es s = Some t \<Longrightarrow> db_storageReads t = db_storageReads s"
proof (induction es arbitrary: s)
  case (Cons e es)
  then obtain u where u: "entry_revert be e s = Some u"
    "revert_entries be es (u\<lparr>db_journal := (db_journal u)\<lparr>jr_dirties :=
       count_dirty (- 1) e (jr_dirties (db_journal u))\<rparr>\<rparr>) = Some t"
    by (auto simp: Let_def split: option.splits)
  then show ?case using Cons.IH [OF u(2)] reads_entry_revert [OF u(1)] by simp
qed simp

lemma reads_plain:
  "db_storageReads (snd (db_Exist be a s)) = db_storageReads s"
  "db_storageReads (snd (db_Empty be a s)) = db_storageReads s"
  "db_storageReads (snd (db_GetBalance be a s)) = db_storageReads s"
  "db_storageReads (snd (db_GetNonce be a s)) = db_storageReads s"
  "db_storageReads (snd (db_GetCodeHash be a s)) = db_storageReads s"
  "db_storageReads (snd (db_GetCode be a s)) = db_storageReads s"
  "db_storageReads (snd (db_HasSelfDestructed be a s)) = db_storageReads s"
  "db_storageReads (snd (db_IsNewContract be a s)) = db_storageReads s"
  "db_storageReads (db_SelfDestruct be a s) = db_storageReads s"
  "db_storageReads (db_CreateAccount be a s) = db_storageReads s"
  "db_storageReads (db_SetTransientState a key v s) = db_storageReads s"
  "db_storageReads (db_AddLog log s) = db_storageReads s"
  "db_storageReads (db_AddRefund gas s) = db_storageReads s"
  "db_storageReads (db_AddAddressToAccessList a s) = db_storageReads s"
  "db_storageReads (db_AddSlotToAccessList a key s) = db_storageReads s"
  "db_storageReads (snd (db_Snapshot s)) = db_storageReads s"
  "db_SubRefund gas s = Some t \<Longrightarrow> db_storageReads t = db_storageReads s"
  "db_CreateContract be a s = Some t \<Longrightarrow> db_storageReads t = db_storageReads s"
  by (auto simp: db_Exist_def db_Empty_def db_GetBalance_def db_GetNonce_def db_GetCodeHash_def
      db_GetCode_def db_HasSelfDestructed_def db_IsNewContract_def db_SelfDestruct_def
      db_CreateAccount_def createObject_eq db_SetTransientState_def db_AddLog_def db_AddRefund_def
      db_AddAddressToAccessList_def db_AddSlotToAccessList_def db_Snapshot_def db_SubRefund_def
      db_CreateContract_def getStateObject_peek reads_simps Let_def
      split: option.splits prod.splits if_splits)

lemma reads_setters:
  "db_storageReads (snd (db_AddBalance be a v s)) = db_storageReads s"
  "db_storageReads (snd (db_SubBalance be a v s)) = db_storageReads s"
  "db_storageReads (db_SetBalance be a v s) = db_storageReads s"
  "db_storageReads (db_SetNonce be a n s) = db_storageReads s"
  "db_storageReads (snd (db_SetCode be a code s)) = db_storageReads s"
proof -
  obtain obj t where g: "getOrNewStateObject be a (recordWrite a s) = (obj, t)" by (metis prod.collapse)
  have "db_storageReads t = db_storageReads s" using reads_getOrNew [OF g] by (simp add: reads_simps)
  then show "db_storageReads (snd (db_AddBalance be a v s)) = db_storageReads s"
    "db_storageReads (snd (db_SubBalance be a v s)) = db_storageReads s"
    "db_storageReads (db_SetBalance be a v s) = db_storageReads s"
    "db_storageReads (db_SetNonce be a n s) = db_storageReads s"
    "db_storageReads (snd (db_SetCode be a code s)) = db_storageReads s"
    by (simp_all add: db_AddBalance_def db_SubBalance_def db_SetBalance_def db_SetNonce_def db_SetCode_def g
        obj_AddBalance_def obj_SetBalance_def obj_SetNonce_def obj_SetCode_def reads_simps Let_def)
qed


text \<open>Calls that read slots.\<close>

lemma cached_origin:
  assumes "db_ok be s" "peek be s a = Some obj"
  shows "origin_value be (destructed s a) a obj key = base_value be (destructed s a) a key"
  using db_ok_base(1) [OF assms(1) objv_peek [OF assms(2)]] by (simp add: canon_simps fun_eq_iff)

lemma reads_ok_cong:
  "db_storageReads t = db_storageReads s \<Longrightarrow> destructed t = destructed s \<Longrightarrow> reads_ok be t = reads_ok be s"
  by (simp add: reads_ok_def)

lemma reads_ok_record:
  "reads_ok be s \<Longrightarrow> v = base_value be (destructed s a) a key \<Longrightarrow> reads_ok be (recordStorageRead a key v s)"
  by (auto simp: reads_ok_def recordStorageRead_def destructed_def)

lemma reads_ok_GetCommitted:
  assumes "obj_GetCommittedState be a key (obj, s) = (v, obj', s')" "reads_ok be s"
    and "origin_value be (destructed s a) a obj key = base_value be (destructed s a) a key"
  shows "reads_ok be s'"
proof -
  define s1 where "s1 = (case so_originStorage obj key of None \<Rightarrow> s | Some v \<Rightarrow> recordStorageRead a key v s)"
  have s1: "reads_ok be s1" "destructed s1 = destructed s"
    using assms(2, 3) by (auto simp: s1_def origin_value_def track_simps reads_ok_record split: option.splits)
  have d: "db_destruct s1 a \<noteq> None \<longleftrightarrow> destructed s a"
    using s1(2) by (simp add: destructed_def fun_eq_iff)
  have "s' = s1 \<or> s' = recordStorageRead a key v s1 \<and> v = base_value be (destructed s a) a key"
    using assms(1) unfolding obj_GetCommittedState_def prod.case Let_def s1_def [symmetric] d base_value_def
    by (auto split: option.splits)
  then show ?thesis using s1 by (auto intro: reads_ok_record)
qed

lemma reads_ok_GetCommittedState:
  assumes "db_ok be s" "reads_ok be s"
  shows "reads_ok be (snd (db_GetCommittedState be a key s))"
proof (cases "peek be s a")
  case None
  then show ?thesis
    using assms(2) reads_ok_cong [of "loaded be a s" s]
    by (simp add: db_GetCommittedState_def getStateObject_peek loaded_simps)
next
  case (Some obj)
  let ?s = "loaded be a s"
  obtain v obj' s' where g: "obj_GetCommittedState be a key (obj, ?s) = (v, obj', s')" by (metis prod_cases3)
  have "reads_ok be ?s" using assms(2) reads_ok_cong [of ?s s] by (simp add: loaded_simps)
  then have "reads_ok be s'"
    using reads_ok_GetCommitted [OF g] cached_origin [OF assms(1) Some] by (simp add: loaded_simps)
  then show ?thesis
    using Some g reads_ok_cong [of "setStateObject a obj' s'" s']
    by (simp add: db_GetCommittedState_def getStateObject_peek reads_simps track_simps)
qed

lemma reads_ok_GetState:
  assumes "db_ok be s" "reads_ok be s"
  shows "reads_ok be (snd (db_GetState be a key s))"
proof (cases "peek be s a")
  case None
  then show ?thesis
    using assms(2) reads_ok_cong [of "loaded be a s" s]
    by (simp add: db_GetState_def getStateObject_peek loaded_simps)
next
  case (Some obj)
  show ?thesis
  proof (cases "so_dirtyStorage obj key")
    case None
    then have "snd (db_GetState be a key s) = snd (db_GetCommittedState be a key s)"
      using Some by (simp add: db_GetState_def db_GetCommittedState_def getStateObject_peek obj_GetState_def)
    then show ?thesis using reads_ok_GetCommittedState [OF assms, of a key] by simp
  next
    case dirty: (Some v)
    then show ?thesis
      using Some assms(2) reads_ok_cong [of "setStateObject a obj (loaded be a s)" s]
      by (simp add: db_GetState_def getStateObject_peek obj_GetState_def reads_simps track_simps)
  qed
qed

lemma reads_ok_SetState:
  assumes "db_ok be s" "reads_ok be s"
  shows "reads_ok be (snd (db_SetState be a key v s))"
proof -
  obtain obj s1 where g: "getOrNewStateObject be a (recordWrite a s) = (obj, s1)" by (metis prod.collapse)
  note n = getOrNew_write [OF g assms(1)]
  have r1: "reads_ok be s1"
    using assms(2) reads_ok_cong [of s1 s] reads_getOrNew [OF g] n(4) by (simp add: reads_simps)
  have base: "origin_value be (destructed s1 a) a obj key = base_value be (destructed s1 a) a key"
    using n(2, 3) by (intro cached_origin) (simp_all add: peek_def)
  obtain orig o2 s2 where c: "obj_GetCommittedState be a key (obj, s1) = (orig, o2, s2)" by (metis prod_cases3)
  have r2: "reads_ok be s2" by (rule reads_ok_GetCommitted [OF c r1 base])
  obtain prev orig' where st: "obj_getState be a key (obj, s1) = ((prev, orig'), o2, s2)"
    by (cases "so_dirtyStorage o2 key") (auto simp: obj_getState_def c)
  have "db_storageReads (snd (db_SetState be a key v s)) = db_storageReads s2"
    "destructed (snd (db_SetState be a key v s)) = destructed s2"
    by (simp_all add: db_SetState_def g obj_SetState_def st reads_simps track_simps Let_def)
  with r2 show ?thesis using reads_ok_cong by blast
qed

lemma reads_ok_exec:
  assumes "db_exec be c s = Some t" "db_ok be s" "reads_ok be s" "destructed t = destructed s"
  shows "reads_ok be t"
proof (cases c)
  case (Call_RevertToSnapshot revid)
  then have "db_storageReads t = db_storageReads s"
    using assms(1) reads_revert_entries
    by (auto simp: db_RevertToSnapshot_def j_revert_def Let_def split: if_splits)
  then show ?thesis using assms(3, 4) reads_ok_cong by blast
next
  case Call_ResetAccessSummary
  then show ?thesis using assms(1) by (auto simp: ResetAccessSummary_def reads_ok_def)
qed (use assms reads_ok_cong [of t s] in
  \<open>auto simp: reads_plain reads_setters reads_ok_GetState reads_ok_GetCommittedState reads_ok_SetState\<close>)

lemma reads_ok_execs:
  assumes "db_execs be calls s = Some t" "calls_ok be lim calls s" "reached be s0 lim s" "reads_ok be s"
  shows "reads_ok be t"
  using assms
proof (induction calls arbitrary: s)
  case (Cons c cs)
  then obtain u where u: "db_exec be c s = Some u" "db_execs be cs u = Some t"
    by (auto simp: bind_eq_Some_conv)
  have "db_execs be [c] s = Some u" "calls_ok be lim [c] s" using u(1) Cons.prems(2) by auto
  then have r: "reached be s0 lim u" using reached_execs Cons.prems(3) by blast
  have "destructed u = destructed s"
    using fixed_reached(1) [OF r] fixed_reached(1) [OF Cons.prems(3)] by (simp add: destructed_def fun_eq_iff)
  then have "reads_ok be u" using reads_ok_exec [OF u(1) reached_ok [OF Cons.prems(3)] Cons.prems(4)] by blast
  then show ?case using Cons.IH [OF u(2) _ r] Cons.prems(2) u(1) by simp
qed simp

lemma reads_ok_Finalise:
  assumes "db_ok be s" "reads_ok be s"
    and "\<And>a. destructed (db_Finalise be del s) a = destructed s a"
  shows "reads_ok be (db_Finalise be del s)"
  unfolding reads_ok_def
proof (intro allI impI)
  fix a key v assume v: "db_storageReads (db_Finalise be del s) (a, key) = Some v"
  show "v = base_value be (destructed (db_Finalise be del s) a) a key"
  proof (cases "db_storageReads s (a, key) = Some v")
    case True
    then show ?thesis using assms(2, 3) by (simp add: reads_ok_def)
  next
    case False
    then obtain obj where obj: "db_objects s a = Some obj"
      "so_originStorage obj key = Some v \<or> so_originStorage obj key = None \<and> so_pendingStorage obj key = None \<and>
         v = committed_value be s a obj key"
      using v by (auto simp: db_Finalise_def clearJournalAndRefund_def Let_def split: option.splits if_splits)
    have "origin_value be (destructed s a) a obj key = base_value be (destructed s a) a key"
      using obj(1) by (intro cached_origin [OF assms(1)]) (simp add: peek_def)
    with obj(2) show ?thesis
      by (auto simp: assms(3) origin_value_def committed_value_canon split: option.splits)
  qed
qed


section \<open>The state a delta is built from\<close>

lemma clean_views:
  assumes "clean be s" "storage_of_accounts be"
  shows "map_option so_data (peek be s a) = be_Account be a"
    "fst (db_GetState be a key s) = be_Storage be a key"
    "aviews be s a = map_option (\<lambda>acct. \<lparr>av_Balance = ac_Balance acct, av_Nonce = ac_Nonce acct,
       av_CodeHash = ac_CodeHash acct, av_Slot = be_Storage be a\<rparr>) (be_Account be a)"
proof -
  let ?n = NewWithReader
  have n: "peek be ?n a = map_option (\<lambda>acct. newObject be (Some acct)) (be_Account be a)" "\<not> destructed ?n a"
    by (simp_all add: peek_def NewWithReader_def destructed_def)
  have sim: "sim be s (s\<lparr>db_objects := Map.empty\<rparr>)"
  proof -
    have "objv be (s\<lparr>db_objects := Map.empty\<rparr>) = objv be ?n"
      using assms(1) by (intro objv_cong) (simp_all add: clean_def NewWithReader_def)
    then show ?thesis using assms(1) by (simp add: sim_def clean_def rest_simps(9))
  qed
  let ?e = "s\<lparr>db_objects := Map.empty\<rparr>"
  have e: "peek be ?e a = peek be ?n a" "\<not> destructed ?e a"
    using assms(1) by (simp_all add: peek_def destructed_def clean_def NewWithReader_def)
  have slot: "slot_value be False a (Some (newObject be (Some acct))) = be_Storage be a" for acct
    by (simp add: fun_eq_iff slot_value_def newObject_def origin_value_def)
  have "silent be ?e s" using sim assms(1) by (simp add: silent_def stack_def)
  from silent_data [OF this, of a] show "map_option so_data (peek be s a) = be_Account be a"
    by (simp add: e n option.map_comp comp_def newObject_def option.map_ident)
  show "fst (db_GetState be a key s) = be_Storage be a key"
    using silent_reads [OF \<open>silent be ?e s\<close>, of a key] assms(2)
    by (cases "be_Account be a")
      (simp_all add: GetState_slot e n slot slot_value_def [of be _ a None] storage_of_accounts_def)
  show "aviews be s a = map_option (\<lambda>acct. \<lparr>av_Balance = ac_Balance acct, av_Nonce = ac_Nonce acct,
       av_CodeHash = ac_CodeHash acct, av_Slot = be_Storage be a\<rparr>) (be_Account be a)"
    using fun_cong [OF aviews_sim [OF sim], of a]
    by (simp add: aviews_def e n option.map_comp comp_def view_obj_def slot)
      (simp add: newObject_def)
qed

lemma canon_newContract:
  "obj_canon be d a (obj\<lparr>so_newContract := b\<rparr>) = (obj_canon be d a obj)\<lparr>so_newContract := b\<rparr>"
  by (cases obj) (simp add: obj_canon_def origin_value_def obj_Code_def Let_def)

lemma slot_value_newContract:
  "slot_value be d a (Some (obj\<lparr>so_newContract := b\<rparr>)) = slot_value be d a (Some obj)"
  by (simp add: fun_eq_iff slot_value_def obj_setters split: option.split)

lemma shown_aview:
  assumes "shown be s a = shown be t a" "destructed s a = destructed t a"
  shows "aviews be s a = aviews be t a"
proof -
  have f: "view_obj be d a obj = view_obj be d a obj'"
    if "(obj_canon be d a obj)\<lparr>so_newContract := False\<rparr> = (obj_canon be d a obj')\<lparr>so_newContract := False\<rparr>"
    for d obj obj'
  proof -
    from that have "obj_canon be d a (obj\<lparr>so_newContract := False\<rparr>) = obj_canon be d a (obj'\<lparr>so_newContract := False\<rparr>)"
      by (simp add: canon_newContract)
    from slot_value_canon [OF this] this show ?thesis
      by (simp add: view_obj_def obj_canon_eq slot_value_newContract)
  qed
  consider "peek be s a = None" "peek be t a = None"
    | obj obj' where "peek be s a = Some obj" "peek be t a = Some obj'"
      "(obj_canon be (destructed t a) a obj)\<lparr>so_newContract := False\<rparr> =
       (obj_canon be (destructed t a) a obj')\<lparr>so_newContract := False\<rparr>"
    using assms by (cases "peek be s a"; cases "peek be t a") (simp_all add: shown_def objv_def)
  then show ?thesis
  proof cases
    case 2
    from f [OF 2(3)] show ?thesis by (simp add: aviews_def 2 assms(2))
  qed (simp add: aviews_def)
qed

text \<open>The account of the delta at a marked address, when the delta is not refused.\<close>

lemma marked_account:
  assumes "db_ok be s" "db_destruct s = Map.empty" "db_mutations s = Map.empty"
    and "t = db_Finalise be True s" "db_mutations t a \<noteq> None" "\<not> delta_refuses t a"
  shows "\<exists>obj. db_objects t a = Some obj \<and> so_origin obj = be_Account be a \<and> so_dirtyStorage obj = Map.empty \<and>
    (\<forall>key. so_pendingStorage obj key \<noteq> None \<longrightarrow> so_originStorage obj key = Some (be_Storage be a key)) \<and>
    aviews be t a = Some (view_obj be False a obj) \<and>
    (\<forall>key. origin_value be False a obj key = be_Storage be a key) \<and>
    (so_code obj \<noteq> [] \<longrightarrow> be_keccak be (so_code obj) = ac_CodeHash (so_data obj))"
proof -
  have ok: "db_ok be t" using db_ok_Finalise [OF assms(1)] assms(4) by simp
  obtain obj where obj: "db_objects t a = Some obj"
    using assms(6) by (cases "db_objects t a") (auto simp: delta_refuses_def)
  have orig: "so_originStorage obj key \<noteq> None" if "so_pendingStorage obj key \<noteq> None" for key
  proof
    assume "so_originStorage obj key = None"
    with that have "delta_refuses t a" unfolding delta_refuses_def obj option.case by blast
    with assms(6) show False by contradiction
  qed
  have m: "jr_dirties (db_journal s) a \<noteq> 0"
    using assms(3-5) by (auto simp: db_Finalise_def clearJournalAndRefund_def Let_def split: if_splits)
  have "\<not> destructed s a" by (simp add: destructed_def assms(2))
  then have gone: "\<not> destructed t a"
    using obj m assms(4) by (auto simp: finalise_selectors split: option.splits if_splits)
  have p: "peek be t a = Some obj" using obj by (simp add: peek_def)
  have base: "origin_value be False a obj key = be_Storage be a key" for key
    using cached_origin [OF ok p, of key] gone by (simp add: base_value_def)
  have canon: "objv be t a = Some (obj_canon be False a obj)" using objv_peek [OF p] gone by simp
  have "so_origin obj = be_Account be a"
    using db_ok_base(2) [OF ok canon] gone by (simp add: base_account_def obj_canon_def)
  moreover have "so_dirtyStorage obj = Map.empty"
    using obj m assms(4) by (auto simp: finalise_selectors obj_finalise_def split: option.splits if_splits)
  moreover have "so_originStorage obj key = Some (be_Storage be a key)" if "so_pendingStorage obj key \<noteq> None" for key
    using orig [OF that] base [of key] by (auto simp: origin_value_def split: option.splits)
  moreover have "so_code obj \<noteq> [] \<longrightarrow> be_keccak be (so_code obj) = ac_CodeHash (so_data obj)"
    using db_ok_objv [OF ok canon] by (auto simp: obj_ok_def canon_simps obj_Code_def)
  ultimately show ?thesis using obj base gone p by (simp add: aviews_def)
qed


lemma unmarked_aview:
  assumes "db_ok be s0" "db_journal s0 = newJournal" "db_destruct s0 = Map.empty"
    and "objv be s0 = objv be NewWithReader"
    and "db_execs be calls s0 = Some s" "calls_ok be 0 calls s0" "db_mutations s = Map.empty"
    and "t = db_Finalise be True s" "db_mutations t a = None" "db_destruct s = Map.empty"
  shows "aviews be t a = aviews be s0 a"
proof -
  have vis: "jr_dirties (db_journal s) a = 0 \<or> db_objects s a = None"
    using assms(7-9) by (auto simp: db_Finalise_def clearJournalAndRefund_def Let_def split: if_splits option.splits)
  have d: "\<not> destructed s a" "\<not> destructed s0 a" using assms(3, 10) by (simp_all add: destructed_def)
  have dt: "\<not> destructed t a" using d vis assms(8) by (auto simp: finalise_selectors)
  have p: "peek be t a = peek be s a"
  proof (cases "db_objects s a")
    case (Some obj)
    then have "peek be s a = Some obj" by (simp add: peek_def)
    then show ?thesis using Some vis by (simp add: assms(8) peek_Finalise)
  qed (simp add: assms(8) peek_Finalise)
  have "aviews be s a = aviews be s0 a"
  proof (cases "jr_dirties (db_journal s) a = 0")
    case True
    from shown_unmarked [OF assms(1, 2, 5, 6) True] show ?thesis using d by (intro shown_aview) simp_all
  next
    case False
    then have "peek be s a = peek be NewWithReader a"
      using vis d by (simp add: peek_def NewWithReader_def destructed_def)
    moreover have "\<not> destructed NewWithReader a" by (simp add: destructed_def NewWithReader_def)
    moreover have "shown be s0 a = shown be NewWithReader a" by (simp add: shown_def assms(4))
    ultimately show ?thesis
      using shown_aview [of be s0 a NewWithReader] d by (simp add: aviews_def)
  qed
  then show ?thesis using p d dt by (simp add: aviews_def)
qed

lemma set_map_keys [simp]: "set (map_keys m) = dom m" "distinct (map_keys m)"
  by (simp_all add: map_keys_def)

lemma fold_slots:
  assumes "distinct keys"
  shows "fold (\<lambda>slot m. m(ss_Key slot := ss_Value slot))
      (map (\<lambda>key. \<lparr>ss_Key = key, ss_Origin = f key, ss_Value = g key\<rparr>) keys) m key =
    (if key \<in> set keys then g key else m key)"
  using assms by (induction keys arbitrary: m) auto

text \<open>The slots of a finalised object and of its delta.\<close>

lemma delta_slots:
  assumes "so_dirtyStorage obj = Map.empty" "\<And>key. origin_value be False a obj key = m key"
  shows "fold (\<lambda>slot m. m(ss_Key slot := ss_Value slot))
      (map (\<lambda>key. \<lparr>ss_Key = key, ss_Origin = f key, ss_Value = the (so_pendingStorage obj key)\<rparr>)
        (map_keys (so_pendingStorage obj))) m =
    slot_value be False a (Some obj)"
  using assms by (auto simp: fun_eq_iff fold_slots slot_value_def split: option.splits)

lemma delta_of_account:
  assumes "db_objects t a = Some obj" "so_dirtyStorage obj = Map.empty"
    and "\<And>key. origin_value be False a obj key = av_Slot v key"
    and "so_code obj \<noteq> [] \<longrightarrow> be_keccak be (so_code obj) = ac_CodeHash (so_data obj)"
  shows "delta_aview be (delta_account t a) v =
    (view_obj be False a obj)\<lparr>av_CodeHash :=
      if spa_Code (delta_account t a) = None then av_CodeHash v else ac_CodeHash (so_data obj)\<rparr>"
  using assms(4) delta_slots [OF assms(2, 3), of "\<lambda>key. the (so_originStorage obj key)"]
  by (auto simp: delta_aview_def delta_account_def view_obj_def assms(1) Let_def)

section \<open>A delta and its transaction\<close>

lemma built_accounts:
  assumes "BuildSpeculativeDelta be s = (Inr delta, t)"
  shows "t = db_Finalise be True s" "set (sd_Accounts delta) = delta_account t ` dom (db_mutations t)"
    "distinct (map spa_Address (sd_Accounts delta))" "\<forall>a. db_mutations t a \<noteq> None \<longrightarrow> \<not> delta_refuses t a"
    "sd_Reads delta = fst (StorageAccessSummary t)"
proof -
  let ?addrs = "map_keys (db_mutations t)"
  have t: "t = db_Finalise be True s" "\<not> (\<exists>a \<in> set ?addrs. delta_refuses t a)"
    and acc: "sd_Accounts delta = sort_key (\<lambda>account. checksumHex (be_keccak be) (spa_Address account))
        (map (delta_account t) ?addrs)"
    and reads: "sd_Reads delta = fst (StorageAccessSummary t)"
    using assms by (auto simp: BuildSpeculativeDelta_def Let_def split: if_splits)
  show "t = db_Finalise be True s" "sd_Reads delta = fst (StorageAccessSummary t)" by fact+
  show "\<forall>a. db_mutations t a \<noteq> None \<longrightarrow> \<not> delta_refuses t a"
  proof (intro allI impI)
    fix a assume "db_mutations t a \<noteq> None"
    then have "a \<in> set ?addrs" by (simp add: dom_def)
    with t(2) show "\<not> delta_refuses t a" by blast
  qed
  show "set (sd_Accounts delta) = delta_account t ` dom (db_mutations t)" by (simp add: acc)
  have "spa_Address \<circ> delta_account t = id" by (simp add: fun_eq_iff delta_account_def Let_def)
  then have "mset (map spa_Address (sd_Accounts delta)) = mset ?addrs"
    by (simp add: acc multiset.map_comp)
  then show "distinct (map spa_Address (sd_Accounts delta))"
    by (metis set_map_keys(2) mset_eq_imp_distinct_iff)
qed

lemma built_reads:
  "r \<in> set (fst (StorageAccessSummary t)) \<Longrightarrow> db_storageReads t (sr_Address r, sr_Key r) = Some (sr_Value r)"
  by (auto simp: StorageAccessSummary_def Let_def)

lemma built_no_deletion:
  assumes "BuildSpeculativeDelta be s = (Inr delta, t)" "db_objects s a = Some obj" "jr_dirties (db_journal s) a \<noteq> 0"
  shows "\<not> fin_deletes be True obj"
proof
  assume "fin_deletes be True obj"
  then have "db_mutations t a = Some \<lparr>mu_typ = mutDeletion, mu_applied = False\<rparr>"
    using assms(2, 3) built_accounts(1) [OF assms(1)]
    by (simp add: db_Finalise_def clearJournalAndRefund_def Let_def)
  then show False using built_accounts(4) [OF assms(1), rule_format, of a] by (simp add: delta_refuses_def)
qed

text \<open>What a merge makes of the accounts of the speculative state.\<close>

lemma delta_merges:
  assumes "storage_of_accounts be" "clean be s0" "calls_ok be 0 calls s0" "db_execs be calls s0 = Some s"
    and "BuildSpeculativeDelta be s = (Inr delta, t)"
  shows "\<exists>u. ApplySpeculativeDelta be delta s0 = (None, u) \<and>
    (\<forall>a. aviews be u a =
       (if db_mutations t a \<noteq> None \<and> spa_Code (delta_account t a) = None
        then map_option (\<lambda>v. v\<lparr>av_CodeHash := start_hash be s0 a\<rparr>) (aviews be t a) else aviews be t a)) \<and>
    (\<forall>a. db_mutations t a = None \<longrightarrow> aviews be t a = aviews be s0 a) \<and>
    (\<forall>a. db_mutations t a \<noteq> None \<longrightarrow>
       (\<exists>obj. db_objects t a = Some obj \<and> so_origin obj = be_Account be a \<and>
          aviews be t a = Some (view_obj be False a obj) \<and>
          (so_code obj \<noteq> [] \<longrightarrow> be_keccak be (so_code obj) = ac_CodeHash (so_data obj))))"
proof -
  note b = built_accounts [OF assms(5)]
  have c: "db_ok be s0" "db_journal s0 = newJournal" "objv be s0 = objv be NewWithReader"
    "db_destruct s0 = Map.empty" "db_mutations s0 = Map.empty" "db_storageReads s0 = Map.empty"
    using assms(2) by (simp_all add: clean_def)
  have start: "reached be s0 0 s0" by (rule reached_start [OF c(1, 2)])
  have r: "reached be s0 0 s" by (rule reached_execs [OF assms(4, 3) start])
  have ok: "db_ok be s" by (rule reached_ok [OF r])
  have f: "db_destruct s = Map.empty" "db_mutations s = Map.empty" using fixed_reached [OF r] c(4, 5) by simp_all
  note view0 = clean_views [OF assms(2, 1)]
  have marked: "\<exists>obj. db_objects t a = Some obj \<and> so_origin obj = be_Account be a \<and> so_dirtyStorage obj = Map.empty \<and>
    (\<forall>key. so_pendingStorage obj key \<noteq> None \<longrightarrow> so_originStorage obj key = Some (be_Storage be a key)) \<and>
    aviews be t a = Some (view_obj be False a obj) \<and>
    (\<forall>key. origin_value be False a obj key = be_Storage be a key) \<and>
    (so_code obj \<noteq> [] \<longrightarrow> be_keccak be (so_code obj) = ac_CodeHash (so_data obj))"
    if "db_mutations t a \<noteq> None" for a
    using marked_account [OF ok f b(1) that] b(4) that by blast
  have nd: "destructed t a = destructed s a" for a
    using built_no_deletion [OF assms(5)] by (auto simp: b(1) finalise_selectors)
  have "reads_ok be s"
    using reads_ok_execs [OF assms(4, 3) start] by (simp add: reads_ok_def c(6))
  then have "reads_ok be t" using reads_ok_Finalise [OF ok _ nd [unfolded b(1)]] by (simp add: b(1))
  moreover have "\<not> destructed t a" for a unfolding nd using f(1) by (simp add: destructed_def)
  ultimately have "fst (db_GetState be (sr_Address r) (sr_Key r) s0) = sr_Value r" if "r \<in> set (sd_Reads delta)" for r
    using built_reads [of r t] that by (simp add: b(5) reads_ok_def base_value_def view0(2))
  then have fits: "delta_fits be delta s0"
    using marked by (fastforce simp: delta_fits_def b(2) view0(1, 2) delta_account_def Let_def dom_def)
  have "\<forall>account \<in> set (sd_Accounts delta). spa_Current account \<noteq> None"
    by (simp add: b(2) delta_account_def Let_def)
  from Apply_views [OF assms(1) b(3) this fits] obtain u where
    u: "ApplySpeculativeDelta be delta s0 = (None, u)" "aviews be u = merged be (sd_Accounts delta) (aviews be s0)"
    by blast
  have unmarked: "aviews be t a = aviews be s0 a" if "db_mutations t a = None" for a
    using unmarked_aview [OF c(1, 2, 4, 3) assms(4, 3) f(2) b(1) that f(1)] .
  have "aviews be u a = (if db_mutations t a \<noteq> None \<and> spa_Code (delta_account t a) = None
      then map_option (\<lambda>v. v\<lparr>av_CodeHash := start_hash be s0 a\<rparr>) (aviews be t a) else aviews be t a)" for a
  proof (cases "db_mutations t a")
    case None
    have "a \<notin> spa_Address ` set (sd_Accounts delta)"
      using None by (auto simp: b(2) delta_account_def Let_def)
    then show ?thesis using unmarked [OF None] None by (simp add: u(2) merged_other)
  next
    case (Some m)
    then obtain obj where obj: "db_objects t a = Some obj" "so_dirtyStorage obj = Map.empty"
      "aviews be t a = Some (view_obj be False a obj)" "\<forall>key. origin_value be False a obj key = be_Storage be a key"
      "so_code obj \<noteq> [] \<longrightarrow> be_keccak be (so_code obj) = ac_CodeHash (so_data obj)"
      using marked [of a] by auto
    let ?account = "delta_account t a"
    let ?v = "case aviews be s0 a of None \<Rightarrow> new_aview be | Some v \<Rightarrow> v"
    have mem: "?account \<in> set (sd_Accounts delta)" using Some by (auto simp: b(2))
    have sel: "spa_Address ?account = a" by (simp add: delta_account_def Let_def)
    have slots: "origin_value be False a obj key = av_Slot ?v key" for key
      using obj(4) assms(1) by (simp add: view0 new_aview_def storage_of_accounts_def split: option.split)
    have hash: "av_CodeHash ?v = start_hash be s0 a" by (simp add: start_hash_def new_aview_def split: option.split)
    have "aviews be u a = Some (delta_aview be ?account ?v)"
      using merged_at [OF b(3) mem, of be "aviews be s0"] sel by (simp add: u(2))
    then show ?thesis
      using delta_of_account [OF obj(1, 2) slots obj(5)] obj(3) Some hash by (simp add: view_obj_def)
  qed
  then show ?thesis using u(1) unmarked marked by blast
qed

lemma keeps_code_hash:
  assumes "keeps_code be delta" "clean be s0" "storage_of_accounts be" "BuildSpeculativeDelta be s = (Inr delta, t)"
    and "db_mutations t a \<noteq> None" "spa_Code (delta_account t a) = None" "db_objects t a = Some obj"
    and "so_origin obj = be_Account be a"
  shows "ac_CodeHash (so_data obj) = start_hash be s0 a"
proof -
  have "delta_account t a \<in> set (sd_Accounts delta)" using built_accounts(2) [OF assms(4)] assms(5) by auto
  then show ?thesis
    using assms(1, 6-8) clean_views(3) [OF assms(2, 3), of a]
    by (cases "be_Account be a") (auto simp: keeps_code_def start_hash_def delta_account_def Let_def)
qed

lemma delta_reproduces:
  assumes "storage_of_accounts be" "clean be s0" "calls_ok be 0 calls s0" "db_execs be calls s0 = Some s"
    and "BuildSpeculativeDelta be s = (Inr delta, t)"
  shows "\<exists>u. ApplySpeculativeDelta be delta s0 = (None, u) \<and>
    (\<forall>a. codeless (aviews be u a) = codeless (aviews be t a)) \<and>
    (keeps_code be delta \<longrightarrow> aviews be u = aviews be t)"
proof -
  obtain u where u: "ApplySpeculativeDelta be delta s0 = (None, u)"
    "\<And>a. aviews be u a =
       (if db_mutations t a \<noteq> None \<and> spa_Code (delta_account t a) = None
        then map_option (\<lambda>v. v\<lparr>av_CodeHash := start_hash be s0 a\<rparr>) (aviews be t a) else aviews be t a)"
    and marked: "\<And>a. db_mutations t a \<noteq> None \<Longrightarrow>
       \<exists>obj. db_objects t a = Some obj \<and> so_origin obj = be_Account be a \<and>
         aviews be t a = Some (view_obj be False a obj)"
    using delta_merges [OF assms] by blast
  have "codeless (aviews be u a) = codeless (aviews be t a)" for a
    by (cases "aviews be t a") (simp_all add: u(2) codeless_def)
  moreover have "aviews be u a = aviews be t a" if "keeps_code be delta" for a
  proof (cases "db_mutations t a \<noteq> None \<and> spa_Code (delta_account t a) = None")
    case True
    then obtain obj where obj: "db_objects t a = Some obj" "so_origin obj = be_Account be a"
      "aviews be t a = Some (view_obj be False a obj)" using marked by blast
    have "ac_CodeHash (so_data obj) = start_hash be s0 a"
      using True obj(1, 2) by (intro keeps_code_hash [OF that assms(2, 1, 5)]) auto
    with True obj(3) show ?thesis by (simp add: u(2) view_obj_def)
  next
    case False
    then show ?thesis by (simp only: u(2) if_False)
  qed
  ultimately show ?thesis using u(1) by blast
qed

section \<open>Examples\<close>

lemmas example_defs = getOrNewStateObject_def getStateObject_def NewWithReader_def sample_reader_def Let_def
  recordWrite_def recordRead_def createObject_def j_append_def newJournal_def count_dirty_def
  setStateObject_def newObject_def NewEmptyStateAccount_def EmptyCodeHash_def

lemma sample_payment_state:
  "db_objects sample_payment = [6 \<mapsto> obj_setBalance 10 (newObject sample_reader None)]"
  "jr_dirties (db_journal sample_payment) = (\<lambda>_. 0)(6 := 2)" "db_mutations sample_payment = Map.empty"
  "db_storageReads sample_payment = Map.empty"
  by (simp_all add: sample_payment_def db_AddBalance_def obj_AddBalance_def obj_SetBalance_def obj_setBalance_def
      example_defs)

lemma sample_store_state:
  "db_objects sample_store = [5 \<mapsto> (newObject sample_reader (Some sample_account))
     \<lparr>so_originStorage := [2 \<mapsto> 0], so_dirtyStorage := [2 \<mapsto> 1]\<rparr>]"
  "jr_dirties (db_journal sample_store) = (\<lambda>_. 0)(5 := 1)" "db_mutations sample_store = Map.empty"
  "db_storageReads sample_store = [(5, 2) \<mapsto> 0]" "db_destruct sample_store = Map.empty"
  by (simp_all add: sample_store_def store_balance_def db_GetBalance_def db_SetState_def obj_SetState_def
      obj_getState_def obj_GetCommittedState_def recordStorageRead_def recordStorageWrite_def obj_setState_def
      sample_account_def example_defs)



lemma finalise_single:
  assumes "db_objects s = [a \<mapsto> obj]" "jr_dirties (db_journal s) = (\<lambda>_. 0)(a := n)" "n \<noteq> 0"
    and "db_mutations s = Map.empty" "\<not> fin_deletes be True obj"
  shows "db_mutations (db_Finalise be True s) = [a \<mapsto> \<lparr>mu_typ = mutUpdate, mu_applied = False\<rparr>]"
    "db_objects (db_Finalise be True s) = [a \<mapsto> obj_finalise be s a obj]"
  using assms by (auto simp: db_Finalise_def clearJournalAndRefund_def fun_eq_iff Let_def)

lemma finalise_reads_single:
  assumes "db_objects s = [a \<mapsto> obj]" "\<And>key. fin_reads obj key \<Longrightarrow> db_storageReads s (a, key) \<noteq> None"
  shows "db_storageReads (db_Finalise be del s) = db_storageReads s"
proof
  fix p :: "address \<times> hash"
  show "db_storageReads (db_Finalise be del s) p = db_storageReads s p"
    using assms(1) assms(2) [of "snd p"]
    by (cases p) (auto simp: db_Finalise_def clearJournalAndRefund_def Let_def split: option.splits)
qed

lemma map_keys_single [simp]: "map_keys [a \<mapsto> v] = [a]" "map_keys Map.empty = []"
  by (simp_all add: map_keys_def)

lemma build_single:
  assumes "db_objects s = [a \<mapsto> obj]" "jr_dirties (db_journal s) = (\<lambda>_. 0)(a := n)" "n \<noteq> 0"
    and "db_mutations s = Map.empty" "\<not> fin_deletes be True obj"
    and "\<And>key. fin_reads obj key \<Longrightarrow> db_storageReads s (a, key) \<noteq> None"
    and "\<not> delta_refuses (db_Finalise be True s) a"
  shows "BuildSpeculativeDelta be s =
    (Inr \<lparr>sd_Accounts = [delta_account (db_Finalise be True s) a],
          sd_Reads = map (\<lambda>(a, key). \<lparr>sr_Address = a, sr_Key = key, sr_Value = the (db_storageReads s (a, key))\<rparr>)
            (map_keys (db_storageReads s))\<rparr>, db_Finalise be True s)"
  using assms(7) finalise_single [OF assms(1-5)] finalise_reads_single [OF assms(1, 6)]
  by (simp add: BuildSpeculativeDelta_def StorageAccessSummary_def Let_def)

lemma sample_payment_delta:
  "fst (BuildSpeculativeDelta sample_reader sample_payment) =
     Inr \<lparr>sd_Accounts = [\<lparr>spa_Address = 6, spa_Origin = None, spa_Current = Some
       \<lparr>ac_Nonce = 0, ac_Balance = 10, ac_Root = EmptyRootHash, ac_CodeHash = 1\<rparr>, spa_Slots = [], spa_Code = None\<rparr>],
       sd_Reads = []\<rparr>"
proof -
  let ?obj = "obj_setBalance 10 (newObject sample_reader None)"
  have keep: "\<not> fin_deletes sample_reader True ?obj" "\<not> fin_reads ?obj key" for key
    by (simp_all add: fin_deletes_def so_empty_def acct_empty_def obj_setBalance_def newObject_def fin_reads_def)
  note f = finalise_single [OF sample_payment_state(1, 2) _ sample_payment_state(3) keep(1)]
  have ok: "\<not> delta_refuses (db_Finalise sample_reader True sample_payment) 6"
    by (simp add: delta_refuses_def f obj_finalise_def obj_setBalance_def newObject_def NewEmptyStateAccount_def)
  have "fin_reads ?obj key \<Longrightarrow> db_storageReads sample_payment (6, key) \<noteq> None" for key
    using keep(2) [of key] by (auto simp: sample_payment_state)
  note b = build_single [OF sample_payment_state(1, 2) _ sample_payment_state(3) keep(1) this ok, simplified]
  have "be_keccak sample_reader [] = 1" by (simp add: sample_reader_def)
  then show ?thesis
    by (simp add: b sample_payment_state delta_account_def f obj_finalise_def obj_setBalance_def newObject_def
        NewEmptyStateAccount_def EmptyCodeHash_def Let_def)
qed

lemma sample_store_delta:
  "fst (BuildSpeculativeDelta sample_reader sample_store) =
     Inr \<lparr>sd_Accounts = [\<lparr>spa_Address = 5, spa_Origin = Some sample_account, spa_Current = Some sample_account,
       spa_Slots = [\<lparr>ss_Key = 2, ss_Origin = 0, ss_Value = 1\<rparr>], spa_Code = None\<rparr>],
       sd_Reads = [\<lparr>sr_Address = 5, sr_Key = 2, sr_Value = 0\<rparr>]\<rparr>"
proof -
  let ?obj = "(newObject sample_reader (Some sample_account))
     \<lparr>so_originStorage := [2 \<mapsto> 0], so_dirtyStorage := [2 \<mapsto> 1]\<rparr>"
  have keep: "\<not> fin_deletes sample_reader True ?obj" "fin_reads ?obj key \<Longrightarrow> key = 2" for key
    by (auto simp: fin_deletes_def so_empty_def acct_empty_def newObject_def fin_reads_def sample_account_def
        split: if_splits)
  note f = finalise_single [OF sample_store_state(1, 2) _ sample_store_state(3) keep(1)]
  have ok: "\<not> delta_refuses (db_Finalise sample_reader True sample_store) 5"
    by (simp add: delta_refuses_def f obj_finalise_def newObject_def)
  have "fin_reads ?obj key \<Longrightarrow> db_storageReads sample_store (5, key) \<noteq> None" for key
    using keep(2) [of key] by (auto simp: sample_store_state)
  note b = build_single [OF sample_store_state(1, 2) _ sample_store_state(3) keep(1) this ok, simplified]
  have "be_keccak sample_reader [] = 1" by (simp add: sample_reader_def)
  then show ?thesis
    by (simp add: b sample_store_state delta_account_def f obj_finalise_def obj_setBalance_def newObject_def
        NewEmptyStateAccount_def EmptyCodeHash_def Let_def)
qed



lemma sample_clean: "clean sample_reader NewWithReader" "storage_of_accounts sample_reader"
  using db_ok_NewWithReader [OF sample_reader_code]
  by (simp_all add: clean_def NewWithReader_def storage_of_accounts_def sample_reader_def)

section \<open>Properties\<close>

text \<open>
  C2: A delta carries the effect of its transaction on balances, nonces and storage, and on code
  unless it clears code. Take a state in which nothing has been changed, destructed or recorded yet,
  over a reader without storage for absent accounts, and calls on it, with snapshots and reverts, that
  set code only where the old code is loaded or empty and create only absent accounts. When the delta
  of the result can be built, the starting state accepts it, and afterwards the same accounts exist as
  in the speculative state, with its balances, nonces and slots; when the delta keeps code (each
  account without code in the delta has the code hash it started with) the code hashes agree as well.
\<close>

theorem speculative_delta_reproduces:
  assumes "storage_of_accounts be" "clean be s0" "calls_ok be 0 calls s0" "db_execs be calls s0 = Some s"
    and "BuildSpeculativeDelta be s = (Inr delta, t)"
  shows "\<exists>u. ApplySpeculativeDelta be delta s0 = (None, u) \<and>
    (\<forall>a. codeless (aviews be u a) = codeless (aviews be t a)) \<and>
    (keeps_code be delta \<longrightarrow> aviews be u = aviews be t)"
  using assms by (rule delta_reproduces)

theorem speculative_delta_reproduces_witness:
  "\<exists>delta u. fst (BuildSpeculativeDelta sample_reader sample_payment) = Inr delta \<and>
     ApplySpeculativeDelta sample_reader delta NewWithReader = (None, u) \<and>
     aviews sample_reader u = aviews sample_reader (snd (BuildSpeculativeDelta sample_reader sample_payment))"
proof -
  obtain delta t where b: "BuildSpeculativeDelta sample_reader sample_payment = (Inr delta, t)"
    using sample_payment_delta by (cases "BuildSpeculativeDelta sample_reader sample_payment") auto
  then have k: "keeps_code sample_reader delta"
    using sample_payment_delta by (simp add: keeps_code_def EmptyCodeHash_def) (simp add: sample_reader_def)
  have "db_execs sample_reader [Call_AddBalance 6 10] NewWithReader = Some sample_payment"
    by (simp add: sample_payment_def)
  from speculative_delta_reproduces [OF sample_clean(2, 1) _ this b] b k show ?thesis
    by (auto simp: call_ok_def)
qed

text \<open>
  C13: Applying a delta validates it first: it fails, without changing an account, exactly when one of
  the recorded slots, the account of a written address (or its absence) or the old value of a written
  slot differs; otherwise the accounts of the delta get its balance, nonce, slots and code, and all
  other accounts and slots stay as they are.
\<close>

theorem apply_delta_validates:
  assumes "storage_of_accounts be" "distinct (map spa_Address (sd_Accounts delta))"
    and "\<forall>account \<in> set (sd_Accounts delta). spa_Current account \<noteq> None"
  shows "if delta_fits be delta s
    then \<exists>u. ApplySpeculativeDelta be delta s = (None, u) \<and>
      (\<forall>account \<in> set (sd_Accounts delta). aviews be u (spa_Address account) =
         Some (delta_aview be account
           (case aviews be s (spa_Address account) of None \<Rightarrow> new_aview be | Some v \<Rightarrow> v))) \<and>
      (\<forall>a. a \<notin> spa_Address ` set (sd_Accounts delta) \<longrightarrow> aviews be u a = aviews be s a)
    else \<exists>u. ApplySpeculativeDelta be delta s = (Some ErrSpeculativeDelta, u) \<and> aviews be u = aviews be s"
proof (cases "delta_fits be delta s")
  case True
  from Apply_views [OF assms True] show ?thesis
    using True merged_at [OF assms(2), of _ be "aviews be s"] merged_other by fastforce
next
  case False
  obtain e u where g: "CanApplySpeculativeDelta be delta s = (e, u)" by (metis prod.collapse)
  have "e = Some ErrSpeculativeDelta"
    using CanApply_iff(2) [where delta = delta and s = s and be = be] False g
    by (cases e) (auto intro: delta_error.exhaust)
  moreover have "aviews be u = aviews be s"
    using CanApply_iff(1) [where delta = delta and s = s and be = be] g by (simp add: aviews_silent)
  ultimately show ?thesis using False g by (simp add: ApplySpeculativeDelta_def)
qed

theorem apply_delta_validates_witness:
  "\<exists>u. ApplySpeculativeDelta sample_reader
       \<lparr>sd_Accounts = [], sd_Reads = [\<lparr>sr_Address = 5, sr_Key = 1, sr_Value = 8\<rparr>]\<rparr> NewWithReader =
     (Some ErrSpeculativeDelta, u)"
proof -
  let ?delta = "\<lparr>sd_Accounts = [], sd_Reads = [\<lparr>sr_Address = 5, sr_Key = 1, sr_Value = 8\<rparr>]\<rparr>"
  have "fst (db_GetState sample_reader 5 1 NewWithReader) = 9" by code_simp
  then have "\<not> delta_fits sample_reader ?delta NewWithReader" by (simp add: delta_fits_def)
  then show ?thesis
    using apply_delta_validates [OF sample_clean(2), of ?delta NewWithReader] by auto
qed

text \<open>
  C32: Balances that are only read are not validated. Two transactions run on the same state: the
  first pays account 6, the second stores the balance of account 6, plus one, in a slot of account 5.
  Both deltas are accepted one after the other, and the slot gets the value computed from the old
  balance; executed one after the other, the transactions store another value.
\<close>

theorem stale_balance_read_commits:
  "\<exists>d1 d2 u1 u2. fst (BuildSpeculativeDelta sample_reader sample_payment) = Inr d1 \<and>
     fst (BuildSpeculativeDelta sample_reader sample_store) = Inr d2 \<and>
     ApplySpeculativeDelta sample_reader d1 NewWithReader = (None, u1) \<and>
     ApplySpeculativeDelta sample_reader d2 u1 = (None, u2) \<and>
     fst (db_GetState sample_reader 5 2 u2) = 1 \<and>
     fst (db_GetState sample_reader 5 2 (store_balance sample_reader 6 5 2 sample_payment)) = 11"
proof -
  let ?a1 = "\<lparr>spa_Address = 6, spa_Origin = None, spa_Current = Some
       \<lparr>ac_Nonce = 0, ac_Balance = 10, ac_Root = EmptyRootHash, ac_CodeHash = 1\<rparr>, spa_Slots = [], spa_Code = None\<rparr>"
  let ?a2 = "\<lparr>spa_Address = 5, spa_Origin = Some sample_account, spa_Current = Some sample_account,
       spa_Slots = [\<lparr>ss_Key = 2, ss_Origin = 0, ss_Value = 1\<rparr>], spa_Code = None\<rparr>"
  let ?d1 = "\<lparr>sd_Accounts = [?a1], sd_Reads = []\<rparr>"
  let ?d2 = "\<lparr>sd_Accounts = [?a2], sd_Reads = [\<lparr>sr_Address = 5, sr_Key = 2, sr_Value = 0\<rparr>]\<rparr>"
  note v = clean_views [OF sample_clean]
  have "delta_fits sample_reader ?d1 NewWithReader"
    by (simp add: delta_fits_def v) (simp add: sample_reader_def)
  from Apply_views [OF sample_clean(2) _ _ this] obtain u1 where
    u1: "ApplySpeculativeDelta sample_reader ?d1 NewWithReader = (None, u1)"
    "aviews sample_reader u1 = merged sample_reader [?a1] (aviews sample_reader NewWithReader)"
    by auto
  have data: "map_option so_data (peek sample_reader u1 5) = Some sample_account"
    using Apply_other [of 5 ?d1 sample_reader NewWithReader] u1(1) v(1) [of 5]
    by (simp add: sample_reader_def sample_account_def)
  have "aviews sample_reader u1 5 = aviews sample_reader NewWithReader 5"
    by (simp add: u1(2) merged_def upd_aview_def)
  then have slot: "fst (db_GetState sample_reader 5 2 u1) = 0"
    by (simp add: GetState_aviews v(3)) (simp add: sample_reader_def)
  have "delta_fits sample_reader ?d2 u1" using data slot by (simp add: delta_fits_def)
  from Apply_views [OF sample_clean(2) _ _ this] obtain u2 where
    u2: "ApplySpeculativeDelta sample_reader ?d2 u1 = (None, u2)"
    "aviews sample_reader u2 = merged sample_reader [?a2] (aviews sample_reader u1)"
    by auto
  then have "fst (db_GetState sample_reader 5 2 u2) = 1"
    by (simp add: GetState_aviews merged_def upd_aview_def delta_aview_def)
  moreover have "fst (db_GetState sample_reader 5 2 (store_balance sample_reader 6 5 2 sample_payment)) = 11"
    by code_simp
  ultimately show ?thesis
    using u1(1) u2(1) sample_payment_delta sample_store_delta by blast
qed



end
