(* ===== verification/Gas_Rules.thy ===== *)
theory Gas_Rules
  imports Chain_Config
begin

text \<open>
  The gas rules of a block: the pool of a block (\<open>core/gaspool.go\<close>) with the accounting of the
  parallel executor (\<open>core/parallel_state.go\<close>), the gas limit a miner chooses
  (\<open>core/block_validator.go\<close>) and a verifier accepts (\<open>consensus/misc/gaslimit.go\<close>), and the
  base fee (\<open>consensus/misc/eip1559/eip1559.go\<close>). A panic is None.
\<close>

section \<open>The gas pool\<close>

record GasPool =
  gp_remaining :: u64
  gp_initial :: u64
  gp_cumulativeUsed :: u64

datatype gas_error = ErrGasLimitReached | ErrGasLimitOverflow

definition NewGasPool :: "u64 \<Rightarrow> GasPool" where
  "NewGasPool amount = \<lparr>gp_remaining = amount, gp_initial = amount, gp_cumulativeUsed = 0\<rparr>"

definition SubGas :: "u64 \<Rightarrow> GasPool \<Rightarrow> gas_error + GasPool" where
  "SubGas amount gp =
     (if gp_remaining gp < amount then Inl ErrGasLimitReached
      else Inr (gp\<lparr>gp_remaining := gp_remaining gp - amount\<rparr>))"

definition ReturnGas :: "u64 \<Rightarrow> u64 \<Rightarrow> GasPool \<Rightarrow> gas_error + GasPool" where
  "ReturnGas returned gasUsed gp =
     (if gp_remaining gp > max_u64 - returned then Inl ErrGasLimitOverflow
      else Inr (gp\<lparr>gp_remaining := gp_remaining gp + returned,
                   gp_cumulativeUsed := gp_cumulativeUsed gp + gasUsed\<rparr>))"

definition gp_Used :: "GasPool \<Rightarrow> u64 option" where
  "gp_Used gp = (if gp_initial gp < gp_remaining gp then None else Some (gp_initial gp - gp_remaining gp))"

text \<open>The results of speculative transactions, as far as their gas is concerned.\<close>

record gas_result =
  gr_gasLimit :: u64
  gr_peakGas :: u64
  gr_GasUsed :: u64

definition returned_gas :: "bool \<Rightarrow> gas_result \<Rightarrow> u64" where
  "returned_gas amsterdam r =
     (if amsterdam then gr_gasLimit r - gr_peakGas r else gr_gasLimit r - gr_GasUsed r)"

text \<open>The check of the schedule on a copy of the pool, which becomes the pool of the block.\<close>

fun gas_check :: "bool \<Rightarrow> gas_result list \<Rightarrow> GasPool \<Rightarrow> gas_error + GasPool" where
  "gas_check amsterdam [] gp = Inr gp"
| "gas_check amsterdam (r # rs) gp =
     (case SubGas (gr_gasLimit r) gp of
        Inl e \<Rightarrow> Inl e
      | Inr gp \<Rightarrow>
          (case ReturnGas (returned_gas amsterdam r) (gr_GasUsed r) gp of
             Inl e \<Rightarrow> Inl e
           | Inr gp \<Rightarrow> gas_check amsterdam rs gp))"

text \<open>The loop that recomputes the pool at a transaction boundary; it drops the errors.\<close>

definition ignore_error :: "(GasPool \<Rightarrow> gas_error + GasPool) \<Rightarrow> GasPool \<Rightarrow> GasPool" where
  "ignore_error f gp = (case f gp of Inl e \<Rightarrow> gp | Inr gp' \<Rightarrow> gp')"

fun boundary_pool :: "bool \<Rightarrow> gas_result list \<Rightarrow> GasPool \<Rightarrow> GasPool" where
  "boundary_pool amsterdam [] gp = gp"
| "boundary_pool amsterdam (r # rs) gp =
     boundary_pool amsterdam rs
       (ignore_error (ReturnGas (returned_gas amsterdam r) (gr_GasUsed r))
         (ignore_error (SubGas (gr_gasLimit r)) gp))"

text \<open>The cumulative gas written into each receipt.\<close>

definition receipt_gas :: "u64 \<Rightarrow> bool \<Rightarrow> gas_result list \<Rightarrow> u64 list" where
  "receipt_gas blockGasLimit amsterdam results =
     map (\<lambda>i. gp_cumulativeUsed (boundary_pool amsterdam (take (Suc i) results) (NewGasPool blockGasLimit)))
       [0..<length results]"

section \<open>The gas limit\<close>

definition GasLimitBoundDivisor :: u64 where "GasLimitBoundDivisor = 1024"
definition MinGasLimit :: u64 where "MinGasLimit = 21000"
definition MaxGasLimit :: u64 where "MaxGasLimit = 0x7fffffffffffffff"
definition DeploymentGasLimitRecoveryFloor :: u64 where "DeploymentGasLimitRecoveryFloor = 5000000"

datatype header_error =
  InvalidGasLimit | GasLimitBelowMin | MissingBaseFee | ParentMissingBaseFee | InvalidBaseFee

text \<open>The difference is taken in signed 64-bit arithmetic and its sign is dropped.\<close>

definition VerifyGaslimit :: "u64 \<Rightarrow> u64 \<Rightarrow> header_error option" where
  "VerifyGaslimit parentGasLimit headerGasLimit =
     (if parentGasLimit < MinGasLimit \<and> headerGasLimit = MinGasLimit then None
      else if parentGasLimit < DeploymentGasLimitRecoveryFloor \<and>
              headerGasLimit = DeploymentGasLimitRecoveryFloor then None
      else
        let diff = parentGasLimit - headerGasLimit;
            diff = (if sint diff < 0 then - diff else diff);
            limit = parentGasLimit div GasLimitBoundDivisor
        in if diff \<ge> limit then Some InvalidGasLimit
           else if headerGasLimit < MinGasLimit then Some GasLimitBelowMin
           else None)"

definition CalcGasLimit :: "u64 \<Rightarrow> u64 \<Rightarrow> u64" where
  "CalcGasLimit parentGasLimit desiredLimit =
     (let delta = parentGasLimit div GasLimitBoundDivisor - 1;
          limit = parentGasLimit;
          desiredLimit = (if desiredLimit < MinGasLimit then MinGasLimit else desiredLimit)
      in if limit < DeploymentGasLimitRecoveryFloor \<and> desiredLimit \<ge> DeploymentGasLimitRecoveryFloor
         then DeploymentGasLimitRecoveryFloor
         else if limit < desiredLimit then
           let limit = parentGasLimit + delta;
               limit = (if limit > desiredLimit then desiredLimit else limit)
           in if limit < MinGasLimit then MinGasLimit else limit
         else if limit > desiredLimit then
           let limit = parentGasLimit - delta
           in if limit < desiredLimit then desiredLimit else limit
         else limit)"

section \<open>The base fee\<close>

definition InitialBaseFee :: int where "InitialBaseFee = 7"
definition ElasticityMultiplier :: u64 where "ElasticityMultiplier = 2"
definition BaseFeeChangeDenominator :: u64 where "BaseFeeChangeDenominator = 8"

text \<open>\<open>x.Div(x, y)\<close> of big integers panics for \<open>y = 0\<close>.\<close>

definition big_div :: "int \<Rightarrow> int \<Rightarrow> int option" where
  "big_div x y = (if y = 0 then None else Some (x div y))"

definition base_fee_delta :: "u64 \<Rightarrow> u64 \<Rightarrow> int \<Rightarrow> int option" where
  "base_fee_delta gasDelta parentGasTarget parentBaseFee =
     Option.bind (big_div (uint gasDelta * parentBaseFee) (uint parentGasTarget))
       (\<lambda>num. big_div num (uint BaseFeeChangeDenominator))"

definition CalcBaseFee :: "chain_config \<Rightarrow> header \<Rightarrow> int option" where
  "CalcBaseFee config parent =
     (if \<not> IsLondon config (Number parent) then Some InitialBaseFee
      else
        Option.bind (BaseFee parent) (\<lambda>baseFee.
          let parentGasTarget = GasLimit parent div ElasticityMultiplier
          in if GasUsed parent = parentGasTarget then Some baseFee
             else if GasUsed parent > parentGasTarget then
               map_option (\<lambda>num. if num < 1 then baseFee + 1 else baseFee + num)
                 (base_fee_delta (GasUsed parent - parentGasTarget) parentGasTarget baseFee)
             else
               map_option (\<lambda>num. if baseFee - num < 0 then 0 else baseFee - num)
                 (base_fee_delta (parentGasTarget - GasUsed parent) parentGasTarget baseFee)))"

text \<open>None is a panic, \<open>Some None\<close> is acceptance.\<close>

definition VerifyEIP1559Header ::
    "chain_config \<Rightarrow> header \<Rightarrow> header \<Rightarrow> header_error option option" where
  "VerifyEIP1559Header config parent h =
     (let parentGasLimit = (if IsLondon config (Number parent) then GasLimit parent
                            else GasLimit parent * ElasticityMultiplier)
      in case VerifyGaslimit parentGasLimit (GasLimit h) of
           Some e \<Rightarrow> Some (Some e)
         | None \<Rightarrow>
             (case BaseFee h of
                None \<Rightarrow> Some (Some MissingBaseFee)
              | Some fee \<Rightarrow>
                  if IsLondon config (Number parent) \<and> BaseFee parent = None
                  then Some (Some ParentMissingBaseFee)
                  else
                    map_option (\<lambda>expected. if fee \<noteq> expected then Some InvalidBaseFee else None)
                      (CalcBaseFee config parent)))"

text \<open>Chains of headers in which every header passes the verification against its parent.\<close>

inductive fee_chain :: "chain_config \<Rightarrow> header \<Rightarrow> header \<Rightarrow> bool" for config where
  fee_chain_start: "fee_chain config h h"
| fee_chain_next: "fee_chain config g p \<Longrightarrow> VerifyEIP1559Header config p h = Some None \<Longrightarrow> fee_chain config g h"


section \<open>Notions for the statements\<close>

text \<open>What the executor reports of a transaction: it used no more than it bought.\<close>

definition result_ok :: "bool \<Rightarrow> gas_result \<Rightarrow> bool" where
  "result_ok amsterdam r \<longleftrightarrow>
     gr_GasUsed r \<le> gr_gasLimit r \<and> gr_peakGas r \<le> gr_gasLimit r \<and>
     (amsterdam \<longrightarrow> gr_GasUsed r \<le> gr_peakGas r)"

definition consumed :: "bool \<Rightarrow> gas_result \<Rightarrow> u64" where
  "consumed amsterdam r = (if amsterdam then gr_peakGas r else gr_GasUsed r)"

definition gas_total :: "(gas_result \<Rightarrow> u64) \<Rightarrow> gas_result list \<Rightarrow> nat" where
  "gas_total f rs = (\<Sum>r\<leftarrow>rs. unat (f r))"

text \<open>The limit that is aimed at, and the distance from it.\<close>

definition aim :: "u64 \<Rightarrow> nat" where
  "aim desired = max 21000 (unat desired)"

definition gap :: "nat \<Rightarrow> u64 \<Rightarrow> nat" where
  "gap a p = (if unat p < a then a - unat p else unat p - a)"

text \<open>Samples.\<close>

definition fee_parent :: "u64 \<Rightarrow> int \<Rightarrow> header" where
  "fee_parent used fee = \<lparr>ParentHash = 0, Coinbase = 0, Difficulty = Some 1, Number = Some 5, GasLimit = 30000000,
     GasUsed = used, Time = 0, Extra = [], MixDigest = 0, BaseFee = Some fee,
     UncleHash = 0, Root = 0, TxHash = 0, ReceiptHash = 0, Bloom = [], Nonce = []\<rparr>"

definition fee_config :: chain_config where
  "fee_config = \<lparr>ChainID = Some 1, LondonBlock = Some 0, RandomXTxBlock = None, RandomXMoneroBlock = None,
     EDATime = None, KyotoTime = None, PhoneTime = None, AntarticalTime = None, QuantumResistantTime = None,
     MainKingAddress = 0, PostQuantumMainKingAddress = 0\<rparr>"

section \<open>Accounting\<close>

lemma gas_total_simps [simp]:
  "gas_total f [] = 0" "gas_total f (r # rs) = unat (f r) + gas_total f rs" "gas_total f (rs @ qs) = gas_total f rs + gas_total f qs"
  by (simp_all add: gas_total_def)

lemma gas_total_mono: "(\<And>r. r \<in> set rs \<Longrightarrow> f r \<le> g r) \<Longrightarrow> gas_total f rs \<le> gas_total g rs"
  by (induction rs) (auto simp: word_le_nat_alt intro!: add_mono)

lemma consumed_le: "result_ok am r \<Longrightarrow> consumed am r \<le> gr_gasLimit r"
  and used_le_consumed: "result_ok am r \<Longrightarrow> gr_GasUsed r \<le> consumed am r"
  by (auto simp: result_ok_def consumed_def)

lemma returned_gas: "returned_gas am r = gr_gasLimit r - consumed am r"
  by (simp add: returned_gas_def consumed_def)

lemma unat_max_diff: "unat (max_u64 - x) = 2 ^ 64 - 1 - unat x"
  using unat_sub[of x max_u64] by (simp add: unat_max_u64)

text \<open>Buying and returning gas takes what was consumed out of the pool, and never overflows.\<close>

lemma buy_and_return:
  assumes "result_ok am r" "gr_gasLimit r \<le> gp_remaining gp"
  shows "SubGas (gr_gasLimit r) gp = Inr (gp\<lparr>gp_remaining := gp_remaining gp - gr_gasLimit r\<rparr>)"
    and "ReturnGas (returned_gas am r) (gr_GasUsed r) (gp\<lparr>gp_remaining := gp_remaining gp - gr_gasLimit r\<rparr>)
       = Inr (gp\<lparr>gp_remaining := gp_remaining gp - consumed am r,
                 gp_cumulativeUsed := gp_cumulativeUsed gp + gr_GasUsed r\<rparr>)"
    and "unat (gp_remaining gp - consumed am r) = unat (gp_remaining gp) - unat (consumed am r)"
    and "unat (consumed am r) \<le> unat (gp_remaining gp)"
proof -
  show le: "unat (consumed am r) \<le> unat (gp_remaining gp)"
    using consumed_le[OF assms(1)] assms(2) by (simp add: word_le_nat_alt)
  then show "unat (gp_remaining gp - consumed am r) = unat (gp_remaining gp) - unat (consumed am r)"
    by (simp add: unat_sub word_le_nat_alt)
  show "SubGas (gr_gasLimit r) gp = Inr (gp\<lparr>gp_remaining := gp_remaining gp - gr_gasLimit r\<rparr>)"
    using assms(2) by (simp add: SubGas_def)
  have "unat (gp_remaining gp) < 2 ^ 64" by (rule unat_u64_bound)
  moreover have "unat (max_u64 - (gr_gasLimit r - consumed am r)) = 2 ^ 64 - 1 - (unat (gr_gasLimit r) - unat (consumed am r))"
    using consumed_le[OF assms(1)] by (simp add: unat_max_diff unat_sub)
  moreover have "unat (gp_remaining gp - gr_gasLimit r) = unat (gp_remaining gp) - unat (gr_gasLimit r)"
    using assms(2) by (simp add: unat_sub)
  ultimately have "gp_remaining gp - gr_gasLimit r \<le> max_u64 - returned_gas am r"
    using assms consumed_le[OF assms(1)] by (simp add: returned_gas word_le_nat_alt)
  then show "ReturnGas (returned_gas am r) (gr_GasUsed r) (gp\<lparr>gp_remaining := gp_remaining gp - gr_gasLimit r\<rparr>)
       = Inr (gp\<lparr>gp_remaining := gp_remaining gp - consumed am r,
                 gp_cumulativeUsed := gp_cumulativeUsed gp + gr_GasUsed r\<rparr>)"
    by (simp add: ReturnGas_def returned_gas not_less[symmetric])
qed

lemma gas_check_Cons:
  assumes "result_ok am r"
  shows "gas_check am (r # rs) gp =
    (if gp_remaining gp < gr_gasLimit r then Inl ErrGasLimitReached
     else gas_check am rs (gp\<lparr>gp_remaining := gp_remaining gp - consumed am r,
                             gp_cumulativeUsed := gp_cumulativeUsed gp + gr_GasUsed r\<rparr>))"
  using buy_and_return(1,2)[OF assms, of gp] by (auto simp: SubGas_def not_less)

lemma boundary_pool_Cons:
  assumes "result_ok am r" "gr_gasLimit r \<le> gp_remaining gp"
  shows "boundary_pool am (r # rs) gp =
    boundary_pool am rs (gp\<lparr>gp_remaining := gp_remaining gp - consumed am r,
                            gp_cumulativeUsed := gp_cumulativeUsed gp + gr_GasUsed r\<rparr>)"
  by (simp add: ignore_error_def buy_and_return[OF assms])

lemma gas_check_error:
  "\<forall>r \<in> set rs. result_ok am r \<Longrightarrow> gas_check am rs gp = Inl e \<Longrightarrow> e = ErrGasLimitReached"
  by (induction rs arbitrary: gp) (simp_all add: gas_check_Cons del: gas_check.simps(2) split: if_splits)

lemma gas_check_boundary:
  "\<forall>r \<in> set rs. result_ok am r \<Longrightarrow> gas_check am rs gp = Inr gp' \<Longrightarrow> boundary_pool am rs gp = gp'"
  by (induction rs arbitrary: gp)
    (simp_all add: gas_check_Cons boundary_pool_Cons not_less
       del: gas_check.simps(2) boundary_pool.simps(2) split: if_splits)

lemma gas_check_prefix:
  "\<forall>r \<in> set rs. result_ok am r \<Longrightarrow> gas_check am rs gp = Inr gp' \<Longrightarrow>
   \<exists>gp''. gas_check am (take k rs) gp = Inr gp''"
  by (induction rs arbitrary: gp k)
    (auto simp: gas_check_Cons take_Cons' simp del: gas_check.simps(2) split: if_splits)

lemma gas_check_sums:
  assumes "\<forall>r \<in> set rs. result_ok am r" "gas_check am rs gp = Inr gp'"
  shows "gp_initial gp' = gp_initial gp \<and>
     unat (gp_remaining gp') + gas_total (consumed am) rs = unat (gp_remaining gp) \<and>
     gp_cumulativeUsed gp' = gp_cumulativeUsed gp + of_nat (gas_total gr_GasUsed rs)"
  using assms
proof (induction rs arbitrary: gp)
  case (Cons r rs)
  then have ok: "result_ok am r" and le: "gr_gasLimit r \<le> gp_remaining gp"
    by (auto simp: gas_check_Cons simp del: gas_check.simps(2) split: if_splits)
  from Cons.prems have "gas_check am rs (gp\<lparr>gp_remaining := gp_remaining gp - consumed am r,
      gp_cumulativeUsed := gp_cumulativeUsed gp + gr_GasUsed r\<rparr>) = Inr gp'"
    by (auto simp: gas_check_Cons simp del: gas_check.simps(2) split: if_splits)
  from Cons.IH[OF _ this] Cons.prems(1) buy_and_return(3,4)[OF ok le] show ?case
    by (auto simp: add.assoc)
qed simp

lemma fresh_pool_sums:
  assumes "\<forall>r \<in> set rs. result_ok am r" "gas_check am rs (NewGasPool L) = Inr gp"
  shows "unat (gp_cumulativeUsed gp) = gas_total gr_GasUsed rs"
    and "map_option unat (gp_Used gp) = Some (gas_total (consumed am) rs)"
    and "gas_total gr_GasUsed rs \<le> gas_total (consumed am) rs" "gas_total (consumed am) rs \<le> unat L"
proof -
  note sums = gas_check_sums[OF assms]
  then show le: "gas_total (consumed am) rs \<le> unat L" by (simp add: NewGasPool_def)
  show "gas_total gr_GasUsed rs \<le> gas_total (consumed am) rs"
    using assms(1) by (intro gas_total_mono used_le_consumed) auto
  with le have "gas_total gr_GasUsed rs < 2 ^ 64" using unat_u64_bound[of L] by linarith
  then show "unat (gp_cumulativeUsed gp) = gas_total gr_GasUsed rs"
    using sums by (simp add: NewGasPool_def unat_of_nat_u64)
  from sums have "unat (gp_remaining gp) + gas_total (consumed am) rs = unat L" "gp_initial gp = L"
    by (auto simp: NewGasPool_def)
  then show "map_option unat (gp_Used gp) = Some (gas_total (consumed am) rs)"
    by (auto simp: gp_Used_def unat_sub word_le_nat_alt word_less_nat_alt)
qed


lemma boundary_sums:
  assumes "\<forall>r \<in> set rs. result_ok am r" "gas_check am rs (NewGasPool L) = Inr gp"
  shows "unat (gp_cumulativeUsed (boundary_pool am (take k rs) (NewGasPool L))) = gas_total gr_GasUsed (take k rs)"
proof -
  have sub: "\<forall>r \<in> set (take k rs). result_ok am r" using assms(1) by (auto dest: in_set_takeD)
  obtain gp' where gp': "gas_check am (take k rs) (NewGasPool L) = Inr gp'"
    using gas_check_prefix[OF assms] by blast
  show ?thesis using gas_check_boundary[OF sub gp'] fresh_pool_sums(1)[OF sub gp'] by simp
qed

section \<open>Gas limits\<close>

lemmas gas_limits = GasLimitBoundDivisor_def MinGasLimit_def MaxGasLimit_def DeploymentGasLimitRecoveryFloor_def

lemma sint_negative_u64: "sint (w :: u64) < 0 \<longleftrightarrow> 2 ^ 63 \<le> unat w"
proof -
  have "sint w < 0 \<longleftrightarrow> bit w 63" using bit_last_iff[of w] by simp
  also have "\<dots> \<longleftrightarrow> odd (unat w div 2 ^ 63)" 
    by (simp only: bit_iff_odd[symmetric]) (simp add: bit_unsigned_iff)
  also have "unat w div 2 ^ 63 < 2" using unat_u64_bound[of w] by (simp add: less_mult_imp_div_less)
  then have "odd (unat w div 2 ^ 63) \<longleftrightarrow> unat w div 2 ^ 63 \<noteq> 0" by (auto simp: less_2_cases_iff)
  also have "\<dots> \<longleftrightarrow> 2 ^ 63 \<le> unat w" by (simp add: div_eq_0_iff not_less)
  finally show ?thesis .
qed

text \<open>For limits below \<open>2 ^ 63\<close> the signed difference without its sign is the distance.\<close>

lemma abs_diff_u64:
  fixes p h :: u64
  assumes "p \<le> MaxGasLimit" "h \<le> MaxGasLimit"
  shows "unat (if sint (p - h) < 0 then - (p - h) else p - h) =
         (if h \<le> p then unat p - unat h else unat h - unat p)"
proof (cases "h \<le> p")
  case True
  then show ?thesis using assms
    by (auto simp: sint_negative_u64 unat_sub word_le_nat_alt gas_limits)
next
  case False
  then have "unat (h - p) = unat h - unat p" by (simp add: unat_sub)
  then have "0 < unat (h - p)" "unat (h - p) < 2 ^ 63"
    using assms False by (auto simp: word_le_nat_alt gas_limits)
  moreover from this have "unat (p - h) = 2 ^ 64 - unat (h - p)"
    using False \<open>unat (h - p) = unat h - unat p\<close> by (simp add: unat_sub_if' word_le_nat_alt)
  ultimately show ?thesis using False \<open>unat (h - p) = unat h - unat p\<close>
    by (auto simp: sint_negative_u64)
qed

text \<open>What the verifier accepts, over the natural numbers.\<close>

lemma VerifyGaslimit_iff:
  assumes "p \<le> MaxGasLimit" "h \<le> MaxGasLimit"
  shows "VerifyGaslimit p h = None \<longleftrightarrow>
    unat p < 21000 \<and> unat h = 21000 \<or> unat p < 5000000 \<and> unat h = 5000000 \<or>
    21000 \<le> unat h \<and> unat h < unat p + unat p div 1024 \<and> unat p < unat h + unat p div 1024"
proof -
  have "VerifyGaslimit p h = None \<longleftrightarrow>
    p < MinGasLimit \<and> h = MinGasLimit \<or> p < DeploymentGasLimitRecoveryFloor \<and> h = DeploymentGasLimitRecoveryFloor \<or>
    unat (if sint (p - h) < 0 then - (p - h) else p - h) < unat (p div GasLimitBoundDivisor) \<and> MinGasLimit \<le> h"
    unfolding VerifyGaslimit_def Let_def word_less_nat_alt word_le_nat_alt by (simp only: not_le not_less split: if_split) auto
  then show ?thesis unfolding abs_diff_u64[OF assms]
    by (auto simp: gas_limits unat_div word_less_nat_alt word_le_nat_alt word_unat_eq_iff)
qed


lemma unat_if: "unat (if b then x else y) = (if b then unat x else unat y)"
  by simp

lemma unat_add_lem': "unat x + unat y < 2 ^ 64 \<Longrightarrow> unat (x + y) = unat x + unat (y :: u64)"
  by (simp add: unat_word_ariths)

lemma unat_CalcGasLimit:
  assumes "0 < p" "p \<le> MaxGasLimit"
  shows "unat (CalcGasLimit p d) =
    (if unat p < 5000000 \<and> 5000000 \<le> aim d then 5000000
     else if unat p < aim d then
       (if unat p < 1024 then 21000 else max 21000 (min (aim d) (unat p + unat p div 1024 - 1)))
     else max (aim d) (unat p - (unat p div 1024 - 1)))"
proof -
  define e where "e = (if d < MinGasLimit then MinGasLimit else d)"
  have e: "unat e = aim d" by (auto simp: e_def aim_def gas_limits word_less_nat_alt)
  have p: "0 < unat p" "unat p < 2 ^ 63" using assms by (auto simp: word_le_nat_alt word_less_nat_alt gas_limits)
  define n where "n = unat p"
  define q where "q = n div 1024"
  have q: "q \<le> n" "1024 \<le> n \<Longrightarrow> 1 \<le> q" "n < 1024 \<Longrightarrow> q = 0" using div_le_mono[of 1024 n 1024] by (auto simp: q_def)
  have dl: "unat (p div GasLimitBoundDivisor) = q" by (simp add: gas_limits unat_div n_def q_def)
  define delta where "delta = p div GasLimitBoundDivisor - 1"
  have small: "delta = - 1" if "n < 1024"
  proof -
    have "unat (p div GasLimitBoundDivisor) = 0" using that dl q by simp
    then show ?thesis by (simp add: delta_def unat_eq_0)
  qed
  have big: "unat delta = q - 1" if "1024 \<le> n"
    using q(2)[OF that] dl by (simp add: delta_def unat_sub word_le_nat_alt)
  have up: "unat (p + delta) = (if n < 1024 then n - 1 else n + q - 1)"
  proof (cases "n < 1024")
    case True
    then have "p + delta = p - 1" using small by simp
    then show ?thesis using True p unat_sub[of 1 p] by (simp add: word_le_nat_alt n_def)
  next
    case False
    then have "unat p + unat delta < 2 ^ 64" using p q big by (simp add: n_def)
    then show ?thesis using False q big by (simp add: unat_add_lem' n_def)
  qed
  have down: "unat (p - delta) = n - (q - 1)" if "21000 < n"
    using that big q unat_sub[of delta p] by (simp add: word_le_nat_alt n_def)
  have le: "21000 \<le> aim d" by (simp add: aim_def)
  define a where "a = aim d"
  have a: "21000 \<le> a" using le by (simp add: a_def)
  have a2: "(if unat d < 21000 then 21000 else unat d) = a" by (simp add: a_def aim_def max_def)
  have conv: "unat MinGasLimit = 21000" "unat DeploymentGasLimitRecoveryFloor = 5000000" by (simp_all add: gas_limits)
  have eq: "unat (CalcGasLimit p d) =
    (if n < 5000000 \<and> 5000000 \<le> a then 5000000
     else if n < a then
       (if (if a < unat (p + delta) then a else unat (p + delta)) < 21000 then 21000
        else if a < unat (p + delta) then a else unat (p + delta))
     else if a < n then if unat (p - delta) < a then a else unat (p - delta)
     else n)"
    unfolding CalcGasLimit_def Let_def e_def[symmetric] delta_def[symmetric] word_less_nat_alt
      word_le_nat_alt unat_if n_def[symmetric] conv a2 by (rule refl)
  consider "n < 5000000 \<and> 5000000 \<le> a" | "\<not> (n < 5000000 \<and> 5000000 \<le> a)" "n < a" "n < 1024"
    | "\<not> (n < 5000000 \<and> 5000000 \<le> a)" "n < a" "1024 \<le> n"
    | "\<not> (n < 5000000 \<and> 5000000 \<le> a)" "a < n" | "\<not> (n < 5000000 \<and> 5000000 \<le> a)" "n = a"
    by linarith
  then show ?thesis
  proof cases
    case 2
    then have "unat (p + delta) < 21000" "\<not> a < unat (p + delta)" using up a by auto
    then show ?thesis using 2 unfolding eq n_def[symmetric] a_def[symmetric] by simp
  next
    case 1
    then show ?thesis unfolding eq n_def[symmetric] a_def[symmetric] by simp
  next
    case 3
    from 3(1) have "(n < 5000000 \<and> 5000000 \<le> a) = False" by simp
    with 3(2,3) a q(2) up show ?thesis
      unfolding eq n_def[symmetric] q_def[symmetric] a_def[symmetric] by (simp only: if_False if_True) auto
  next
    case 4
    from 4(1) have "(n < 5000000 \<and> 5000000 \<le> a) = False" by simp
    with 4(2) a down show ?thesis
      unfolding eq n_def[symmetric] q_def[symmetric] a_def[symmetric] by (simp only: if_False if_True) auto
  next
    case 5
    from 5(1) have "(n < 5000000 \<and> 5000000 \<le> a) = False" by simp
    moreover have "1 \<le> q" using 5(2) a q(2) by simp
    ultimately show ?thesis using 5(2)
      unfolding eq n_def[symmetric] q_def[symmetric] a_def[symmetric] by (simp only: if_False if_True) auto
  qed
qed


lemma CalcGasLimit_range:
  assumes "0 < p" "p \<le> MaxGasLimit" "d \<le> MaxGasLimit"
  shows "0 < CalcGasLimit p d" "CalcGasLimit p d \<le> MaxGasLimit"
proof -
  have "aim d < 2 ^ 63" "unat p < 2 ^ 63" "21000 \<le> aim d"
    using assms by (auto simp: aim_def word_le_nat_alt gas_limits)
  then have "0 < unat (CalcGasLimit p d)" "unat (CalcGasLimit p d) < 2 ^ 63"
    unfolding unat_CalcGasLimit[OF assms(1,2)] by auto
  then show "0 < CalcGasLimit p d" "CalcGasLimit p d \<le> MaxGasLimit"
    by (auto simp: word_less_nat_alt word_le_nat_alt gas_limits)
qed

lemma limit_quotient:
  fixes n :: nat
  shows "1024 \<le> n \<Longrightarrow> 1 \<le> n div 1024" "2048 \<le> n \<Longrightarrow> 2 \<le> n div 1024" "n div 1024 \<le> n"
  using div_le_mono[of 1024 n 1024] div_le_mono[of 2048 n 1024] by auto

lemma CalcGasLimit_between:
  assumes "0 < p" "p \<le> MaxGasLimit"
  shows "unat p < aim d \<Longrightarrow> unat p < unat (CalcGasLimit p d) \<and> unat (CalcGasLimit p d) \<le> aim d"
    and "aim d < unat p \<Longrightarrow> aim d \<le> unat (CalcGasLimit p d) \<and> unat (CalcGasLimit p d) < unat p"
    and "unat p = aim d \<Longrightarrow> unat (CalcGasLimit p d) = aim d"
proof -
  define n a q r where defs: "n = unat p" "a = aim d" "q = unat p div 1024" "r = unat (CalcGasLimit p d)"
  have a: "21000 \<le> a" by (simp add: defs aim_def)
  have r: "r = (if n < 5000000 \<and> 5000000 \<le> a then 5000000
     else if n < a then if n < 1024 then 21000 else max 21000 (min a (n + q - 1))
     else max a (n - (q - 1)))" unfolding defs by (rule unat_CalcGasLimit[OF assms])
  note q = limit_quotient[of "unat p", folded defs]
  have "n < r \<and> r \<le> a" if "n < a"
  proof (cases "n < 5000000 \<and> 5000000 \<le> a")
    case False
    then have "r = (if n < 1024 then 21000 else max 21000 (min a (n + q - 1)))" using that r by (simp only: if_False if_True)
    moreover have "n < 2048 \<or> n < n + q - 1" using q(2) by linarith
    ultimately show ?thesis using that a q(1,3) by (simp add: max_def min_def split: if_splits; linarith)
  qed (use that r in simp)
  then show "unat p < aim d \<Longrightarrow> unat p < unat (CalcGasLimit p d) \<and> unat (CalcGasLimit p d) \<le> aim d"
    by (simp add: defs)
  have big: "r = max a (n - (q - 1))" if "a \<le> n" using that r by auto
  have "a \<le> r \<and> r < n" if "a < n"
    using that big a q(2) by (simp add: max_def) linarith
  then show "aim d < unat p \<Longrightarrow> aim d \<le> unat (CalcGasLimit p d) \<and> unat (CalcGasLimit p d) < unat p"
    by (simp add: defs)
  show "unat (CalcGasLimit p d) = aim d" if "unat p = aim d"
    using that big a q(2) by (simp add: defs max_def)
qed

lemma CalcGasLimit_closer:
  assumes "0 < p" "p \<le> MaxGasLimit" "unat p \<noteq> aim d"
  shows "gap (aim d) (CalcGasLimit p d) < gap (aim d) p"
proof (cases "unat p < aim d")
  case True
  from CalcGasLimit_between(1)[OF assms(1,2) this] True show ?thesis unfolding gap_def by auto
next
  case False
  then have "aim d < unat p" using assms(3) by simp
  from CalcGasLimit_between(2)[OF assms(1,2) this] False show ?thesis unfolding gap_def by auto
qed

lemma CalcGasLimit_reaches:
  assumes "0 < p" "p \<le> MaxGasLimit" "d \<le> MaxGasLimit"
  shows "\<exists>n. unat (((\<lambda>p. CalcGasLimit p d) ^^ n) p) = aim d"
  using assms
proof (induction "gap (aim d) p" arbitrary: p rule: less_induct)
  case less
  show ?case
  proof (cases "unat p = aim d")
    case True
    then show ?thesis by (intro exI[of _ 0]) simp
  next
    case False
    from less.hyps[OF CalcGasLimit_closer[OF less.prems(1,2) False] CalcGasLimit_range[OF less.prems] less.prems(3)]
    obtain n where "unat (((\<lambda>p. CalcGasLimit p d) ^^ n) (CalcGasLimit p d)) = aim d" by blast
    then show ?thesis by (intro exI[of _ "Suc n"]) (simp only: funpow_Suc_right comp_apply)
  qed
qed

text \<open>The proposed limit satisfies the condition of the verifier.\<close>

lemma CalcGasLimit_acceptable:
  assumes "0 < p" "p \<le> MaxGasLimit"
  shows "unat p < 21000 \<and> unat (CalcGasLimit p d) = 21000 \<or>
    unat p < 5000000 \<and> unat (CalcGasLimit p d) = 5000000 \<or>
    21000 \<le> unat (CalcGasLimit p d) \<and> unat (CalcGasLimit p d) < unat p + unat p div 1024 \<and>
    unat p < unat (CalcGasLimit p d) + unat p div 1024"
proof -
  define n a q r where defs: "n = unat p" "a = aim d" "q = unat p div 1024" "r = unat (CalcGasLimit p d)"
  have a: "21000 \<le> a" by (simp add: defs aim_def)
  have r: "r = (if n < 5000000 \<and> 5000000 \<le> a then 5000000
     else if n < a then if n < 1024 then 21000 else max 21000 (min a (n + q - 1))
     else max a (n - (q - 1)))" unfolding defs by (rule unat_CalcGasLimit[OF assms])
  note q = limit_quotient[of "unat p", folded defs]
  have "n < 21000 \<and> r = 21000 \<or> n < 5000000 \<and> r = 5000000 \<or> 21000 \<le> r \<and> r < n + q \<and> n < r + q"
  proof (cases "n < 5000000 \<and> 5000000 \<le> a")
    case False
    show ?thesis
    proof (cases "n < a")
      case True
      then have r: "r = (if n < 1024 then 21000 else max 21000 (min a (n + q - 1)))"
        using False r by (simp only: if_False if_True)
      show ?thesis using True a q(1) unfolding r by (simp add: max_def min_def) linarith
    next
      case le: False
      then have r: "r = max a (n - (q - 1))" using False r by (simp only: if_False)
      show ?thesis using le a q(1) unfolding r by (simp add: max_def) linarith
    qed
  qed (use r in simp)
  then show ?thesis by (simp only: defs)
qed

section \<open>Properties\<close>

text \<open>
  C15: The gas accounting of the parallel executor. When the check of the schedule accepts results
  that used no more gas than they bought, the cumulative gas of every receipt, although the loop
  that recomputes it drops errors, is the exact sum up to its transaction, the pool of the block
  ends with the exact totals, nothing wraps around and the totals stay within the gas limit of the
  block; and a schedule is refused only because a transaction wants more gas than is left.
\<close>

theorem parallel_gas_accounting:
  assumes "\<forall>r \<in> set rs. result_ok am r"
  shows "case gas_check am rs (NewGasPool L) of
      Inl e \<Rightarrow> e = ErrGasLimitReached
    | Inr gp \<Rightarrow>
        map unat (receipt_gas L am rs) = map (\<lambda>i. gas_total gr_GasUsed (take (Suc i) rs)) [0..<length rs] \<and>
        unat (gp_cumulativeUsed gp) = gas_total gr_GasUsed rs \<and>
        map_option unat (gp_Used gp) = Some (gas_total (consumed am) rs) \<and>
        gas_total gr_GasUsed rs \<le> gas_total (consumed am) rs \<and> gas_total (consumed am) rs \<le> unat L"
proof (cases "gas_check am rs (NewGasPool L)")
  case (Inl e)
  then show ?thesis using gas_check_error[OF assms] by simp
next
  case (Inr gp)
  then show ?thesis using fresh_pool_sums[OF assms Inr] boundary_sums[OF assms Inr] by (simp add: receipt_gas_def)
qed

theorem parallel_gas_accounting_witness:
  "map unat (receipt_gas 100000 False [\<lparr>gr_gasLimit = 60000, gr_peakGas = 30000, gr_GasUsed = 25000\<rparr>,
     \<lparr>gr_gasLimit = 70000, gr_peakGas = 21000, gr_GasUsed = 21000\<rparr>]) = [25000, 46000]"
proof -
  let ?rs = "[\<lparr>gr_gasLimit = 60000, gr_peakGas = 30000, gr_GasUsed = 25000\<rparr>,
     \<lparr>gr_gasLimit = 70000, gr_peakGas = 21000, gr_GasUsed = 21000\<rparr>]"
  have ok: "\<forall>r \<in> set ?rs. result_ok False r" by (simp add: result_ok_def)
  have "\<exists>gp. gas_check False ?rs (NewGasPool 100000) = Inr gp"
    by (simp add: SubGas_def ReturnGas_def NewGasPool_def returned_gas_def)
  then obtain gp where "gas_check False ?rs (NewGasPool 100000) = Inr gp" by blast
  with parallel_gas_accounting[OF ok, of 100000] show ?thesis by (simp add: upt_rec)
qed

text \<open>
  C37: Miners and verifiers agree on gas limits. The limit a miner computes from any parent limit and
  target up to the maximum is accepted by the verifier, and the limits of successive blocks reach
  the target (at least the minimum) after finitely many blocks and stay there.
\<close>

theorem gas_limit_converges:
  assumes "0 < p" "p \<le> MaxGasLimit" "d \<le> MaxGasLimit"
  shows "VerifyGaslimit p (CalcGasLimit p d) = None \<and>
    (\<exists>n. \<forall>m \<ge> n. ((\<lambda>p. CalcGasLimit p d) ^^ m) p = (if d < MinGasLimit then MinGasLimit else d))"
proof
  show "VerifyGaslimit p (CalcGasLimit p d) = None"
    unfolding VerifyGaslimit_iff[OF assms(2) CalcGasLimit_range(2)[OF assms]]
    by (rule CalcGasLimit_acceptable[OF assms(1,2)])
  let ?f = "\<lambda>p. CalcGasLimit p d" and ?e = "if d < MinGasLimit then MinGasLimit else d"
  have e: "unat ?e = aim d" by (simp add: aim_def gas_limits word_less_nat_alt max_def)
  obtain n where "unat ((?f ^^ n) p) = aim d" using CalcGasLimit_reaches[OF assms] by blast
  then have n: "(?f ^^ n) p = ?e" using e by (simp only: word_unat_eq_iff)
  have "0 < ?e" "?e \<le> MaxGasLimit" using assms(3) by (simp_all add: gas_limits word_less_nat_alt)
  from CalcGasLimit_between(3)[OF this e] e have stay: "?f ?e = ?e" by (simp only: word_unat_eq_iff)
  have "(?f ^^ (k + n)) p = ?e" for k by (induction k) (simp_all only: add_0 add_Suc funpow.simps comp_apply n stay)
  then show "\<exists>n. \<forall>m \<ge> n. (?f ^^ m) p = ?e" by (metis le_add_diff_inverse2)
qed

theorem gas_limit_converges_witness:
  "VerifyGaslimit 30000000 (CalcGasLimit 30000000 45000000) = None \<and>
   (\<exists>n. \<forall>m \<ge> n. ((\<lambda>p. CalcGasLimit p 45000000) ^^ m) 30000000 = 45000000)"
  using gas_limit_converges[of 30000000 45000000] by (simp add: gas_limits)

section \<open>Base fees\<close>

lemma base_fee_delta_eq:
  "base_fee_delta g t b = (if t = 0 then None else Some (uint g * b div uint t div 8))"
  by (simp add: base_fee_delta_def big_div_def BaseFeeChangeDenominator_def uint_0_iff)

lemma quotient_mono:
  fixes g t b :: int
  assumes "0 \<le> b" "0 < t" "g \<le> k * t"
  shows "g * b div t div 8 \<le> k * b div 8"
proof -
  have "g * b \<le> k * t * b" using assms by (simp add: mult_right_mono)
  then have "g * b div t \<le> (k * b * t) div t" using assms by (intro zdiv_mono1) (simp_all add: ac_simps)
  then show ?thesis using assms by (intro zdiv_mono1) simp_all
qed

text \<open>The next base fee of a London parent whose gas target is positive.\<close>

lemma CalcBaseFee_cases:
  assumes "IsLondon c (Number h)" "BaseFee h = Some b" "0 \<le> b" "2 \<le> GasLimit h"
  obtains (same) "GasUsed h = GasLimit h div 2" "CalcBaseFee c h = Some b"
  | (up) g where "GasLimit h div 2 < GasUsed h" "g = uint (GasUsed h) - uint (GasLimit h) div 2"
      "CalcBaseFee c h = Some (b + max 1 (g * b div (uint (GasLimit h) div 2) div 8))"
  | (down) g where "GasUsed h < GasLimit h div 2" "g = uint (GasLimit h) div 2 - uint (GasUsed h)" "0 \<le> g"
      "g \<le> uint (GasLimit h) div 2"
      "CalcBaseFee c h = Some (b - g * b div (uint (GasLimit h) div 2) div 8)"
proof -
  define t where "t = GasLimit h div 2"
  have t: "uint t = uint (GasLimit h) div 2" by (simp add: t_def uint_div)
  have pos: "t \<noteq> 0" using assms(4) by (simp add: t uint_0_iff[symmetric] word_le_def del: uint_0_iff)
  have eq: "CalcBaseFee c h =
    (if GasUsed h = t then Some b
     else if t < GasUsed h then Some (b + max 1 (uint (GasUsed h - t) * b div uint t div 8))
     else Some (if b - uint (t - GasUsed h) * b div uint t div 8 < 0 then 0
                else b - uint (t - GasUsed h) * b div uint t div 8))"
    using assms(1,2) pos
    by (simp add: CalcBaseFee_def Let_def ElasticityMultiplier_def t_def[symmetric] base_fee_delta_eq max_def)
  consider "GasUsed h = t" | "t < GasUsed h" | "GasUsed h < t" by fastforce
  then show thesis
  proof cases
    case 1
    then show thesis using eq same by (simp add: t_def)
  next
    case 2
    then have "uint (GasUsed h - t) = uint (GasUsed h) - uint t" 
      by (intro iffD1[OF uint_sub_lem]) (simp add: word_less_def)
    then show thesis using 2 eq up by (simp add: t t_def[symmetric])
  next
    case 3
    then have u: "uint (t - GasUsed h) = uint t - uint (GasUsed h)" 
      by (intro iffD1[OF uint_sub_lem]) (simp add: word_less_def)
    have "0 < uint t" using pos by (simp add: word_gt_0 uint_0_iff order_less_le)
    then have "(uint t - uint (GasUsed h)) * b div uint t div 8 \<le> 1 * b div 8"
      using assms(3) by (intro quotient_mono) auto
    moreover have "b div 8 \<le> b" using assms(3) by simp
    ultimately have "\<not> b - (uint t - uint (GasUsed h)) * b div uint t div 8 < 0" by simp
    then show thesis using 3 eq down[OF _ refl] u
      by (simp add: t t_def[symmetric] word_less_def)
  qed
qed

text \<open>Without a gas target the fee stays, or the computation divides by zero.\<close>

lemma CalcBaseFee_no_target:
  assumes "IsLondon c (Number h)" "BaseFee h = Some b" "GasLimit h < 2"
  shows "CalcBaseFee c h = (if GasUsed h = 0 then Some b else None)"
proof -
  have "GasLimit h div 2 = 0" using assms(3) by (simp add: word_less_def uint_div flip: uint_0_iff)
  then show ?thesis using assms(1,2)
    by (auto simp: CalcBaseFee_def Let_def ElasticityMultiplier_def base_fee_delta_eq word_gt_0)
qed

lemma CalcBaseFee_floor:
  assumes "IsLondon c (Number h)" "BaseFee h = Some b" "7 \<le> b" "CalcBaseFee c h = Some fee"
  shows "7 \<le> fee"
proof (cases "2 \<le> GasLimit h")
  case True
  from assms(3) have "0 \<le> b" by simp
  from assms(1,2) this True show ?thesis
  proof (cases rule: CalcBaseFee_cases)
    case (down g)
    have "0 < uint (GasLimit h) div 2" using True by (simp add: word_le_def)
    with down have "g * b div (uint (GasLimit h) div 2) div 8 \<le> 1 * b div 8"
      using assms(3) by (intro quotient_mono) auto
    then show ?thesis using down(5) assms(3,4) by simp
  qed (use assms(3,4) in auto)
next
  case False
  then have "GasLimit h < 2" by simp
  from CalcBaseFee_no_target[OF assms(1,2) this] show ?thesis using assms(3,4) by (auto split: if_splits)
qed

text \<open>
  The base fee of the next block. For a London parent with a gas target and no more gas used
  than its limit, the fee is computed without a panic and is never negative; it stays at the
  target, rises above it by at least one and at most a quarter (an eighth when the limit is even),
  and falls below it by at most an eighth.
\<close>

theorem base_fee_bounds:
  assumes "IsLondon c (Number h)" "BaseFee h = Some b" "0 \<le> b" "2 \<le> GasLimit h" "GasUsed h \<le> GasLimit h"
  shows "\<exists>fee. CalcBaseFee c h = Some fee \<and> 0 \<le> fee \<and>
    (GasUsed h = GasLimit h div 2 \<longrightarrow> fee = b) \<and>
    (GasLimit h div 2 < GasUsed h \<longrightarrow> b < fee \<and> fee \<le> b + max 1 (2 * b div 8) \<and>
       (even (uint (GasLimit h)) \<longrightarrow> fee \<le> b + max 1 (b div 8))) \<and>
    (GasUsed h < GasLimit h div 2 \<longrightarrow> b - b div 8 \<le> fee \<and> fee \<le> b)"
  using assms(1-4)
proof (cases rule: CalcBaseFee_cases)
  case same
  then show ?thesis using assms(3) by simp
next
  case (up g)
  define l where "l = uint (GasLimit h)"
  have l: "2 \<le> l" "uint (GasUsed h) \<le> l" using assms(4,5) by (auto simp: l_def word_le_def)
  have t: "0 < l div 2" using l(1) by simp
  have "g \<le> 2 * (l div 2)" "even l \<Longrightarrow> g \<le> 1 * (l div 2)" using up(2) l by (auto simp: l_def[symmetric])
  then have "g * b div (l div 2) div 8 \<le> 2 * b div 8" "even l \<Longrightarrow> g * b div (l div 2) div 8 \<le> 1 * b div 8"
    using quotient_mono[of b "l div 2" g 2] quotient_mono[of b "l div 2" g 1] assms(3) t by simp_all
  then show ?thesis using up assms(3) by (auto simp: l_def[symmetric] intro: max.coboundedI2)
next
  case (down g)
  define l where "l = uint (GasLimit h)"
  have t: "0 < l div 2" using assms(4) by (simp add: l_def word_le_def)
  then have "g * b div (l div 2) div 8 \<le> 1 * b div 8"
    using assms(3) down by (intro quotient_mono) (auto simp: l_def)
  moreover have "0 \<le> g * b div (l div 2) div 8"
    using t down(3) assms(3) by (simp add: pos_imp_zdiv_nonneg_iff)
  moreover have "b div 8 \<le> b" using assms(3) by simp
  ultimately show ?thesis using down by (auto simp: l_def[symmetric])
qed

theorem base_fee_bounds_witness:
  "CalcBaseFee fee_config (fee_parent 30000000 800) = Some 900 \<and>
   (\<exists>fee. CalcBaseFee fee_config (fee_parent 30000000 800) = Some fee \<and> 800 < fee \<and> fee \<le> 800 + max 1 (800 div 8))"
proof -
  have "CalcBaseFee fee_config (fee_parent 30000000 800) = Some 900"
    by (simp add: CalcBaseFee_def fee_config_def fee_parent_def fork_defs ElasticityMultiplier_def base_fee_delta_eq)
  moreover have "even (uint (GasLimit (fee_parent 30000000 800)))" by (simp add: fee_parent_def)
  ultimately show ?thesis
    using base_fee_bounds[of fee_config "fee_parent 30000000 800" 800]
    by (auto simp: fee_config_def fee_parent_def fork_defs)
qed

text \<open>
  The base fee has a floor. On every chain of headers that pass the verification against their
  parents, starting from a header with a fee of at least 7 or none, all fees are at least 7, the
  initial base fee; empty blocks cannot lower it further.
\<close>

theorem base_fee_floor:
  assumes "fee_chain c g h" "\<forall>b. BaseFee g = Some b \<longrightarrow> 7 \<le> b"
  shows "\<forall>b. BaseFee h = Some b \<longrightarrow> 7 \<le> b"
  using assms
proof (induction rule: fee_chain.induct)
  case (fee_chain_next g p h)
  show ?case
  proof (intro allI impI)
    fix b assume b: "BaseFee h = Some b"
    with fee_chain_next.hyps(2) have fee: "CalcBaseFee c p = Some b"
      and p: "IsLondon c (Number p) \<longrightarrow> BaseFee p \<noteq> None"
      by (auto simp: VerifyEIP1559Header_def Let_def split: option.splits if_splits)
    show "7 \<le> b"
    proof (cases "IsLondon c (Number p)")
      case True
      with p obtain q where "BaseFee p = Some q" by auto
      then show ?thesis using CalcBaseFee_floor[OF True _ _ fee] fee_chain_next by simp
    next
      case False
      then show ?thesis using fee by (simp add: CalcBaseFee_def InitialBaseFee_def)
    qed
  qed
qed simp

theorem base_fee_floor_witness:
  "fee_chain fee_config (fee_parent 0 8) (fee_parent 0 7) \<and> 7 \<le> the (BaseFee (fee_parent 0 7))"
proof -
  have "VerifyEIP1559Header fee_config (fee_parent 0 8) (fee_parent 0 7) = Some None"
    by (simp add: VerifyEIP1559Header_def VerifyGaslimit_def gas_limits CalcBaseFee_def fee_config_def fee_parent_def
        fork_defs ElasticityMultiplier_def base_fee_delta_eq)
  then have "fee_chain fee_config (fee_parent 0 8) (fee_parent 0 7)"
    by (rule fee_chain_next[OF fee_chain_start])
  with base_fee_floor[OF this] show ?thesis by (simp add: fee_parent_def)
qed

end
