(* ===== verification/Anchors.thy ===== *)
theory Anchors
  imports Chain_Config Speculative
begin

text \<open>
  Block-hash anchors: the envelope at the end of a header's extra data
  (\<open>consensus/antartical/anchors.go\<close>), its verification against the parent
  (\<open>consensus/randomx/anchor_validation.go\<close>) and the predeployed contract that records the hashes
  of the chain in the state (\<open>core/tkm_block_hash_anchor.go\<close>).
\<close>

section \<open>Anchors in extra data\<close>

datatype anchor_error =
    ErrInvalidBlockHashAnchor | ErrMissingBlockHashAnchor | ErrAnchorExtraOverflow
  | PreAntarticalExtra | AntarticalExtraTooLong | ErrUnknownAncestor | PreAntarticalParentAnchor

record BlockHashAnchor =
  bha_Height :: u64
  bha_Hash :: hash
  bha_Rolling :: hash

definition blockHashAnchorMagic :: bytes where
  "blockHashAnchorMagic = str_bytes ''TKM_BLOCK_HASH_ANCHOR_V1''"

definition BlockHashAnchorEncodedSize :: nat where
  "BlockHashAnchorEncodedSize = length blockHashAnchorMagic + 8 + 32 + 32"

definition MaximumExtraDataSize :: nat where "MaximumExtraDataSize = 32"
definition AntarticalMaximumExtraDataSize :: nat where "AntarticalMaximumExtraDataSize = 128"

definition anchor_preimage :: "hash \<Rightarrow> u64 \<Rightarrow> hash \<Rightarrow> bytes" where
  "anchor_preimage previous height blockHash =
     blockHashAnchorMagic @ hash_bytes previous @ u64_bytes height @ hash_bytes blockHash"

definition BlockHashAnchorCommitment :: "(bytes \<Rightarrow> hash) \<Rightarrow> hash \<Rightarrow> u64 \<Rightarrow> hash \<Rightarrow> hash" where
  "BlockHashAnchorCommitment keccak previous height blockHash = keccak (anchor_preimage previous height blockHash)"

definition ValidateBlockHashAnchor ::
    "(bytes \<Rightarrow> hash) \<Rightarrow> BlockHashAnchor \<Rightarrow> u64 \<Rightarrow> hash \<Rightarrow> hash \<Rightarrow> anchor_error option" where
  "ValidateBlockHashAnchor keccak anchor blockNumber parentHash previousRolling =
     (if blockNumber = 0 \<or> bha_Height anchor \<noteq> blockNumber - 1 \<or> bha_Hash anchor \<noteq> parentHash
      then Some ErrInvalidBlockHashAnchor
      else if bha_Rolling anchor \<noteq> BlockHashAnchorCommitment keccak previousRolling (bha_Height anchor) parentHash
      then Some ErrInvalidBlockHashAnchor
      else None)"

definition BlockHashAnchorFromHeaderExtra :: "bytes \<Rightarrow> anchor_error + BlockHashAnchor option" where
  "BlockHashAnchorFromHeaderExtra extra =
     (let marker = blockHashAnchorMagic
      in case bytes_index extra marker of
           None \<Rightarrow> Inr None
         | Some index \<Rightarrow>
             if bytes_index (drop (index + length marker) extra) marker \<noteq> None \<or>
                index + BlockHashAnchorEncodedSize \<noteq> length extra
             then Inl ErrInvalidBlockHashAnchor
             else
               let start = index + length marker
               in Inr (Some \<lparr>bha_Height = of_nat (be_nat (slice start (start + 8) extra)),
                             bha_Hash = bytes_hash (slice (start + 8) (start + 8 + 32) extra),
                             bha_Rolling = bytes_hash (slice (start + 8 + 32) (start + 8 + 32 + 32) extra)\<rparr>))"

definition anchor_payload :: "BlockHashAnchor \<Rightarrow> bytes" where
  "anchor_payload anchor = u64_bytes (bha_Height anchor) @ hash_bytes (bha_Hash anchor) @ hash_bytes (bha_Rolling anchor)"

definition AttachBlockHashAnchor :: "bytes \<Rightarrow> BlockHashAnchor \<Rightarrow> anchor_error + bytes" where
  "AttachBlockHashAnchor extra anchor =
     (let encoded = blockHashAnchorMagic @ anchor_payload anchor;
          base = (case bytes_index extra blockHashAnchorMagic of
                    None \<Rightarrow> Inr extra
                  | Some index \<Rightarrow>
                      if bytes_index (drop (index + length blockHashAnchorMagic) extra) blockHashAnchorMagic \<noteq> None \<or>
                         index + BlockHashAnchorEncodedSize \<noteq> length extra
                      then Inl ErrInvalidBlockHashAnchor
                      else Inr (take index extra))
      in case base of
           Inl e \<Rightarrow> Inl e
         | Inr base \<Rightarrow>
             if length base + BlockHashAnchorEncodedSize > AntarticalMaximumExtraDataSize
             then Inl ErrAnchorExtraOverflow
             else Inr (base @ encoded))"

section \<open>Verification against the parent\<close>

text \<open>
  \<open>chain\<close> is None for a chain or configuration that is nil, and otherwise the configuration, whether
  it has RandomX rules, and the stored headers; \<open>hashf\<close> is the hash of a header. The candidates are
  the earlier headers of the batch.
\<close>

type_synonym header_chain = "(chain_config \<times> bool \<times> (hash \<Rightarrow> u64 \<Rightarrow> header option)) option"

fun find_parent :: "(header \<Rightarrow> hash) \<Rightarrow> header \<Rightarrow> u64 \<Rightarrow> header list \<Rightarrow> header option" where
  "find_parent hashf h num [] = None"
| "find_parent hashf h num (c # cs) =
     (case Number c of
        Some n \<Rightarrow> if hashf c = ParentHash h \<and> big_u64 n + 1 = num then Some c else find_parent hashf h num cs
      | None \<Rightarrow> find_parent hashf h num cs)"

text \<open>The rolling commitment of the parent that the header has to continue.\<close>

definition previous_rolling :: "chain_config \<Rightarrow> header \<Rightarrow> anchor_error + hash" where
  "previous_rolling config parent =
     (case BlockHashAnchorFromHeaderExtra (Extra parent) of
        Inl e \<Rightarrow> Inl e
      | Inr parentAnchor \<Rightarrow>
          if IsAntartical config (Number parent) (Time parent) then
            (case parentAnchor of
               None \<Rightarrow> if (case Number parent of None \<Rightarrow> False | Some n \<Rightarrow> 0 < n) then Inl ErrMissingBlockHashAnchor
                        else Inr 0
             | Some a \<Rightarrow> Inr (bha_Rolling a))
          else (case parentAnchor of None \<Rightarrow> Inr 0 | Some a \<Rightarrow> Inl PreAntarticalParentAnchor))"

definition verifyBlockHashAnchor ::
    "(bytes \<Rightarrow> hash) \<Rightarrow> (header \<Rightarrow> hash) \<Rightarrow> header_chain \<Rightarrow> header \<Rightarrow> header list \<Rightarrow> anchor_error option" where
  "verifyBlockHashAnchor keccak hashf chain h parentCandidates =
     (case (Number h, chain) of
        (Some number, Some (config, randomX, getHeader)) \<Rightarrow>
          if \<not> randomX then None
          else
            (case BlockHashAnchorFromHeaderExtra (Extra h) of
               Inl e \<Rightarrow> Some e
             | Inr found \<Rightarrow>
                 if \<not> IsAntartical config (Number h) (Time h) then
                   if found \<noteq> None \<or> length (Extra h) > MaximumExtraDataSize then Some PreAntarticalExtra else None
                 else
                   (case found of
                      None \<Rightarrow> Some ErrMissingBlockHashAnchor
                    | Some anchor \<Rightarrow>
                        if length (Extra h) > AntarticalMaximumExtraDataSize then Some AntarticalExtraTooLong
                        else if number = 0 then Some ErrInvalidBlockHashAnchor
                        else
                          (case (case find_parent hashf h (big_u64 number) (rev parentCandidates) of
                                   Some p \<Rightarrow> Some p
                                 | None \<Rightarrow> getHeader (ParentHash h) (big_u64 number - 1)) of
                             None \<Rightarrow> Some ErrUnknownAncestor
                           | Some parent \<Rightarrow>
                               (case previous_rolling config parent of
                                  Inl e \<Rightarrow> Some e
                                | Inr prev \<Rightarrow>
                                    ValidateBlockHashAnchor keccak anchor (big_u64 number) (ParentHash h) prev))))
      | _ \<Rightarrow> None)"

section \<open>The anchor contract\<close>

datatype anchor_state_error = AnchorCodeUnavailable | AnchorCodeMismatch | AnchorConflict

definition TKMBlockHashAnchorAddress :: address where
  "TKMBlockHashAnchorAddress = 0x8979"

definition tkmAnchorMappingSlot :: "(bytes \<Rightarrow> hash) \<Rightarrow> u64 \<Rightarrow> hash" where
  "tkmAnchorMappingSlot keccak height = keccak (replicate 24 0 @ u64_bytes height @ replicate 24 0 @ u64_bytes 6)"

definition tkmAnchorContractRolling :: "(bytes \<Rightarrow> hash) \<Rightarrow> hash \<Rightarrow> u64 \<Rightarrow> hash \<Rightarrow> hash" where
  "tkmAnchorContractRolling keccak previous height blockHash =
     keccak (hash_bytes (keccak (str_bytes ''TKMCHAIN_BLOCK_HASH_ANCHOR_V1'')) @ hash_bytes previous @
             replicate 24 0 @ u64_bytes height @ hash_bytes blockHash)"

text \<open>The size of the code is read without caching the code.\<close>

definition db_GetCodeSize :: "backend \<Rightarrow> address \<Rightarrow> StateDB \<Rightarrow> nat \<times> StateDB" where
  "db_GetCodeSize be a s =
     (case getStateObject be a s of
        (None, s) \<Rightarrow> (0, s)
      | (Some obj, s) \<Rightarrow>
          (if so_code obj \<noteq> [] then length (so_code obj)
           else if ac_CodeHash (so_data obj) = EmptyCodeHash be then 0
           else length (be_Code be a (ac_CodeHash (so_data obj))), s))"

text \<open>The writes that install the contract and its owner, and those that record one hash.\<close>

definition anchor_install :: "backend \<Rightarrow> bytes \<Rightarrow> address \<Rightarrow> StateDB \<Rightarrow> StateDB" where
  "anchor_install be runtime owner s =
     (let (size, s) = db_GetCodeSize be TKMBlockHashAnchorAddress s
      in if size = 0 then
           let s = snd (db_SetCode be TKMBlockHashAnchorAddress runtime s)
           in snd (db_SetState be TKMBlockHashAnchorAddress 0 (bytes_hash (replicate 12 0 @ addr_bytes owner)) s)
         else s)"

definition anchor_record :: "backend \<Rightarrow> u64 \<Rightarrow> hash \<Rightarrow> StateDB \<Rightarrow> StateDB" where
  "anchor_record be height parentHash s =
     (let a = TKMBlockHashAnchorAddress;
          put = (\<lambda>key v s. snd (db_SetState be a key v s));
          (initialized, s) = db_GetState be a 1 s;
          s = (if initialized = 0 then put 2 (ucast height) (put 1 1 s) else s);
          s = put (tkmAnchorMappingSlot (be_keccak be) height) parentHash s;
          s = put 3 (ucast height) s;
          (count, s) = db_GetState be a 4 s;
          s = put 4 (count + 1) s;
          (previous, s) = db_GetState be a 5 s
      in put 5 (tkmAnchorContractRolling (be_keccak be) previous height parentHash) s)"

definition EnsureTKMBlockHashAnchor ::
    "backend \<Rightarrow> bytes option \<Rightarrow> (chain_config \<times> bool) option \<Rightarrow> int option \<Rightarrow> u64 \<Rightarrow> hash \<Rightarrow> StateDB \<Rightarrow>
     anchor_state_error option \<times> StateDB" where
  "EnsureTKMBlockHashAnchor be runtimeCode chain blockNumber blockTime parentHash s =
     (case (chain, blockNumber) of
        (Some (config, randomX), Some number) \<Rightarrow>
          if \<not> randomX \<or> \<not> IsAntartical config blockNumber blockTime \<or> number = 0 then (None, s)
          else
            (case runtimeCode of
               None \<Rightarrow> (Some AnchorCodeUnavailable, s)
             | Some runtime \<Rightarrow>
                 let (code, s) = db_GetCode be TKMBlockHashAnchorAddress s
                 in if code \<noteq> [] \<and> be_keccak be code \<noteq> be_keccak be runtime then (Some AnchorCodeMismatch, s)
                    else
                      let s = anchor_install be runtime (MainKingAddress config) s;
                          height = big_u64 number - 1;
                          (existing, s) =
                            db_GetState be TKMBlockHashAnchorAddress (tkmAnchorMappingSlot (be_keccak be) height) s
                      in if existing \<noteq> 0 then
                           (if existing \<noteq> parentHash then Some AnchorConflict else None, s)
                         else (None, anchor_record be height parentHash s))
      | _ \<Rightarrow> (None, s))"

section \<open>Chains of anchored headers\<close>

text \<open>The rolling commitment a header carries.\<close>

definition rolling_of :: "header \<Rightarrow> hash" where
  "rolling_of h = (case BlockHashAnchorFromHeaderExtra (Extra h) of Inr (Some a) \<Rightarrow> bha_Rolling a | _ \<Rightarrow> 0)"

text \<open>Chains, newest header first, in which every header but the oldest is verified against its parent.\<close>

inductive anchored :: "(bytes \<Rightarrow> hash) \<Rightarrow> (header \<Rightarrow> hash) \<Rightarrow> chain_config \<Rightarrow> header list \<Rightarrow> bool"
  for keccak hashf config where
  anchored_start: "previous_rolling config g = Inr (rolling_of g) \<Longrightarrow> anchored keccak hashf config [g]"
| anchored_next: "anchored keccak hashf config (p # hs) \<Longrightarrow>
    Number p = Some n \<Longrightarrow> Number h = Some (n + 1) \<Longrightarrow> 0 \<le> n \<Longrightarrow> n + 1 < 2 ^ 64 \<Longrightarrow> ParentHash h = hashf p \<Longrightarrow>
    IsAntartical config (Number h) (Time h) \<Longrightarrow>
    verifyBlockHashAnchor keccak hashf
      (Some (config, True, \<lambda>ph num. if ph = hashf p \<and> num = big_u64 n then Some p else None)) h [] = None \<Longrightarrow>
    anchored keccak hashf config (h # p # hs)"

fun anchor_preimages :: "header list \<Rightarrow> bytes set" where
  "anchor_preimages (h # p # hs) =
     insert (anchor_preimage (rolling_of p) (big_u64 (the (Number p))) (ParentHash h)) (anchor_preimages (p # hs))"
| "anchor_preimages _ = {}"

text \<open>The storage of the anchor contract.\<close>

abbreviation anchor_slot :: "backend \<Rightarrow> StateDB \<Rightarrow> hash \<Rightarrow> hash" where
  "anchor_slot be s key \<equiv> fst (db_GetState be TKMBlockHashAnchorAddress key s)"

section \<open>Samples\<close>

definition anchor_config :: chain_config where
  "anchor_config = \<lparr>ChainID = Some 1, LondonBlock = Some 0, RandomXTxBlock = None, RandomXMoneroBlock = None,
     EDATime = None, KyotoTime = None, PhoneTime = None, AntarticalTime = Some 0, QuantumResistantTime = None,
     MainKingAddress = 3, PostQuantumMainKingAddress = 0\<rparr>"

definition anchor_header :: "int \<Rightarrow> hash \<Rightarrow> bytes \<Rightarrow> header" where
  "anchor_header n parent extra = \<lparr>ParentHash = parent, Coinbase = 0, Difficulty = Some 1, Number = Some n,
     GasLimit = 0, GasUsed = 0, Time = 0, Extra = extra, MixDigest = 0, BaseFee = None,
     UncleHash = 0, Root = 0, TxHash = 0, ReceiptHash = 0, Bloom = [], Nonce = []\<rparr>"

definition sample_extra :: bytes where
  "sample_extra = blockHashAnchorMagic @ anchor_payload \<lparr>bha_Height = 0, bha_Hash = 6, bha_Rolling = 6\<rparr>"

definition anchor_reader :: backend where
  "anchor_reader = \<lparr>be_keccak = (\<lambda>_. 9), be_Account = (\<lambda>_. None), be_Storage = (\<lambda>_ _. 0), be_Code = (\<lambda>_ _. [])\<rparr>"

section \<open>Lemmas\<close>

lemma border_free_magic: "border_free blockHashAnchorMagic"
  by code_simp

lemma length_magic [simp]: "length blockHashAnchorMagic = 24"
  by (simp add: blockHashAnchorMagic_def)

lemma magic_nonempty [simp]: "blockHashAnchorMagic \<noteq> []"
  using length_magic by force

lemma length_payload [simp]: "length (anchor_payload a) = 72"
  by (simp add: anchor_payload_def)

lemma index_attached:
  "bytes_index extra blockHashAnchorMagic = None \<Longrightarrow>
   bytes_index (extra @ blockHashAnchorMagic @ payload) blockHashAnchorMagic = Some (length extra)"
  by (rule bytes_index_append_marker[OF border_free_magic]) simp_all

lemma From_attached:
  assumes "bytes_index extra blockHashAnchorMagic = None" "bytes_index (anchor_payload a) blockHashAnchorMagic = None"
  shows "BlockHashAnchorFromHeaderExtra (extra @ blockHashAnchorMagic @ anchor_payload a) = Inr (Some a)"
  using assms
  by (simp add: BlockHashAnchorFromHeaderExtra_def index_attached BlockHashAnchorEncodedSize_def slice_def)
    (simp add: anchor_payload_def)

lemma Attach_fresh:
  assumes "bytes_index extra blockHashAnchorMagic = None" "length extra \<le> 32"
  shows "AttachBlockHashAnchor extra a = Inr (extra @ blockHashAnchorMagic @ anchor_payload a)"
  using assms by (simp add: AttachBlockHashAnchor_def BlockHashAnchorEncodedSize_def AntarticalMaximumExtraDataSize_def)

lemma Attach_again:
  assumes "bytes_index extra blockHashAnchorMagic = None" "length extra \<le> 32"
    "bytes_index (anchor_payload a) blockHashAnchorMagic = None"
  shows "AttachBlockHashAnchor (extra @ blockHashAnchorMagic @ anchor_payload a) b = AttachBlockHashAnchor extra b"
  using assms
  by (simp add: AttachBlockHashAnchor_def index_attached BlockHashAnchorEncodedSize_def AntarticalMaximumExtraDataSize_def)

text \<open>What an accepted header says about its parent.\<close>

lemma verified_anchor:
  assumes "verifyBlockHashAnchor keccak hashf (Some (config, True, getHeader)) h [] = None"
    "Number h = Some n" "IsAntartical config (Number h) (Time h)"
  obtains p r where "getHeader (ParentHash h) (big_u64 n - 1) = Some p" "previous_rolling config p = Inr r"
    "rolling_of h = BlockHashAnchorCommitment keccak r (big_u64 n - 1) (ParentHash h)"
    "previous_rolling config h = Inr (rolling_of h)"
proof -
  from assms obtain a p r where f: "BlockHashAnchorFromHeaderExtra (Extra h) = Inr (Some a)"
    and p: "getHeader (ParentHash h) (big_u64 n - 1) = Some p" "previous_rolling config p = Inr r"
    and v: "ValidateBlockHashAnchor keccak a (big_u64 n) (ParentHash h) r = None"
    by (auto simp: verifyBlockHashAnchor_def split: sum.splits option.splits if_splits)
  from f assms(3) have "previous_rolling config h = Inr (rolling_of h)"
    by (simp add: previous_rolling_def rolling_of_def)
  then show thesis using p v f that
    by (auto simp: ValidateBlockHashAnchor_def rolling_of_def split: if_splits)
qed

lemma anchored_rolling:
  "anchored keccak hashf config hs \<Longrightarrow> hs \<noteq> [] \<Longrightarrow> previous_rolling config (hd hs) = Inr (rolling_of (hd hs))"
proof (induction rule: anchored.induct)
  case (anchored_next p hs n h)
  then show ?case by (auto elim: verified_anchor)
qed simp

lemma big_u64_Suc: "big_u64 (n + 1) - 1 = big_u64 n"
  by (simp add: big_u64_def)

lemma anchored_step:
  assumes "anchored keccak hashf config (h # p # hs)"
  obtains n where "anchored keccak hashf config (p # hs)" "Number p = Some n" "ParentHash h = hashf p"
    "rolling_of h = keccak (anchor_preimage (rolling_of p) (big_u64 n) (ParentHash h))"
proof -
  from assms obtain n where n: "anchored keccak hashf config (p # hs)" "Number p = Some n" "Number h = Some (n + 1)"
    "ParentHash h = hashf p" "IsAntartical config (Number h) (Time h)"
    "verifyBlockHashAnchor keccak hashf
      (Some (config, True, \<lambda>ph num. if ph = hashf p \<and> num = big_u64 n then Some p else None)) h [] = None"
    by (cases rule: anchored.cases) auto
  from n(6,3,5) obtain q r where "q = p" "previous_rolling config q = Inr r"
    "rolling_of h = BlockHashAnchorCommitment keccak r (big_u64 (n + 1) - 1) (ParentHash h)"
    by (rule verified_anchor) (auto simp: split: if_splits)
  then show thesis using that n anchored_rolling[OF n(1)] by (simp add: BlockHashAnchorCommitment_def big_u64_Suc)
qed

lemma anchor_preimage_eq:
  "anchor_preimage p h b = anchor_preimage p' h' b' \<longleftrightarrow> p = p' \<and> h = h' \<and> b = b'"
  by (simp add: anchor_preimage_def append_eq_append_conv)

lemma anchored_binds:
  assumes "anchored keccak hashf config hs" "anchored keccak hashf config hs'" "length hs = length hs'"
    "hs \<noteq> []" "rolling_of (hd hs) = rolling_of (hd hs')" "inj_on keccak (anchor_preimages hs \<union> anchor_preimages hs')"
  shows "map ParentHash (butlast hs) = map ParentHash (butlast hs')"
  using assms
proof (induction hs arbitrary: hs' rule: list.induct)
  case (Cons h hs)
  note prems = Cons.prems and IH = Cons.IH
  then obtain h' qs where hs': "hs' = h' # qs" by (cases hs') auto
  show ?case
  proof (cases hs)
    case Nil
    then show ?thesis using prems(3) hs' by simp
  next
    case (Cons p ps)
    then obtain p' ps' where qs: "qs = p' # ps'" using prems(3) hs' by (cases qs) auto
    obtain n where n: "anchored keccak hashf config (p # ps)" "Number p = Some n"
      "rolling_of h = keccak (anchor_preimage (rolling_of p) (big_u64 n) (ParentHash h))"
      using anchored_step prems(1) Cons by metis
    obtain n' where n': "anchored keccak hashf config (p' # ps')" "Number p' = Some n'"
      "rolling_of h' = keccak (anchor_preimage (rolling_of p') (big_u64 n') (ParentHash h'))"
      using anchored_step prems(2) hs' qs by metis
    have "anchor_preimage (rolling_of p) (big_u64 n) (ParentHash h) =
        anchor_preimage (rolling_of p') (big_u64 n') (ParentHash h')"
      using n(2,3) n'(2,3) prems(5) Cons hs' qs
      by (intro inj_onD[OF prems(6)]) auto
    then have eq: "rolling_of p = rolling_of p'" "ParentHash h = ParentHash h'" by (auto simp: anchor_preimage_eq)
    have "map ParentHash (butlast (p # ps)) = map ParentHash (butlast (p' # ps'))"
      using IH[of "p' # ps'"] n(1) n'(1) eq(1) prems(3,6) Cons hs' qs
      by (auto elim: inj_on_subset)
    then show ?thesis using Cons hs' qs eq(2) by simp
  qed
qed simp

section \<open>Reading the contract\<close>

lemma anchor_slot_SetState [simp]:
  assumes "storage_of_accounts be"
  shows "anchor_slot be (snd (db_SetState be TKMBlockHashAnchorAddress k v s)) key =
    (if key = k then v else anchor_slot be s key)"
  by (simp add: GetState_aviews aviews_SetState[OF assms] upd_aview_def new_aview_def split: option.split)

lemma anchor_slot_SetCode [simp]:
  assumes "storage_of_accounts be"
  shows "anchor_slot be (snd (db_SetCode be TKMBlockHashAnchorAddress code s)) key = anchor_slot be s key"
  by (simp add: GetState_aviews aviews_SetCode[OF assms] upd_aview_def new_aview_def split: option.split)

lemma reads_keep_slots [simp]:
  "anchor_slot be (snd (db_GetState be a k s)) key = anchor_slot be s key"
  "anchor_slot be (snd (db_GetCode be a s)) key = anchor_slot be s key"
  "anchor_slot be (snd (db_GetCodeSize be a s)) key = anchor_slot be s key"
proof -
  have "silent be s (snd (db_GetCodeSize be a s))"
    using silent_loaded by (auto simp: db_GetCodeSize_def getStateObject_peek split: option.split)
  then show "anchor_slot be (snd (db_GetState be a k s)) key = anchor_slot be s key"
    "anchor_slot be (snd (db_GetCode be a s)) key = anchor_slot be s key"
    "anchor_slot be (snd (db_GetCodeSize be a s)) key = anchor_slot be s key"
    by (simp_all add: GetState_aviews aviews_silent[OF silent_GetState] aviews_silent[OF silent_GetCode] aviews_silent)
qed

lemma anchor_install_slots:
  assumes "storage_of_accounts be" "key \<noteq> 0"
  shows "anchor_slot be (anchor_install be runtime owner s) key = anchor_slot be s key"
  using assms by (simp add: anchor_install_def split_beta)

lemma anchor_record_slots:
  assumes "storage_of_accounts be" "tkmAnchorMappingSlot (be_keccak be) height \<notin> {1, 2, 3, 4, 5}"
  shows "anchor_slot be (anchor_record be height parentHash s) key =
    (if key = tkmAnchorMappingSlot (be_keccak be) height then parentHash
     else if key = 1 \<and> anchor_slot be s 1 = 0 then 1
     else if key = 2 \<and> anchor_slot be s 1 = 0 then ucast height
     else if key = 3 then ucast height
     else if key = 4 then anchor_slot be s 4 + 1
     else if key = 5 then tkmAnchorContractRolling (be_keccak be) (anchor_slot be s 5) height parentHash
     else anchor_slot be s key)"
  using assms by (auto simp: anchor_record_def split_beta Let_def)

text \<open>Accounts other than the contract are not touched.\<close>

lemma other_accounts:
  assumes "storage_of_accounts be" "b \<noteq> TKMBlockHashAnchorAddress"
  shows "aviews be (anchor_install be runtime owner s) b = aviews be s b"
    and "aviews be (anchor_record be height parentHash s) b = aviews be s b"
proof -
  have size: "aviews be (snd (db_GetCodeSize be a s)) = aviews be s" for a s
    using silent_loaded by (auto simp: db_GetCodeSize_def getStateObject_peek split: option.split intro!: aviews_silent)
  show "aviews be (anchor_install be runtime owner s) b = aviews be s b"
    using assms(2) by (simp add: anchor_install_def split_beta size aviews_SetState[OF assms(1)]
        aviews_SetCode[OF assms(1)] upd_aview_other)
  show "aviews be (anchor_record be height parentHash s) b = aviews be s b"
    using assms(2) by (simp add: anchor_record_def split_beta Let_def aviews_SetState[OF assms(1)]
        aviews_silent[OF silent_GetState] upd_aview_other)
qed

section \<open>Properties\<close>

text \<open>
  Round trip of anchors. Attaching an anchor to extra data of at most 32 bytes without an anchor
  succeeds within the size limit, and reading the result returns exactly that anchor, provided the
  marker does not occur in the encoded fields; attaching another anchor replaces it.
\<close>

theorem anchor_roundtrip:
  assumes "bytes_index extra blockHashAnchorMagic = None" "length extra \<le> 32"
    "bytes_index (anchor_payload a) blockHashAnchorMagic = None"
  shows "\<exists>e. AttachBlockHashAnchor extra a = Inr e \<and> length e \<le> AntarticalMaximumExtraDataSize \<and>
    take (length extra) e = extra \<and> BlockHashAnchorFromHeaderExtra e = Inr (Some a) \<and>
    (\<forall>b. AttachBlockHashAnchor e b = AttachBlockHashAnchor extra b)"
  using assms Attach_again[OF assms]
  by (simp add: Attach_fresh From_attached AntarticalMaximumExtraDataSize_def)

theorem anchor_roundtrip_witness:
  "\<exists>e. AttachBlockHashAnchor [1, 2] \<lparr>bha_Height = 7, bha_Hash = 8, bha_Rolling = 9\<rparr> = Inr e \<and>
     BlockHashAnchorFromHeaderExtra e = Inr (Some \<lparr>bha_Height = 7, bha_Hash = 8, bha_Rolling = 9\<rparr>)"
proof -
  have "bytes_index [1, 2] blockHashAnchorMagic = None"
    "bytes_index (anchor_payload \<lparr>bha_Height = 7, bha_Hash = 8, bha_Rolling = 9\<rparr>) blockHashAnchorMagic = None"
    by code_simp+
  with anchor_roundtrip[of "[1, 2]" "\<lparr>bha_Height = 7, bha_Hash = 8, bha_Rolling = 9\<rparr>"] show ?thesis by auto
qed

text \<open>
  C16: Anchors bind the history of the chain. Two chains of verified headers of the same length whose
  newest headers carry the same rolling commitment have the same parent hash at every height, when
  the hash function does not collide on the commitments of the two chains.
\<close>

theorem anchors_bind_history:
  assumes "anchored keccak hashf config hs" "anchored keccak hashf config hs'" "length hs = length hs'"
    "hs \<noteq> []" "rolling_of (hd hs) = rolling_of (hd hs')" "inj_on keccak (anchor_preimages hs \<union> anchor_preimages hs')"
  shows "map ParentHash (butlast hs) = map ParentHash (butlast hs')"
  using assms by (rule anchored_binds)

theorem anchors_bind_history_witness:
  "anchored (\<lambda>_. 6) (\<lambda>_. 6) anchor_config [anchor_header 1 6 sample_extra, anchor_header 0 0 []] \<and>
   map ParentHash (butlast [anchor_header 1 6 sample_extra, anchor_header 0 0 []]) = [6]"
proof -
  let ?g = "anchor_header 0 0 []" and ?h = "anchor_header 1 6 sample_extra"
  have "bytes_index (anchor_payload \<lparr>bha_Height = 0, bha_Hash = 6, bha_Rolling = 6\<rparr>) blockHashAnchorMagic = None"
    by code_simp
  then have x: "BlockHashAnchorFromHeaderExtra sample_extra = Inr (Some \<lparr>bha_Height = 0, bha_Hash = 6, bha_Rolling = 6\<rparr>)"
    using From_attached[of "[]"] by (simp add: sample_extra_def)
  have len: "length sample_extra = 96" by (simp add: sample_extra_def)
  have e: "BlockHashAnchorFromHeaderExtra [] = Inr None" by (simp add: BlockHashAnchorFromHeaderExtra_def)
  have "anchored (\<lambda>_. 6) (\<lambda>_. 6) anchor_config [?g]"
    by (rule anchored_start) (simp add: previous_rolling_def rolling_of_def anchor_header_def e)
  moreover have "verifyBlockHashAnchor (\<lambda>_. 6) (\<lambda>_. 6)
      (Some (anchor_config, True, \<lambda>ph num. if ph = 6 \<and> num = big_u64 0 then Some ?g else None)) ?h [] = None"
    by (simp add: verifyBlockHashAnchor_def anchor_header_def x previous_rolling_def e ValidateBlockHashAnchor_def
        BlockHashAnchorCommitment_def anchor_config_def fork_defs big_u64_def AntarticalMaximumExtraDataSize_def len)
  ultimately have a: "anchored (\<lambda>_. 6) (\<lambda>_. 6) anchor_config [?h, ?g]"
    by (intro anchored_next[where n = 0]) (simp_all add: anchor_header_def anchor_config_def fork_defs)
  from anchors_bind_history[OF a a] a show ?thesis by (simp add: anchor_header_def)
qed

text \<open>
  C38: The anchor contract records the chain. When the rules are active and the code of the contract is
  absent or the expected one, processing block \<open>n\<close> stores the hash of its parent under the height
  \<open>n - 1\<close>, which was empty, together with the newest height, the count and the rolling commitment
  computed from the old one; beyond the owner and the start marks nothing else in its storage
  changes, and no other account changes.
\<close>

theorem anchor_contract_records:
  assumes "storage_of_accounts be" "IsAntartical config (Some n) time" "0 < n"
    and "slot = tkmAnchorMappingSlot (be_keccak be) (big_u64 n - 1)" "slot \<notin> {0, 1, 2, 3, 4, 5}"
    and "anchor_slot be s slot = 0" "parentHash \<noteq> 0"
    and "fst (db_GetCode be TKMBlockHashAnchorAddress s) = [] \<or>
      be_keccak be (fst (db_GetCode be TKMBlockHashAnchorAddress s)) = be_keccak be runtime"
    and "EnsureTKMBlockHashAnchor be (Some runtime) (Some (config, True)) (Some n) time parentHash s = (e, s')"
  shows "e = None \<and> anchor_slot be s' slot = parentHash \<and> anchor_slot be s' 3 = ucast (big_u64 n - 1) \<and>
    anchor_slot be s' 4 = anchor_slot be s 4 + 1 \<and>
    anchor_slot be s' 5 =
      tkmAnchorContractRolling (be_keccak be) (anchor_slot be s 5) (big_u64 n - 1) parentHash \<and>
    (\<forall>key. key \<notin> {slot, 0, 1, 2, 3, 4, 5} \<longrightarrow> anchor_slot be s' key = anchor_slot be s key) \<and>
    (\<forall>b. b \<noteq> TKMBlockHashAnchorAddress \<longrightarrow> aviews be s' b = aviews be s b)"
proof -
  let ?h = "big_u64 n - 1" and ?A = TKMBlockHashAnchorAddress
  define t where "t = anchor_install be runtime (MainKingAddress config) (snd (db_GetCode be ?A s))"
  have t: "anchor_slot be t key = anchor_slot be s key" if "key \<noteq> 0" for key
    using that anchor_install_slots[OF assms(1)] by (simp add: t_def)
  have tb: "aviews be t b = aviews be s b" if "b \<noteq> ?A" for b
    using other_accounts(1)[OF assms(1) that] by (simp add: t_def aviews_silent[OF silent_GetCode])
  define u where "u = snd (db_GetState be ?A slot t)"
  have u: "anchor_slot be u key = anchor_slot be t key" for key by (simp add: u_def)
  have "anchor_slot be t slot = 0" using t[of slot] assms(5,6) by simp
  then have "e = None \<and> s' = anchor_record be ?h parentHash u"
    using assms(2,3,8,9)
    by (auto simp: EnsureTKMBlockHashAnchor_def split_beta Let_def t_def[symmetric] u_def assms(4))
  moreover have "tkmAnchorMappingSlot (be_keccak be) ?h \<notin> {1, 2, 3, 4, 5}" using assms(4,5) by simp
  note r = anchor_record_slots[OF assms(1) this]
  have "aviews be (anchor_record be ?h parentHash u) b = aviews be s b" if "b \<noteq> ?A" for b
    using other_accounts(2)[OF assms(1) that] tb[OF that] by (simp add: u_def aviews_silent[OF silent_GetState])
  ultimately show ?thesis using assms(4,5) by (auto simp: r u t)
qed

theorem anchor_contract_records_witness:
  "anchor_slot anchor_reader
     (snd (EnsureTKMBlockHashAnchor anchor_reader (Some [1]) (Some (anchor_config, True)) (Some 5) 0 77 NewWithReader)) 9 = 77"
proof -
  obtain e s' where r: "EnsureTKMBlockHashAnchor anchor_reader (Some [1]) (Some (anchor_config, True)) (Some 5) 0 77
      NewWithReader = (e, s')" by (metis prod.collapse)
  have peek: "peek anchor_reader NewWithReader a = None" for a
    by (simp add: peek_def NewWithReader_def anchor_reader_def)
  have "anchor_slot anchor_reader s' 9 = 77"
    using anchor_contract_records[OF _ _ _ refl _ _ _ _ r]
    by (simp add: anchor_reader_def storage_of_accounts_def anchor_config_def fork_defs tkmAnchorMappingSlot_def
        GetState_aviews aviews_def getters_peek peek[unfolded anchor_reader_def])
  then show ?thesis by (simp add: r)
qed

end
