(* ===== verification/Headers.thy ===== *)
theory Headers
  imports Anchors
begin

text \<open>
  Header rules of the RandomX engine (\<open>consensus/randomx/randomx.go\<close>): the seal hash, the
  verification of a seal with its historical exceptions, the verification of a header, the
  difficulty of the next block, seeds and epochs; and the extra-data rule of
  \<open>consensus/misc/dao.go\<close>. The RandomX hash is an argument, one function per epoch.
\<close>

section \<open>Seal hash\<close>

definition int_field :: "int option \<Rightarrow> bytes" where
  "int_field x = (case x of None \<Rightarrow> [] | Some n \<Rightarrow> big_bytes (nat n))"

definition seal_fields :: "header \<Rightarrow> item" where
  "seal_fields h =
     Lst [Str (hash_bytes (ParentHash h)), Str (hash_bytes (UncleHash h)), Str (addr_bytes (Coinbase h)),
          Str (hash_bytes (Root h)), Str (hash_bytes (TxHash h)), Str (hash_bytes (ReceiptHash h)),
          Str (Bloom h), Str (int_field (Difficulty h)), Str (int_field (Number h)),
          Str (big_bytes (unat (GasLimit h))), Str (big_bytes (unat (GasUsed h))),
          Str (big_bytes (unat (Time h))), Str (Extra h)]"

text \<open>A negative integer is an encoding error, after which nothing has been written to the hasher.\<close>

definition SealHash :: "(bytes \<Rightarrow> hash) \<Rightarrow> header \<Rightarrow> hash" where
  "SealHash keccak h =
     (if (case Difficulty h of None \<Rightarrow> False | Some d \<Rightarrow> d < 0) \<or> (case Number h of None \<Rightarrow> False | Some n \<Rightarrow> n < 0)
      then keccak []
      else keccak (EncodeToBytes (seal_fields h)))"

definition randomXHash :: "(bytes \<Rightarrow> hash) \<Rightarrow> (bytes \<Rightarrow> hash) \<Rightarrow> header \<Rightarrow> int \<times> hash" where
  "randomXHash keccak vm h =
     (let out = vm (hash_bytes (SealHash keccak h) @ Nonce h) in (uint out, out))"

section \<open>Seals\<close>

datatype seal_error =
    MissingNumber | NonPositiveDifficulty | EmptyMixDigest | EmptyNonce | NoVM | MixDigestMismatch
  | ResultAboveTarget | BadDAOExtra | AnchorError anchor_error

definition maxUint256 :: int where "maxUint256 = 2 ^ 256"

definition meetsMoneroDifficulty :: "hash \<Rightarrow> int option \<Rightarrow> bool" where
  "meetsMoneroDifficulty hash difficulty =
     (case difficulty of
        None \<Rightarrow> False
      | Some d \<Rightarrow> 0 < d \<and> int (be_nat (rev (hash_bytes hash))) * d < maxUint256)"

definition verifyMoneroProof :: "(bytes \<Rightarrow> hash) \<Rightarrow> (bytes \<Rightarrow> hash) \<Rightarrow> header \<Rightarrow> seal_error option" where
  "verifyMoneroProof keccak vm h =
     (let hash = snd (randomXHash keccak vm h)
      in if MixDigest h \<noteq> hash then Some MixDigestMismatch
         else if \<not> meetsMoneroDifficulty hash (Difficulty h) then Some ResultAboveTarget
         else None)"

definition validProof :: "(bytes \<Rightarrow> hash) \<Rightarrow> (bytes \<Rightarrow> hash) \<Rightarrow> header \<Rightarrow> int \<Rightarrow> bool" where
  "validProof keccak vm h target \<longleftrightarrow> fst (randomXHash keccak vm h) \<le> target"

definition validProofWithNonceVariants :: "(bytes \<Rightarrow> hash) \<Rightarrow> (bytes \<Rightarrow> hash) \<Rightarrow> header \<Rightarrow> int \<Rightarrow> bool" where
  "validProofWithNonceVariants keccak vm h target \<longleftrightarrow>
     validProof keccak vm h target \<or> fst (randomXHash keccak vm (h\<lparr>Nonce := rev (Nonce h)\<rparr>)) \<le> target"

definition requiresStrictSealFields :: "u64 \<Rightarrow> bool" where
  "requiresStrictSealFields number \<longleftrightarrow> 7888 \<le> number"

definition postPrivacyGapStoredMixDigestCompatCheckpoints :: "u64 \<rightharpoonup> hash" where
  "postPrivacyGapStoredMixDigestCompatCheckpoints =
     map_of [
      (20179, 0xba8a7984e885eab29ff3042259233cdfef808aa5869ccb5caf0e24ad2e826f19),
      (20180, 0x0cde0c10d5247b33ede3675b21740a4d6993e9baf13d900fc9d5a80595ded466),
      (20181, 0xd792880f509cf59bb0e774133809833215b30942eb65d15652006ffcafd28338),
      (20182, 0xa7a668c745267ab51146b841977375f0c76a8fd7fda5ffd149180327847e1467),
      (20183, 0xf0d4a554e28b97fa8826df4b91ebbb573996e573078000d420a3378e677f08c5),
      (20184, 0x5b8a800d1590c469765b19148e5223ba84ceaead9240c726d749a2594b9d62b3),
      (20185, 0x50f9013cecc3af2fc040c5c0d0d885c3b948a4d8976a0358c7381ce61391991d),
      (20186, 0x7c3b6829873eb16a4a67881e00a0e0aa28ae264d36b3be439de3d68eb2f8a633),
      (20187, 0xa261d42d9c405bb53c1a35f1d1a23ddee6ca529a58379d53e0a76fec88afc1ff),
      (20188, 0x08923e04f5aa109f4bf130ccb1d90c90b7f99f100ac0285530bf64c225197815),
      (20189, 0x024487482aded2a57d47e2b7d39457ad4f7f5ff2d654b35739b5936b40de7028),
      (20190, 0x8a61ae9e553e29cde6f6ff9a80b8215e958717b3dc349944c82c7a24d329eee9),
      (20191, 0x0976fd36ca98f5efbb220dbcda79be3d72f6a043163c64f9b16ba822c1ba2479),
      (20192, 0x37eaf319c6b791622b2006d6e19253aff759a72778b2f46bcf0fcdb05e79fcb8),
      (20193, 0x7cd439491b7bb3effb3ea35a671cc3d7e8cb0afed72c6e09a8145a413f1cd18b),
      (20194, 0x612c56757ebc99e75c7632b3ae5c0c37c09db09df23eb1aab55009f3a6d64e0d),
      (20195, 0x2e4f550c5cbdd7b028e94051796d8830981f6a96f99b264e61ce52bd86125716),
      (20196, 0xa4e7119618e5df9966bf1d3c9dbe042f076a83856f7f2ba74030f5e1db5a8ba2),
      (20197, 0x974ace55515e9a23bca74151962c37734d2483f7695c69121de0e250f57f21d9),
      (20198, 0xaee98eef71d771cae0be793c5aa55b82bb7389a87c303245e559d464d0da30de),
      (20199, 0x9e5034b91ae9190cffb5fcd37ad52ebdda75168173c39d4e99343a54e4ad16f0),
      (20200, 0x804d586af4bb4a89fa5fe7079964458c74fc5bced6ce63759d600a6afc5ab8a9),
      (20201, 0x7a30a757d0590b7b4c56d77f238c2321283fcbdee8b8d4334d37e60b9ba939a2),
      (20202, 0xa74977f01eab34e64431a6321c380d0656430a3262d9e1a640912a4516ac4d0e),
      (20203, 0xdf54e60862c2c5a2dcba016e12f211a6409715d4ba7fc712c3941a1486d1d924),
      (20204, 0xbefe93d86cb9ef86cdab621c0230421ff08c400d5a3287f8c79c9c8346976631),
      (20205, 0x1b40ef16292c20ce5f727011cd13521adb079c40ed1f13059774c753dab4726c),
      (20206, 0x725d7d5af973db7ca57da08aa4f5efef8c90ff853b588fb8ecd8c86a96297a0d),
      (20207, 0xf49ed9bc9c273371c0c95db83ddef46d1f4116c76dffde6d1361189881d10637),
      (20208, 0xb9bc66a1e1d91a95fa0537b9cce94d896a23969b65b3dc13ea69e7f604be60e1),
      (20209, 0xba5977df68bcf2522e61170e6c538a65097e2e7247303442c99912dff203861c),
      (20210, 0xcfb7a8edddc1c276d882aac5090c3418cd8b5577b4a80a3629ebbdd4b285855b),
      (20211, 0x5658a264caae095fbf524d5cafb15dc181084f4823bead5eb0ee8a713b5dcc92),
      (20212, 0x73e126fc6eae97799ca6cafa0a87b6cdce6e992fa966e23139c211e5da7b8a55),
      (20213, 0x1851a23a5cd3d8df159d6f86ef9a75de3adc0e5fbd050cbe2a6225cfa6590da6),
      (20214, 0x44f2dee9003008d78f6360d5ccd51ff49d768470e2c44dba19b949fc41aa2a8b),
      (20215, 0xe2adb549ccb8baf59e93e11804c3015273271beefd1537c7558fd9712b7761a5),
      (20216, 0x0fda89d2132dce6e2e806bb867c9777a2eae3f9cfbf51bca5ef0f78f9582ac7e),
      (20217, 0x4cdcb417ac3b6d60c1d70455be389642036f462488c12830ea5423fb0578a3e6),
      (20218, 0x731f756599fa738b71f7d2c6f88ce29c60936f43289a323c656d661b9708d9ca),
      (20219, 0x2a685565781f68cd2e58a1c4f279fda069135095ac84b4af1e5609fed6d8ebab),
      (20220, 0xc7afeaf23abdd95e4bc9bdf7ff3e12c5d7ce77eac8e03e083d4adc6886a4df47),
      (20221, 0x0934ae091a3896fbb77f59593ead421a007fe04040ecf96d5dd27de5c479c2f2),
      (20222, 0x4468b53588b2de6d7eb84755f6f8be3b2379e0af3a709784a8a26912ccb2fe09),
      (20223, 0x9b1c7cc401be97f387a75180797e42dc671cffc86cf9511739673f47a999033a),
      (20224, 0x7c23ec1a127842e4c385509412a1addc3d7a3e63f728871c54e1ccb86fdace59),
      (20225, 0x23ff90146789000e37a52ba46d4590736639ee8fdaba2ac3b4aafc857d32b564),
      (20226, 0xe87fa0c95429ecc40c784dd2958d925222aa0d0debb86f01cc3a67027f72a3bc),
      (20227, 0xbbb0e77b0c8a35491d6a57a7d73c6c0080d8c6af5b5824278a046ba3f6c1c0d6),
      (20228, 0x69a2d4417086303df6d1c3cbf7ae1154a380db22b7747fd3e83ae81a1ba316bb),
      (20229, 0x289ad6a53f84258fe3a626f8c7a45df0b62af012e470eb173f2ec56192b85241),
      (20230, 0x2fc5ab283ce18306d4cfea53a9fb003b42fd685effcdbe352b0e2182098a1baf),
      (20231, 0xc8d39c66210c06eb059ea167b3f9d6eca2b1c961a8179caff8e69173eea6c448),
      (20232, 0x19397d4dd32167cc9fb43346ced2f915f0f642e057d71f24a27c702fb8225e3e),
      (20233, 0xf471fd7e58873db042901bb01f99ab5b72583a2759cddfdf0f54206bb05847be),
      (20234, 0x164ef029d759b548d75f99d965c03b7e8477341ef962c4b262ae33d7c2b85fdd),
      (20235, 0xb6fc3d2ae0aaba737e62e294597c438f8c2e12baeaeb7cdc37dd3b7e4adf97ac),
      (20236, 0x0114c01d985da734a2a8d3ad4ee137f94107230c5ab1d527b2b75d8d048a00e9),
      (20237, 0xa6866c6723ece700a365ddc7793246b4cb4df93053578da386b147256ef0f441),
      (20238, 0x6c04dcb023b4e8b1b0444322d1a173bc5e61952fd62c91329b9f84975720941c),
      (20239, 0x7a9908be27fc17404429cd3d2bee8673716fcd7a5b7be9900ff8d4b7fc19b82a),
      (20240, 0xb93c5703d00b30b1d66aab69874a7a4b8cc2f50bdd00753c8ae5988447be955c),
      (20241, 0x38472ebe28b0044f636e9c97fce3ab8b995398116223d1e3c90e08bb18619765),
      (20242, 0xf783f3d00e6cdd5303eceef355343757dd7aeb474256590cab0fb2c9b9997733),
      (20243, 0x8a068fab0b7349b7ff12299ae1c8a5414743c33860f834af951901cc81a183c6),
      (20244, 0xb7e535fa74fbddc2d7704d3606a78c2536bd50e21dfaa2a76a7af4babb48a51c),
      (20245, 0xfc3c724df50ac9abe9105b1f36cf683eaa99bd232e7791fe893a639f6ecbe3ea),
      (20246, 0x154321c94b107d58265a32bd2aabd738ceebad9737bda9654e85fb3e7e5bd9d4),
      (20247, 0x799f03b68c8bc9447d94dc92641b63fb0cce7ea19217269da822aa7f4fb1fa25),
      (20248, 0x5259316ad595f8a85aacc567f640963a0e04bc4c1d5c0750044a87b7c05a4b3b),
      (20249, 0x3b411050254617d7d1f3a748a69b04a129685e851c16a5ce171e6b6ef4d69714),
      (20250, 0x4b0a8c197555bd3a2f31836bfb320829542bff2a39bd6abf49fee1e286eb5125),
      (20251, 0x5fe26b9bfb1c1dd96af63f88d6a233d1150167a5cc0bab30e63334fe32468f2a),
      (20252, 0xf0a657946af44d1c723d75faf4d70a1c2ed3a02b337bd2b8916fce3c0b713922),
      (20253, 0xc0b636c5925bf6d4dbdd301e2446463300252863908a550e3d01799f2add2749),
      (20254, 0xa0522928b331b8102a3289dc7bf20aaa507c15f234ded5f868ad1cd7569d0e46),
      (20255, 0x24a1fa59e7fd895a505edf1f07ec6862bf9368b5f074f658410f23de8751d6ce),
      (20256, 0xe2fee3b5bc301881cec560a7347d6d123236dd319a5c39ed141b5de749f00766),
      (20257, 0x519890e0b47f4e9a6f786fe415e7175d4075c04be56fa0ab6d6cb6ae1062c255),
      (20258, 0x6211040cf3a0b7fef242482c6d027d63c7776e06ed704d4609793004f414757f),
      (20259, 0x23e4050af7571711d2c508c738b0699f46c61f86c465d3bcd88d5b95fd74409a),
      (20260, 0xbdc8141ea8c384ad85d9d89e98cb5bee72a2293df73afcb248257bdc95253481),
      (20261, 0xf8b43cc91baf5bd363466d827ee24e86a18a10f8c73811f8baf472faa9b4d1ef),
      (20262, 0xa9bf672918ef526426b95567f1074d9581838f17c158992b837823bbd13d2655),
      (20263, 0xf1e85f7f0450a6c12b53e93f4b56b2f20c243e7e5ca4f5eaefc17373ca49f139),
      (20264, 0x785ec1f8a9d903a44dfb38147aac83a17c4191fc5e8858ec98e56896c6f1a11e),
      (20265, 0xd89e4f9a772cb91e8a9bf4add699017e071eaaa9915174d15b38192ffe6dba40),
      (20266, 0x0f2320687171d71804086b1e6bea44375bfb640a86a1ccf038ace383033ed989),
      (20369, 0xbe28029213fd28ad8393a3f2ee76982441d2e4de09b0b3d3b5e77cdfff4533e2),
      (20370, 0xc53450d9108bbedf82a74dfa063277f0072b8320bb35fe7dedd34624d94d4434),
      (20371, 0x582809dbdc5f1ea71c5565497e925e7af2fead9f19f4c81b795e11c82852f539),
      (20372, 0x44c6076c7abbec0cf22742856df7ab9703b1649de99ce72b1701256b156d91bd),
      (20373, 0x6386f2bea3d034883ce29af5777408caeb3ecc8e055f25af79c8098d8de3fcea)]"

text \<open>\<open>checkpoints\<close> is the table of \<open>params.GetCheckpoint\<close>, \<open>hashf\<close> the hash of a header.\<close>

definition allowStoredMixDigestProof ::
    "(u64 \<rightharpoonup> hash) \<Rightarrow> (header \<Rightarrow> hash) \<Rightarrow> header \<Rightarrow> bool \<Rightarrow> bool" where
  "allowStoredMixDigestProof checkpoints hashf h kyoto =
     (if \<not> kyoto then True
      else
        (case Number h of
           None \<Rightarrow> False
         | Some n \<Rightarrow>
             let number = big_u64 n;
                 inPrivacyQuantumCompat = 20142 \<le> number \<and> number \<le> 20145;
                 inPostPrivacyGapCompat = 20179 \<le> number \<and> number \<le> 20373
             in if number \<le> 8192 then True
                else if \<not> inPrivacyQuantumCompat \<and> \<not> inPostPrivacyGapCompat then False
                else if inPostPrivacyGapCompat
                then postPrivacyGapStoredMixDigestCompatCheckpoints number = Some (hashf h)
                else checkpoints number = Some (hashf h)))"

definition validStoredMixDigest :: "header \<Rightarrow> int \<Rightarrow> bool" where
  "validStoredMixDigest h target \<longleftrightarrow> MixDigest h \<noteq> 0 \<and> uint (MixDigest h) \<le> target"

text \<open>
  The engine: its flags, its epoch length, the configuration of its own chain,
  the machines it can create for an epoch (the usual one and
  the legacy one with full memory, None when creation fails) and the checkpoints.
\<close>

record engine =
  en_chain :: "chain_config option"
  en_fullFake :: bool
  en_closed :: bool
  en_EpochLength :: "u64 option"
  en_vm :: "u64 \<Rightarrow> (bytes \<Rightarrow> hash) option"
  en_legacyVM :: "u64 \<Rightarrow> (bytes \<Rightarrow> hash) option"
  en_checkpoints :: "u64 \<rightharpoonup> hash"

definition epoch :: "engine \<Rightarrow> u64 \<Rightarrow> u64" where
  "epoch rx blockNum =
     blockNum div (case en_EpochLength rx of Some l \<Rightarrow> if 0 < l then l else 2048 | None \<Rightarrow> 2048)"

definition epochForBlock :: "engine \<Rightarrow> chain_config option \<Rightarrow> u64 \<Rightarrow> u64" where
  "epochForBlock rx config blockNum =
     (case config of
        Some c \<Rightarrow>
          (case RandomXTxBlock c of
             Some a \<Rightarrow> epoch rx (if big_u64 a \<le> blockNum then blockNum - big_u64 a else 0)
           | None \<Rightarrow> epoch rx blockNum)
      | None \<Rightarrow> epoch rx blockNum)"

definition VerifySeal ::
    "(bytes \<Rightarrow> hash) \<Rightarrow> (header \<Rightarrow> hash) \<Rightarrow> engine \<Rightarrow> chain_config option \<Rightarrow> header \<Rightarrow> seal_error option" where
  "VerifySeal keccak hashf rx config h =
     (if en_fullFake rx \<or> en_closed rx then None
      else
        (case Number h of
           None \<Rightarrow> Some MissingNumber
         | Some n \<Rightarrow>
             let num = big_u64 n;
                 monero = (case config of None \<Rightarrow> False | Some c \<Rightarrow> IsRandomXMonero c (Number h));
                 kyoto = (case config of None \<Rightarrow> False | Some c \<Rightarrow> IsKyoto c (Number h) (Time h))
             in if num = 0 then None
                else if (case config of None \<Rightarrow> False | Some c \<Rightarrow> \<not> IsRandomXTx c (Number h)) then None
                else
                  (case Difficulty h of
                     None \<Rightarrow> Some NonPositiveDifficulty
                   | Some d \<Rightarrow>
                       if d \<le> 0 then Some NonPositiveDifficulty
                       else if MixDigest h = 0 then Some EmptyMixDigest
                       else if \<not> monero \<and> requiresStrictSealFields num \<and> Nonce h = replicate 8 0 then Some EmptyNonce
                       else
                         (case en_vm rx (epochForBlock rx config num) of
                            None \<Rightarrow> Some NoVM
                          | Some vm \<Rightarrow>
                              let target = maxUint256 div d
                              in if monero then verifyMoneroProof keccak vm h
                                 else if validProof keccak vm h target then None
                                 else if validProofWithNonceVariants keccak vm h target then None
                                 else if allowStoredMixDigestProof (en_checkpoints rx) hashf h kyoto \<and>
                                         validStoredMixDigest h target then None
                                 else
                                   (case en_legacyVM rx (epochForBlock rx config num) of
                                      Some vm \<Rightarrow>
                                        if validProofWithNonceVariants keccak vm h target then None
                                        else Some ResultAboveTarget
                                    | None \<Rightarrow> Some ResultAboveTarget)))))"

section \<open>Headers\<close>

definition DAOForkBlockExtra :: bytes where
  "DAOForkBlockExtra = str_bytes ''dao-hard-fork''"

text \<open>The DAO fork block and whether it is supported are the two fields of the configuration.\<close>

definition VerifyDAOHeaderExtraData :: "int option \<Rightarrow> bool \<Rightarrow> int \<Rightarrow> bytes \<Rightarrow> seal_error option" where
  "VerifyDAOHeaderExtraData DAOForkBlock DAOForkSupport number extra =
     (case DAOForkBlock of
        None \<Rightarrow> None
      | Some b \<Rightarrow>
          if number < b \<or> b + 10 \<le> number then None
          else if DAOForkSupport then (if extra \<noteq> DAOForkBlockExtra then Some BadDAOExtra else None)
          else (if extra = DAOForkBlockExtra then Some BadDAOExtra else None))"

text \<open>
  \<open>dao\<close> holds the two DAO fields of the configuration. A chain reader has a configuration:
  \<open>chain\<close> is None for a nil chain only, so that the seal is checked under the configuration of
  the chain or, without a chain, of the engine.
\<close>

definition verifyHeader ::
    "(bytes \<Rightarrow> hash) \<Rightarrow> (header \<Rightarrow> hash) \<Rightarrow> engine \<Rightarrow> int option \<times> bool \<Rightarrow> header_chain \<Rightarrow> header \<Rightarrow> header list \<Rightarrow>
     seal_error option" where
  "verifyHeader keccak hashf rx dao chain h parents =
     (case Number h of
        None \<Rightarrow> Some MissingNumber
      | Some n \<Rightarrow>
          (case (case chain of None \<Rightarrow> None | Some _ \<Rightarrow> VerifyDAOHeaderExtraData (fst dao) (snd dao) n (Extra h)) of
             Some e \<Rightarrow> Some e
           | None \<Rightarrow>
               (case verifyBlockHashAnchor keccak hashf chain h parents of
                  Some e \<Rightarrow> Some (AnchorError e)
                | None \<Rightarrow>
                    if en_fullFake rx then None
                    else if n = 0 then None
                    else VerifySeal keccak hashf rx (case chain of None \<Rightarrow> en_chain rx | Some c \<Rightarrow> Some (fst c)) h)))"

definition VerifyHeaders ::
    "(bytes \<Rightarrow> hash) \<Rightarrow> (header \<Rightarrow> hash) \<Rightarrow> engine \<Rightarrow> int option \<times> bool \<Rightarrow> header_chain \<Rightarrow> header list \<Rightarrow>
     seal_error option list" where
  "VerifyHeaders keccak hashf rx dao chain headers =
     map (\<lambda>i. verifyHeader keccak hashf rx dao chain (headers ! i) (take i headers)) [0..<length headers]"

section \<open>Difficulty\<close>

definition GenesisDifficulty :: int where "GenesisDifficulty = 3"
definition MinDifficulty :: int where "MinDifficulty = 1310"
definition EDAMinDifficulty :: int where "EDAMinDifficulty = 16"
definition MaxDifficulty :: int where "MaxDifficulty = 10 ^ 30"
definition TargetBlockTime :: u64 where "TargetBlockTime = 120"
definition EDAThreshold :: u64 where "EDAThreshold = 420"
definition EgyptEDAThreshold :: u64 where "EgyptEDAThreshold = 30"

fun eda_loop :: "(int \<Rightarrow> int) \<Rightarrow> int \<Rightarrow> nat \<Rightarrow> int \<Rightarrow> int" where
  "eda_loop reduce minDiff 0 newDiff = newDiff"
| "eda_loop reduce minDiff (Suc i) newDiff =
     (if reduce newDiff \<le> minDiff then minDiff else eda_loop reduce minDiff i (reduce newDiff))"

definition applyMainnetEDAReductions :: "int \<Rightarrow> u64 \<Rightarrow> int \<Rightarrow> int" where
  "applyMainnetEDAReductions currentDiff reductions minDiff =
     eda_loop (\<lambda>d. d * 75 div 100) minDiff (unat reductions) currentDiff"

definition applyEDAReductions :: "int \<Rightarrow> u64 \<Rightarrow> int \<Rightarrow> int" where
  "applyEDAReductions currentDiff reductions minDiff =
     eda_loop (\<lambda>d. d div 4) minDiff (unat reductions) currentDiff"

text \<open>A change, capped at a quarter and at least one.\<close>

definition phone_adjustment :: "int \<Rightarrow> u64 \<Rightarrow> u64 \<Rightarrow> int" where
  "phone_adjustment currentDiff delta divisor =
     (let adjustment = currentDiff * uint delta div uint divisor;
          maxChange = currentDiff div 4;
          adjustment = (if maxChange < adjustment then maxChange else adjustment)
      in if adjustment = 0 then 1 else adjustment)"

definition calcPhoneDifficulty :: "int \<Rightarrow> u64 \<Rightarrow> u64 \<Rightarrow> int \<Rightarrow> int" where
  "calcPhoneDifficulty currentDiff blockTime targetTime minDiff =
     (if currentDiff \<le> 0 then minDiff
      else if blockTime = 0 then currentDiff
      else
        let targetTime = (if targetTime = 0 then TargetBlockTime else targetTime);
            newDiff =
              (if targetTime < blockTime then
                 let d = currentDiff - phone_adjustment currentDiff (blockTime - targetTime) (targetTime * 8)
                 in if EDAThreshold \<le> blockTime \<and> 1 < blockTime div EDAThreshold
                    then applyMainnetEDAReductions d (blockTime div EDAThreshold - 1) minDiff else d
               else if blockTime < targetTime then
                 currentDiff + phone_adjustment currentDiff (targetTime - blockTime) (targetTime * 4)
               else currentDiff)
        in if newDiff < minDiff then minDiff
           else if MaxDifficulty < newDiff then MaxDifficulty else newDiff)"

definition EgyptChainID :: int where "EgyptChainID = 8980"

definition isEgyptConfig :: "chain_config \<Rightarrow> bool" where
  "isEgyptConfig config \<longleftrightarrow> ChainID config = Some EgyptChainID"

definition ratio_difficulty :: "int \<Rightarrow> u64 \<Rightarrow> int" where
  "ratio_difficulty currentDiff diff =
     (let ratio = uint TargetBlockTime * 100 div uint diff;
          ratio = (if 200 < ratio then 200 else ratio);
          ratio = (if ratio < 50 then 50 else ratio);
          newDiff = currentDiff * ratio div 100
      in if newDiff < MinDifficulty then MinDifficulty
         else if MaxDifficulty < newDiff then MaxDifficulty else newDiff)"

text \<open>The parent has a number and a difficulty; a nil difficulty panics.\<close>

definition rx_CalcDifficulty :: "chain_config option \<Rightarrow> u64 \<Rightarrow> header option \<Rightarrow> int option" where
  "rx_CalcDifficulty config time parent =
     (case parent of
        None \<Rightarrow> Some GenesisDifficulty
      | Some p \<Rightarrow>
          (case (Difficulty p, Number p) of
             (Some currentDiff, Some n) \<Rightarrow>
               let diff = (if Time p < time then time - Time p else Time p - time);
                   next = Some (n + 1);
                   rest = (if TargetBlockTime * 10 < diff then currentDiff
                           else if 0 < diff then ratio_difficulty currentDiff diff
                           else currentDiff)
               in Some
                 (case config of
                    None \<Rightarrow> rest
                  | Some c \<Rightarrow>
                      if IsPhone c next time then calcPhoneDifficulty currentDiff diff TargetBlockTime EDAMinDifficulty
                      else if isEgyptConfig c \<and> EgyptEDAThreshold \<le> diff
                      then applyEDAReductions currentDiff (diff div EgyptEDAThreshold) EDAMinDifficulty
                      else if IsEDA c next time \<and> EDAThreshold \<le> diff
                      then applyMainnetEDAReductions currentDiff (diff div EDAThreshold) EDAMinDifficulty
                      else rest)
           | _ \<Rightarrow> None))"

section \<open>Seeds\<close>

fun seed_loop :: "(bytes \<Rightarrow> hash) \<Rightarrow> nat \<Rightarrow> nat \<Rightarrow> hash \<Rightarrow> hash" where
  "seed_loop keccak i 0 seed = seed"
| "seed_loop keccak i (Suc k) seed =
     seed_loop keccak (Suc i) k
       (if i = 0 then keccak (str_bytes ''randomx_epoch_0_genesis'') else keccak (hash_bytes seed))"

definition seedHash :: "(bytes \<Rightarrow> hash) \<Rightarrow> u64 \<Rightarrow> hash" where
  "seedHash keccak ep =
     (if ep = 0 then keccak (str_bytes ''randomx_epoch_0_genesis'')
      else seed_loop keccak 0 (unat ep) 0)"

section \<open>Samples\<close>

definition seal_config :: chain_config where
  "seal_config = \<lparr>ChainID = Some 1, LondonBlock = Some 0, RandomXTxBlock = Some 0, RandomXMoneroBlock = Some 0,
     EDATime = Some 0, KyotoTime = Some 0, PhoneTime = Some 0, AntarticalTime = None, QuantumResistantTime = None,
     MainKingAddress = 0, PostQuantumMainKingAddress = 0\<rparr>"

definition seal_header :: "int \<Rightarrow> hash \<Rightarrow> header" where
  "seal_header d mix = \<lparr>ParentHash = 0, Coinbase = 0, Difficulty = Some d, Number = Some 5,
     GasLimit = 0, GasUsed = 0, Time = 600, Extra = [], MixDigest = mix, BaseFee = None,
     UncleHash = 0, Root = 0, TxHash = 0, ReceiptHash = 0, Bloom = [], Nonce = [0, 0, 0, 0, 0, 0, 0, 0]\<rparr>"

definition seal_engine :: engine where
  "seal_engine = \<lparr>en_chain = None, en_fullFake = False, en_closed = False, en_EpochLength = None,
     en_vm = (\<lambda>_. Some (\<lambda>_. 1)), en_legacyVM = (\<lambda>_. None), en_checkpoints = Map.empty\<rparr>"

section \<open>Lemmas\<close>

lemma big_bytes_inject [simp]: "big_bytes x = big_bytes y \<longleftrightarrow> x = y"
  by (metis be_nat_big_bytes)

text \<open>The seal hash and the proof do not read the fields that sealing fills in, nor the base fee.\<close>

lemma SealHash_ignores [simp]:
  "SealHash keccak (h\<lparr>MixDigest := m\<rparr>) = SealHash keccak h"
  "SealHash keccak (h\<lparr>Nonce := n\<rparr>) = SealHash keccak h"
  "SealHash keccak (h\<lparr>BaseFee := f\<rparr>) = SealHash keccak h"
  by (simp_all add: SealHash_def seal_fields_def)

lemma meetsMonero_one: "meetsMoneroDifficulty hash (Some 1)"
proof -
  have "be_nat (rev (hash_bytes hash)) < 256 ^ 32"
    using be_nat_bound[of "rev (hash_bytes hash)"] by simp
  then have "int (be_nat (rev (hash_bytes hash))) < int (256 ^ 32)" by (simp only: of_nat_less_iff)
  then show ?thesis by (simp add: meetsMoneroDifficulty_def maxUint256_def)
qed

text \<open>The block hash anchor does not depend on the seal.\<close>

lemma find_parent_seal:
  "find_parent hashf (h\<lparr>Difficulty := d, Nonce := nonce, MixDigest := work\<rparr>) num ps = find_parent hashf h num ps"
  by (induction ps) (auto split: option.split)

lemma verifyBlockHashAnchor_seal:
  "verifyBlockHashAnchor keccak hashf chain (h\<lparr>Difficulty := d, Nonce := nonce, MixDigest := work\<rparr>) ps =
     verifyBlockHashAnchor keccak hashf chain h ps"
  by (simp add: verifyBlockHashAnchor_def find_parent_seal
      cong: option.case_cong sum.case_cong prod.case_cong if_cong)

text \<open>The verification of a seal under the Monero rules.\<close>

lemma VerifySeal_monero:
  assumes "\<not> en_fullFake rx" "\<not> en_closed rx" "Number h = Some n" "big_u64 n \<noteq> 0" "IsRandomXMonero c (Some n)"
  shows "VerifySeal keccak hashf rx (Some c) h = None \<longleftrightarrow>
    (\<exists>vm d. en_vm rx (epochForBlock rx (Some c) (big_u64 n)) = Some vm \<and> Difficulty h = Some d \<and> 0 < d \<and>
       MixDigest h \<noteq> 0 \<and> verifyMoneroProof keccak vm h = None)"
  using assms
  by (auto simp: VerifySeal_def Let_def IsRandomXMonero_def split: option.splits)

lemma verifyHeader_seal:
  assumes "verifyHeader keccak hashf rx dao (Some (c, b, g)) h ps = None" "\<not> en_fullFake rx"
    "Number h = Some n" "n \<noteq> 0"
  shows "VerifySeal keccak hashf rx (Some c) h = None \<and>
    verifyBlockHashAnchor keccak hashf (Some (c, b, g)) h ps = None"
  using assms by (auto simp: verifyHeader_def split: option.splits)

section \<open>Emergency adjustments\<close>

text \<open>Without the test in every round: the loop has reached the minimum or made all reductions.\<close>

lemma eda_loop_funpow:
  assumes "\<And>x y. x \<le> y \<Longrightarrow> reduce x \<le> reduce y" "\<And>x. 0 \<le> x \<Longrightarrow> reduce x \<le> x" "\<And>x. 0 \<le> x \<Longrightarrow> 0 \<le> reduce x" "0 \<le> d"
  shows "eda_loop reduce m (Suc k) d = (if (reduce ^^ Suc k) d \<le> m then m else (reduce ^^ Suc k) d)"
  using assms(4)
proof (induction k arbitrary: d)
  case (Suc k)
  have dec: "(reduce ^^ j) x \<le> x" "0 \<le> (reduce ^^ j) x" if "0 \<le> x" for j x
    using that by (induction j) (use assms(2,3) order_trans in \<open>fastforce\<close>)+
  have shift: "(reduce ^^ Suc (Suc k)) d = (reduce ^^ Suc k) (reduce d)" by (simp only: funpow_Suc_right comp_apply)
  have "(reduce ^^ Suc k) (reduce d) \<le> reduce d" "0 \<le> reduce d" using dec assms(3) Suc.prems by blast+
  then show ?case using Suc.IH[of "reduce d"] unfolding shift by (simp del: funpow.simps)
qed simp

lemma div4_funpow: "((\<lambda>d :: int. d div 4) ^^ k) d = d div 4 ^ k"
  by (induction k) (simp_all add: zdiv_zmult2_eq[symmetric] mult.commute)

lemma applyEDAReductions_closed:
  assumes "0 \<le> d" "k \<noteq> 0"
  shows "applyEDAReductions d k m = (if d div 4 ^ unat k \<le> m then m else d div 4 ^ unat k)"
proof -
  obtain j where "unat k = Suc j" using assms(2) by (cases "unat k") (simp_all add: unat_eq_0)
  then show ?thesis using assms(1) eda_loop_funpow[of "\<lambda>d. d div 4" d m j]
    by (simp add: applyEDAReductions_def div4_funpow zdiv_mono1 pos_imp_zdiv_nonneg_iff del: eda_loop.simps funpow.simps)
qed

lemma eda_loop_bounds:
  assumes "\<And>x. 0 \<le> x \<Longrightarrow> reduce x \<le> x" "0 \<le> m" "m \<le> d"
  shows "m \<le> eda_loop reduce m k d \<and> eda_loop reduce m k d \<le> d"
  using assms(3)
proof (induction k arbitrary: d)
  case (Suc k)
  show ?case using Suc.IH[of "reduce d"] assms(1)[of d] assms(2) Suc.prems by auto
qed simp

lemma reductions_bounds:
  assumes "0 \<le> m" "m \<le> d"
  shows "m \<le> applyMainnetEDAReductions d k m" "applyMainnetEDAReductions d k m \<le> d"
    "m \<le> applyEDAReductions d k m" "applyEDAReductions d k m \<le> d"
  using eda_loop_bounds[of "\<lambda>d. d * 75 div 100" m d "unat k"] eda_loop_bounds[of "\<lambda>d. d div 4" m d "unat k"] assms
  by (auto simp: applyMainnetEDAReductions_def applyEDAReductions_def)

lemma phone_adjustment_bounds:
  assumes "0 < d" "0 < delta" "0 < divisor"
  shows "1 \<le> phone_adjustment d delta divisor" "phone_adjustment d delta divisor \<le> max 1 (d div 4)"
proof -
  have "0 \<le> d * uint delta div uint divisor" using assms by (simp add: pos_imp_zdiv_nonneg_iff word_less_def)
  then show "1 \<le> phone_adjustment d delta divisor" "phone_adjustment d delta divisor \<le> max 1 (d div 4)"
    using assms(1) by (auto simp: phone_adjustment_def Let_def)
qed

text \<open>The difficulty after the Phone fork stays within the limits and moves in the right direction.\<close>

lemma calcPhone_bounds:
  fixes t :: u64
  assumes "16 \<le> d" "d \<le> MaxDifficulty"
  defines "d' \<equiv> calcPhoneDifficulty d t TargetBlockTime EDAMinDifficulty"
  shows "16 \<le> d'" "d' \<le> MaxDifficulty" "d' \<le> d + d div 4"
    and "t \<noteq> 0 \<Longrightarrow> t < TargetBlockTime \<Longrightarrow> d < d' \<or> d' = MaxDifficulty"
    and "TargetBlockTime < t \<Longrightarrow> d' < d \<or> d' = 16"
    and "t = TargetBlockTime \<or> t = 0 \<Longrightarrow> d' = d"
proof -
  have T: "TargetBlockTime * 8 = 960" "TargetBlockTime * 4 = 480" "TargetBlockTime \<noteq> 0" by (simp_all add: TargetBlockTime_def)
  have up: "1 \<le> phone_adjustment d (TargetBlockTime - t) 480" "phone_adjustment d (TargetBlockTime - t) 480 \<le> d div 4"
    if "t < TargetBlockTime"
    using phone_adjustment_bounds[of d "TargetBlockTime - t" 480] that assms(1) by (auto simp: word_gt_0)
  have down: "1 \<le> phone_adjustment d (t - TargetBlockTime) 960" "phone_adjustment d (t - TargetBlockTime) 960 \<le> d div 4"
    if "TargetBlockTime < t"
    using phone_adjustment_bounds[of d "t - TargetBlockTime" 960] that assms(1) by (auto simp: word_gt_0)
  define x where "x = (if TargetBlockTime < t then
      let y = d - phone_adjustment d (t - TargetBlockTime) 960
      in if EDAThreshold \<le> t \<and> 1 < t div EDAThreshold then applyMainnetEDAReductions y (t div EDAThreshold - 1) 16 else y
    else if t < TargetBlockTime then d + phone_adjustment d (TargetBlockTime - t) 480 else d)"
  have d': "d' = (if t = 0 then d else if x < 16 then 16 else if MaxDifficulty < x then MaxDifficulty else x)"
    using assms(1) by (simp add: d'_def calcPhoneDifficulty_def T x_def EDAMinDifficulty_def Let_def)
  have red: "applyMainnetEDAReductions y k 16 \<le> max y 16" for y k
  proof (cases "16 \<le> y")
    case True
    then show ?thesis using reductions_bounds(2)[of 16 y k] by simp
  next
    case False
    then have *: "y * 75 div 100 \<le> 16" by simp
    show ?thesis using False * by (cases "unat k") (auto simp: applyMainnetEDAReductions_def)
  qed
  have xd: "x < d \<or> x \<le> 16" if "TargetBlockTime < t"
    using down[OF that] that red[of "d - phone_adjustment d (t - TargetBlockTime) 960" "t div EDAThreshold - 1"]
    by (auto simp: x_def Let_def)
  have xu: "d < x" "x \<le> d + d div 4" if "t < TargetBlockTime" using up[OF that] that by (auto simp: x_def)
  have xe: "x = d" if "t = TargetBlockTime" using that by (simp add: x_def)
  have big: "(16 :: int) \<le> MaxDifficulty" by (simp add: MaxDifficulty_def)
  show "16 \<le> d'" "d' \<le> MaxDifficulty" using d' assms(1,2) big by auto
  show "d' \<le> d + d div 4" using d' assms(1) xd xu xe by (cases t TargetBlockTime rule: linorder_cases) fastforce+
  show "t \<noteq> 0 \<Longrightarrow> t < TargetBlockTime \<Longrightarrow> d < d' \<or> d' = MaxDifficulty" using d' xu assms(1) by auto
  show "TargetBlockTime < t \<Longrightarrow> d' < d \<or> d' = 16" using d' xd assms(1,2) by auto
  show "t = TargetBlockTime \<or> t = 0 \<Longrightarrow> d' = d" using d' xe assms(1,2) by auto
qed

lemma ratio_bounds: "1310 \<le> ratio_difficulty d t \<and> ratio_difficulty d t \<le> MaxDifficulty"
  by (simp add: ratio_difficulty_def Let_def MinDifficulty_def MaxDifficulty_def)

lemma seed_loop_iterate:
  "0 < i \<Longrightarrow> seed_loop keccak i k seed = ((\<lambda>s. keccak (hash_bytes s)) ^^ k) seed"
  by (induction k arbitrary: i seed) (simp_all add: funpow_Suc_right comp_apply del: funpow.simps(2))

text \<open>The seeds are an iterated hash; the first two epochs have the same one.\<close>

lemma seedHash_iterate:
  "seedHash keccak ep = ((\<lambda>s. keccak (hash_bytes s)) ^^ (unat ep - 1)) (keccak (str_bytes ''randomx_epoch_0_genesis''))"
  by (cases "unat ep") (auto simp: seedHash_def seed_loop_iterate unat_eq_0)

section \<open>Properties\<close>

text \<open>
  C36: The seal hash binds the thirteen fields it covers. Two headers with non-negative number and
  difficulty and the same seal hash agree on all of them, when the hash function does not collide
  on their encodings.
\<close>

theorem seal_hash_binds:
  assumes "SealHash keccak h = SealHash keccak h'"
    and "Difficulty h = Some d" "Number h = Some n" "0 \<le> d" "0 \<le> n"
    and "Difficulty h' = Some d'" "Number h' = Some n'" "0 \<le> d'" "0 \<le> n'"
    and "length (enc (seal_fields h)) < 2 ^ 64" "length (enc (seal_fields h')) < 2 ^ 64"
    and "inj_on keccak {EncodeToBytes (seal_fields h), EncodeToBytes (seal_fields h')}"
  shows "ParentHash h = ParentHash h' \<and> UncleHash h = UncleHash h' \<and> Coinbase h = Coinbase h' \<and> Root h = Root h' \<and>
    TxHash h = TxHash h' \<and> ReceiptHash h = ReceiptHash h' \<and> Bloom h = Bloom h' \<and> d = d' \<and> n = n' \<and>
    GasLimit h = GasLimit h' \<and> GasUsed h = GasUsed h' \<and> Time h = Time h' \<and> Extra h = Extra h'"
proof -
  have "keccak (EncodeToBytes (seal_fields h)) = keccak (EncodeToBytes (seal_fields h'))"
    using assms(1-9) by (simp add: SealHash_def)
  then have "EncodeToBytes (seal_fields h) = EncodeToBytes (seal_fields h')"
    by (rule inj_onD[OF assms(12)]) simp_all
  then have "enc (seal_fields h) = enc (seal_fields h')"
    using EncodeToBytes_enc[OF assms(10)] EncodeToBytes_enc[OF assms(11)] by simp
  from enc_inj[OF this assms(10)] show ?thesis
    using assms(2-9) by (simp add: seal_fields_def int_field_def eq_nat_nat_iff word_unat_eq_iff)
qed

theorem seal_hash_binds_witness:
  "Time (seal_header 7 0) = Time (seal_header 7 1) \<and> Coinbase (seal_header 7 0) = Coinbase (seal_header 7 1)"
proof -
  have len: "length (enc (seal_fields (seal_header 7 m))) < 2 ^ 64" for m
    by (simp add: seal_fields_def seal_header_def int_field_def Let_def Rlp.header_def
        big_bytes.simps [of 0] big_bytes.simps [of "numeral n" for n])
  have "seal_header 7 1 = (seal_header 7 0)\<lparr>MixDigest := 1\<rparr>" by (simp add: seal_header_def)
  then have "SealHash bytes_hash (seal_header 7 0) = SealHash bytes_hash (seal_header 7 1)" by simp
  moreover have "seal_fields (seal_header 7 0) = seal_fields (seal_header 7 1)" by (simp add: seal_fields_def seal_header_def)
  ultimately show ?thesis
    using seal_hash_binds[of bytes_hash "seal_header 7 0" "seal_header 7 1" 7 5 7 5] len
    by (simp add: seal_header_def)
qed

text \<open>
  C14: Under the Monero rules a verified header carries a proof of work. When an open engine that is not
  a fake accepts a batch of headers, every header of the batch in the range of these rules has as
  mix digest the RandomX hash of its seal hash and nonce under the machine of its epoch, and this
  hash, read as a little-endian number, times the difficulty is below 2^256.
\<close>

theorem monero_seal_sound:
  assumes "\<not> en_fullFake rx" "\<not> en_closed rx"
    and "VerifyHeaders keccak hashf rx dao (Some (c, b, g)) hs ! i = None" "i < length hs"
    and "Number (hs ! i) = Some n" "0 < n" "n < 2 ^ 64" "IsRandomXMonero c (Some n)"
  shows "\<exists>vm d. en_vm rx (epochForBlock rx (Some c) (big_u64 n)) = Some vm \<and> Difficulty (hs ! i) = Some d \<and> 0 < d \<and>
    MixDigest (hs ! i) = vm (hash_bytes (SealHash keccak (hs ! i)) @ Nonce (hs ! i)) \<and>
    int (be_nat (rev (hash_bytes (MixDigest (hs ! i))))) * d < 2 ^ 256"
proof -
  have v: "verifyHeader keccak hashf rx dao (Some (c, b, g)) (hs ! i) (take i hs) = None"
    using assms(3,4) by (simp add: VerifyHeaders_def)
  have "uint (big_u64 n) = n" using assms(6,7) by (simp add: big_u64_def uint_word_of_int_eq take_bit_int_eq_self)
  then have "big_u64 n \<noteq> 0" using assms(6) by auto
  then show ?thesis
    using verifyHeader_seal[OF v assms(1,5)] assms(6) VerifySeal_monero[OF assms(1,2,5) _ assms(8)]
    by (auto simp: verifyMoneroProof_def randomXHash_def meetsMoneroDifficulty_def maxUint256_def Let_def
        split: if_splits option.splits)
qed

theorem monero_seal_sound_witness:
  "VerifyHeaders (\<lambda>_. 0) (\<lambda>_. 0) seal_engine (None, False) (Some (seal_config, False, \<lambda>_ _. None)) [seal_header 1 1] ! 0 = None \<and>
   MixDigest (seal_header 1 1) = 1"
proof -
  have v: "VerifyHeaders (\<lambda>_. 0) (\<lambda>_. 0) seal_engine (None, False) (Some (seal_config, False, \<lambda>_ _. None))
      [seal_header 1 1] ! 0 = None"
    by (simp add: VerifyHeaders_def verifyHeader_def VerifyDAOHeaderExtraData_def verifyBlockHashAnchor_def VerifySeal_def
        seal_header_def seal_config_def seal_engine_def fork_defs big_u64_def verifyMoneroProof_def randomXHash_def
        meetsMonero_one)
  from monero_seal_sound[OF _ _ v, of 5] v show ?thesis
    by (simp add: seal_engine_def seal_header_def seal_config_def fork_defs)
qed

text \<open>
  C39: The difficulty of a header is not verified. Take a header above the genesis block under the
  Monero rules that passes the checks of the DAO extra data and of the block hash anchor, on a chain
  with or without RandomX rules, and an open engine, not a fake, that has a machine for its epoch.
  Whatever difficulty the rules ask for, the same header with the difficulty 1 is accepted with every
  nonce whose RandomX hash is not zero, once the mix digest is set to this hash.
\<close>

theorem header_difficulty_unchecked:
  assumes "\<not> en_fullFake rx" "\<not> en_closed rx" "Number h = Some n" "0 < n" "n < 2 ^ 64" "IsRandomXMonero c (Some n)"
    and "VerifyDAOHeaderExtraData (fst dao) (snd dao) n (Extra h) = None"
    and "verifyBlockHashAnchor keccak hashf (Some (c, b, g)) h ps = None"
    and "en_vm rx (epochForBlock rx (Some c) (big_u64 n)) = Some vm"
    and "work = vm (hash_bytes (SealHash keccak (h\<lparr>Difficulty := Some 1\<rparr>)) @ nonce)" "work \<noteq> 0"
  shows "verifyHeader keccak hashf rx dao (Some (c, b, g))
    (h\<lparr>Difficulty := Some 1, Nonce := nonce, MixDigest := work\<rparr>) ps = None"
proof -
  let ?h = "h\<lparr>Difficulty := Some 1, Nonce := nonce, MixDigest := work\<rparr>"
  have "uint (big_u64 n) = n" using assms(4,5) by (simp add: big_u64_def uint_word_of_int_eq take_bit_int_eq_self)
  then have nz: "big_u64 n \<noteq> 0" using assms(4) by auto
  have "verifyMoneroProof keccak vm ?h = None"
    using assms(10) meetsMonero_one by (simp add: verifyMoneroProof_def randomXHash_def Let_def)
  then have "VerifySeal keccak hashf rx (Some c) ?h = None"
    using VerifySeal_monero[of rx ?h n c keccak hashf] assms nz by auto
  moreover have "verifyBlockHashAnchor keccak hashf (Some (c, b, g)) ?h ps = None"
    using assms(8) by (simp add: verifyBlockHashAnchor_seal)
  ultimately show ?thesis using assms(1,3,4,7) by (simp add: verifyHeader_def)
qed

theorem header_difficulty_unchecked_witness:
  "verifyHeader (\<lambda>_. 0) (\<lambda>_. 0) seal_engine (None, False) (Some (seal_config, True, \<lambda>_ _. None))
     ((seal_header 1000000 0)\<lparr>Difficulty := Some 1, Nonce := [9], MixDigest := 1\<rparr>) [] = None"
  using header_difficulty_unchecked[of seal_engine "seal_header 1000000 0" 5 seal_config "(None, False)"
      "\<lambda>_. 0" "\<lambda>_. 0" True "\<lambda>_ _. None" "[]" "\<lambda>_. 1" 1 "[9]"]
  by (simp add: seal_engine_def seal_header_def seal_config_def fork_defs VerifyDAOHeaderExtraData_def
      verifyBlockHashAnchor_def BlockHashAnchorFromHeaderExtra_def)

text \<open>
  C35: Difficulty stays in range and follows the block time. From a parent with a difficulty between
  16 and 10^30, the next difficulty is computed without a panic and lies in that range again under
  every fork; after the Phone fork it rises by at most a quarter, rises after a fast block, falls
  after a slow one (down to 16) and stays at the target time. The emergency reduction of the test
  network, a loop of divisions, is one division by a power of four.
\<close>

theorem difficulty_rule:
  assumes "Difficulty p = Some d" "Number p = Some n" "16 \<le> d" "d \<le> MaxDifficulty"
  shows "\<exists>d'. rx_CalcDifficulty config time (Some p) = Some d' \<and> 16 \<le> d' \<and> d' \<le> MaxDifficulty \<and>
    (\<forall>c. config = Some c \<and> IsPhone c (Some (n + 1)) time \<longrightarrow>
       d' \<le> d + d div 4 \<and>
       (Time p < time \<and> time - Time p < TargetBlockTime \<longrightarrow> d < d' \<or> d' = MaxDifficulty) \<and>
       (Time p < time \<and> TargetBlockTime < time - Time p \<longrightarrow> d' < d \<or> d' = 16) \<and>
       (Time p < time \<and> time - Time p = TargetBlockTime \<longrightarrow> d' = d)) \<and>
    (\<forall>k m. k \<noteq> 0 \<longrightarrow> applyEDAReductions d k m = (if d div 4 ^ unat k \<le> m then m else d div 4 ^ unat k))"
proof -
  define t where "t = (if Time p < time then time - Time p else Time p - time)"
  have nz: "t \<noteq> 0" if "Time p < time" using that by (auto simp: t_def)
  have range: "16 \<le> applyMainnetEDAReductions d k 16" "applyMainnetEDAReductions d k 16 \<le> MaxDifficulty"
    "16 \<le> applyEDAReductions d k 16" "applyEDAReductions d k 16 \<le> MaxDifficulty" for k
    using reductions_bounds[of 16 d k] assms(3,4) by auto
  note phone = calcPhone_bounds[OF assms(3,4), of t] and ratio = ratio_bounds[of d t]
  have eda: "\<forall>k m. k \<noteq> 0 \<longrightarrow> applyEDAReductions d k m = (if d div 4 ^ unat k \<le> m then m else d div 4 ^ unat k)"
    using applyEDAReductions_closed assms(3) by simp
  define d' where "d' = the (rx_CalcDifficulty config time (Some p))"
  have some: "rx_CalcDifficulty config time (Some p) = Some d'"
    using assms(1,2) by (simp add: d'_def rx_CalcDifficulty_def Let_def)
  have is_phone: "d' = calcPhoneDifficulty d t TargetBlockTime EDAMinDifficulty"
    if "config = Some c" "IsPhone c (Some (n + 1)) time" for c
    using assms(1,2) that by (simp add: d'_def rx_CalcDifficulty_def Let_def t_def)
  have "16 \<le> d' \<and> d' \<le> MaxDifficulty"
    using assms phone(1,2) ratio range
    by (auto simp: d'_def rx_CalcDifficulty_def Let_def t_def[symmetric] EDAMinDifficulty_def split: option.split)
  moreover have "d' \<le> d + d div 4 \<and>
       (Time p < time \<and> time - Time p < TargetBlockTime \<longrightarrow> d < d' \<or> d' = MaxDifficulty) \<and>
       (Time p < time \<and> TargetBlockTime < time - Time p \<longrightarrow> d' < d \<or> d' = 16) \<and>
       (Time p < time \<and> time - Time p = TargetBlockTime \<longrightarrow> d' = d)"
    if "config = Some c" "IsPhone c (Some (n + 1)) time" for c
    unfolding is_phone[OF that] using phone(3-6) nz by (auto simp: t_def)
  ultimately show ?thesis using some eda by auto
qed

theorem difficulty_rule_witness:
  "\<exists>d'. rx_CalcDifficulty (Some seal_config) 660 (Some (seal_header 4000 1)) = Some d' \<and> 4000 < d' \<and> d' \<le> 5000"
proof -
  have "IsPhone seal_config (Some (5 + 1)) 660" by (simp add: seal_config_def fork_defs)
  with difficulty_rule[of "seal_header 4000 1" 4000 5 "Some seal_config" 660] show ?thesis
    by (auto simp: seal_header_def MaxDifficulty_def TargetBlockTime_def)
qed

end
