(* ===== verification/Trie_Keys.thy ===== *)
theory Trie_Keys
  imports Prelude
begin

text \<open>
  The three encodings of trie keys (\<open>trie/encoding.go\<close>): bytes, nibbles with an optional terminator,
  and the compact form stored in nodes.
\<close>

unbundle bit_operations_syntax

section \<open>Encodings\<close>

definition hasTerm :: "bytes \<Rightarrow> bool" where
  "hasTerm s \<longleftrightarrow> s \<noteq> [] \<and> last s = 16"

text \<open>The pairs of nibbles as bytes; a nibble without a partner is an index out of range.\<close>

fun decodeNibbles :: "bytes \<Rightarrow> bytes option" where
  "decodeNibbles [] = Some []"
| "decodeNibbles [n] = None"
| "decodeNibbles (n # m # ns) = map_option ((#) (push_bit 4 n OR m)) (decodeNibbles ns)"

text \<open>The buffer has room for half of the nibbles, so an even number of them is written.\<close>

definition hexToCompact :: "bytes \<Rightarrow> bytes option" where
  "hexToCompact hex =
     (let terminator = (if hasTerm hex then 1 else 0 :: byte);
          hex = (if hasTerm hex then butlast hex else hex);
          flag = push_bit 5 terminator
      in if odd (length hex)
         then map_option ((#) (flag OR push_bit 4 1 OR hd hex)) (decodeNibbles (tl hex))
         else map_option ((#) flag) (decodeNibbles hex))"

fun hex_nibbles :: "bytes \<Rightarrow> bytes" where
  "hex_nibbles [] = []"
| "hex_nibbles (b # bs) = b div 16 # b mod 16 # hex_nibbles bs"

definition keybytesToHex :: "bytes \<Rightarrow> bytes" where
  "keybytesToHex str = hex_nibbles str @ [16]"

definition compactToHex :: "bytes \<Rightarrow> bytes" where
  "compactToHex compact =
     (if compact = [] then []
      else
        let base = keybytesToHex compact;
            base' = (if hd base < 2 then butlast base else base);
            chop = 2 - (hd base AND 1)
        in drop (unat chop) base')"

text \<open>None is the panic on a key of odd length.\<close>

definition hexToKeybytes :: "bytes \<Rightarrow> bytes option" where
  "hexToKeybytes hex =
     (let hex = (if hasTerm hex then butlast hex else hex)
      in if odd (length hex) then None else decodeNibbles hex)"

fun prefixLen :: "bytes \<Rightarrow> bytes \<Rightarrow> nat" where
  "prefixLen (x # a) (y # b) = (if x \<noteq> y then 0 else Suc (prefixLen a b))"
| "prefixLen _ _ = 0"

text \<open>
  The compaction in the buffer of the nibbles: \<open>hex\<close> is read at \<open>ni\<close> and written at \<open>bi\<close>, and the
  writes stay behind the reads.
\<close>

fun compact_loop :: "nat \<Rightarrow> nat \<Rightarrow> nat \<Rightarrow> nat \<Rightarrow> bytes \<Rightarrow> bytes option" where
  "compact_loop 0 hexLen bi ni hex = Some hex"
| "compact_loop (Suc k) hexLen bi ni hex =
     (if ni < hexLen then
        Option.bind (index_get hex (ni + 1)) (\<lambda>m.
          compact_loop k hexLen (bi + 1) (ni + 2) (hex[bi := push_bit 4 (hex ! ni) OR m]))
      else Some hex)"

definition hexToCompactInPlace :: "bytes \<Rightarrow> bytes option" where
  "hexToCompactInPlace hex =
     (let term = (hex \<noteq> [] \<and> last hex = 16);
          hexLen = (if term then length hex - 1 else length hex);
          firstByte = (if term then push_bit 5 1 else 0);
          isOdd = odd hexLen;
          firstByte = (if isOdd then firstByte OR push_bit 4 1 OR hex ! 0 else firstByte)
      in if hex = [] then None
         else map_option (\<lambda>h. take (hexLen div 2 + 1) (h[0 := firstByte]))
                (compact_loop hexLen hexLen 1 (if isOdd then 1 else 0) hex))"

text \<open>Keys as the trie uses them: nibbles, then the terminator or nothing.\<close>

definition nibbles :: "bytes \<Rightarrow> bool" where
  "nibbles ns \<longleftrightarrow> (\<forall>n \<in> set ns. n < 16)"

definition hex_key :: "bytes \<Rightarrow> bool" where
  "hex_key k \<longleftrightarrow> (\<exists>ns. nibbles ns \<and> k = ns @ [16])"

section \<open>Lemmas\<close>

lemma unat_byte: "unat (b :: byte) < 256"
proof -
  have "unat b < 2 ^ LENGTH(8)" by (rule unsigned_less)
  then show ?thesis by simp
qed

lemma nibble_join:
  shows "b div 16 < (16 :: byte)" "b mod 16 < (16 :: byte)" "push_bit 4 (b div 16) OR (b mod 16) = (b :: byte)"
proof -
  show "b mod 16 < 16" by (simp add: word_mod_less_divisor)
  have "unat (b div 16) < 16" using unat_byte[of b] by (simp add: unat_div less_mult_imp_div_less)
  then show "b div 16 < 16" by (simp add: word_less_nat_alt)
  have "push_bit 4 (drop_bit 4 b) OR take_bit 4 b = b" by (auto simp: bit_eq_iff bit_simps)
  then show "push_bit 4 (b div 16) OR (b mod 16) = b"
    by (simp add: drop_bit_eq_div take_bit_eq_mod)
qed

lemma nibble_bits:
  assumes "(n :: byte) < 16" "bit n i"
  shows "i < 4"
proof -
  have "take_bit 4 n = n" using assms(1) by (simp add: take_bit_eq_mod mod_word_less)
  then show ?thesis using assms(2) by (metis bit_take_bit_iff)
qed

lemma nibble_split:
  assumes "n < 16" "m < (16 :: byte)"
  shows "(push_bit 4 n OR m) div 16 = n" "(push_bit 4 n OR m) mod 16 = m"
proof -
  note b = nibble_bits[OF assms(1)] nibble_bits[OF assms(2)]
  have "drop_bit 4 (push_bit 4 n OR m) = n" by (auto simp: bit_eq_iff bit_simps dest: b)
  then show "(push_bit 4 n OR m) div 16 = n" by (simp add: drop_bit_eq_div)
  have "take_bit 4 (push_bit 4 n OR m) = m" by (auto simp: bit_eq_iff bit_simps dest: b)
  then show "(push_bit 4 n OR m) mod 16 = m" by (simp add: take_bit_eq_mod)
qed

lemma decodeNibbles_hex [simp]: "decodeNibbles (hex_nibbles bs) = Some bs"
  by (induction bs) (simp_all add: nibble_join)

lemma nibbles_hex [simp]: "nibbles (hex_nibbles bs)"
  by (induction bs) (simp_all add: nibbles_def nibble_join)

lemma length_hex_nibbles [simp]: "length (hex_nibbles bs) = 2 * length bs"
  by (induction bs) simp_all

lemma hex_nibbles_decode:
  "nibbles ns \<Longrightarrow> even (length ns) \<Longrightarrow> \<exists>bs. decodeNibbles ns = Some bs \<and> hex_nibbles bs = ns"
  by (induction ns rule: decodeNibbles.induct) (auto simp: nibbles_def nibble_split)

lemma hex_key_keybytes [simp]: "hex_key (keybytesToHex key)"
  unfolding hex_key_def keybytesToHex_def by (intro exI[of _ "hex_nibbles key"]) simp

lemma hexToKeybytes_keybytes [simp]: "hexToKeybytes (keybytesToHex key) = Some key"
  by (simp add: hexToKeybytes_def keybytesToHex_def hasTerm_def)

lemma keybytesToHex_inject [simp]: "keybytesToHex a = keybytesToHex b \<longleftrightarrow> a = b"
  by (metis hexToKeybytes_keybytes option.inject)

lemma keybytesToHex_nonempty [simp]: "keybytesToHex key \<noteq> []"
  by (simp add: keybytesToHex_def)

lemma nibbles_no_term: "nibbles ns \<Longrightarrow> \<not> hasTerm ns"
  unfolding nibbles_def hasTerm_def by (metis last_in_set order_less_irrefl)

lemma decodeNibbles_even: "even (length ns) \<Longrightarrow> \<exists>bs. decodeNibbles ns = Some bs \<and> length bs = length ns div 2"
  by (induction ns rule: decodeNibbles.induct) auto

lemma compact_loop_ok:
  assumes "decodeNibbles (take (hexLen - ni) (drop ni hex)) = Some bs" "bi \<le> ni + 1" "hexLen \<le> length hex"
    "ni \<le> hexLen" "hexLen - ni \<le> 2 * k"
  shows "\<exists>h. compact_loop k hexLen bi ni hex = Some h \<and> length h = length hex \<and> take bi h = take bi hex \<and>
    take (length bs) (drop bi h) = bs"
  using assms
proof (induction k arbitrary: bi ni hex bs)
  case 0
  then show ?case by simp
next
  case (Suc k)
  show ?case
  proof (cases "ni < hexLen")
    case False
    then show ?thesis using Suc.prems by simp
  next
    case True
    have "ni + 1 < hexLen"
    proof (rule ccontr)
      assume "\<not> ni + 1 < hexLen"
      then have "hexLen - ni = 1" using True by simp
      then show False using Suc.prems(1,3) True by (simp add: Cons_nth_drop_Suc[symmetric])
    qed
    then have d: "take (hexLen - ni) (drop ni hex) = hex ! ni # hex ! (ni + 1) # take (hexLen - (ni + 2)) (drop (ni + 2) hex)"
      using Suc.prems(3) by (simp add: Cons_nth_drop_Suc[symmetric] take_Cons' numeral_2_eq_2)
    let ?b = "push_bit 4 (hex ! ni) OR hex ! (ni + 1)"
    let ?hex = "hex[bi := ?b]"
    obtain cs where cs: "decodeNibbles (take (hexLen - (ni + 2)) (drop (ni + 2) hex)) = Some cs" "bs = ?b # cs"
      using Suc.prems(1) unfolding d by auto
    have "\<exists>h. compact_loop k hexLen (bi + 1) (ni + 2) ?hex = Some h \<and> length h = length ?hex \<and>
        take (bi + 1) h = take (bi + 1) ?hex \<and> take (length cs) (drop (bi + 1) h) = cs"
      using Suc.prems \<open>ni + 1 < hexLen\<close> cs(1) by (intro Suc.IH) simp_all
    then obtain h where h: "compact_loop k hexLen (bi + 1) (ni + 2) ?hex = Some h" "length h = length hex"
      "take (bi + 1) h = take (bi + 1) ?hex" "take (length cs) (drop (bi + 1) h) = cs" by auto
    have bi: "bi < length hex" using Suc.prems(2,3) \<open>ni + 1 < hexLen\<close> by simp
    have "h ! bi = ?b" using arg_cong[OF h(3), of "\<lambda>l. l ! bi"] bi by simp
    moreover have "take bi h = take bi hex" using arg_cong[OF h(3), of "take bi"] by (simp add: min_def)
    moreover have "drop bi h = h ! bi # drop (bi + 1) h" using bi h(2) by (simp add: Cons_nth_drop_Suc)
    ultimately show ?thesis using h cs(2) True \<open>ni + 1 < hexLen\<close> Suc.prems(3)
      by (auto simp: index_get_def)
  qed
qed

lemma compact_in_place: "hex \<noteq> [] \<Longrightarrow> hexToCompactInPlace hex = hexToCompact hex"
proof -
  assume ne: "hex \<noteq> []"
  define hl where "hl = (if hasTerm hex then length hex - 1 else length hex)"
  define ni where "ni = (if odd hl then 1 else 0 :: nat)"
  have hl: "hl \<le> length hex" by (simp add: hl_def)
  have ni: "ni \<le> hl" "even (hl - ni)" by (auto simp: ni_def odd_pos Suc_leI)
  have cut: "(if hasTerm hex then butlast hex else hex) = take hl hex" by (simp add: hl_def butlast_conv_take)
  have "length (take (hl - ni) (drop ni hex)) = hl - ni" using hl by simp
  then have "even (length (take (hl - ni) (drop ni hex)))" using ni(2) by simp
  from decodeNibbles_even[OF this] obtain bs where
    bs: "decodeNibbles (take (hl - ni) (drop ni hex)) = Some bs" "length bs = (hl - ni) div 2"
    using hl by (auto simp: min_def split: if_splits)
  obtain h where h: "compact_loop hl hl 1 ni hex = Some h" "length h = length hex" "take (length bs) (drop 1 h) = bs"
    using compact_loop_ok[OF bs(1), of 1 hl] hl ni le_trans[OF diff_le_self, of hl "2 * hl" ni] by auto
  have half: "length bs = hl div 2" using bs(2) by (auto simp: ni_def elim!: oddE)
  obtain b h' where hc: "h = b # h'" using h(2) ne by (cases h) auto
  have res: "take (hl div 2 + 1) (h[0 := f]) = f # bs" for f using h(3) half by (simp add: hc)
  have hd: "odd hl \<Longrightarrow> hd (take hl hex) = hex ! 0" using ne by (cases hl) (auto simp: hd_conv_nth)
  have tl: "odd hl \<Longrightarrow> tl (take hl hex) = take (hl - ni) (drop ni hex)"
    by (simp add: ni_def tl_take drop_Suc drop_0)
  have ev: "even hl \<Longrightarrow> take hl hex = take (hl - ni) (drop ni hex)" by (simp add: ni_def)
  have len: "length (take hl hex) = hl" using hl by simp
  have place: "hexToCompactInPlace hex =
      Some ((if odd hl then (if hasTerm hex then push_bit 5 1 else 0) OR push_bit 4 1 OR hex ! 0
             else if hasTerm hex then push_bit 5 1 else 0) # bs)"
    using ne h(1) res by (simp add: hexToCompactInPlace_def Let_def hasTerm_def hl_def ni_def)
  have "hexToCompact hex =
      (if odd hl then map_option ((#) (push_bit 5 (if hasTerm hex then 1 else 0) OR push_bit 4 1 OR hd (take hl hex)))
                        (decodeNibbles (tl (take hl hex)))
       else map_option ((#) (push_bit 5 (if hasTerm hex then 1 else 0))) (decodeNibbles (take hl hex)))"
    unfolding hexToCompact_def Let_def cut len ..
  then show ?thesis using hd tl ev bs(1) by (simp add: place del: tl_take)
qed

lemma compact_flags:
  "push_bit 5 (1 :: byte) = 32" "push_bit 4 (1 :: byte) = 16"
  "(n :: byte) < 16 \<Longrightarrow> (16 OR n) div 16 = 1" "n < 16 \<Longrightarrow> (16 OR n) mod 16 = n"
  "n < 16 \<Longrightarrow> (32 OR 16 OR n) div 16 = 3" "n < 16 \<Longrightarrow> (32 OR 16 OR n) mod 16 = n"
proof -
  show "push_bit 5 (1 :: byte) = 32" "push_bit 4 (1 :: byte) = 16" by simp_all
  assume n: "n < 16"
  show "(16 OR n) div 16 = 1" "(16 OR n) mod 16 = n" using nibble_split[of 1 n] n by simp_all
  have "32 OR 16 OR n = 48 OR n" by (simp flip: or.assoc)
  then show "(32 OR 16 OR n) div 16 = 3" "(32 OR 16 OR n) mod 16 = n" using nibble_split[of 3 n] n by simp_all
qed

lemma compactToHex_Cons:
  "compactToHex (c # bs) =
     drop (unat (2 - (c div 16 AND 1))) (c div 16 # c mod 16 # hex_nibbles bs @ (if c div 16 < 2 then [] else [16]))"
  by (simp add: compactToHex_def keybytesToHex_def Let_def butlast_append)

section \<open>Properties\<close>

text \<open>
  C26: A nibble path of any length, with or without the terminator, comes back from the compact form
  that is stored in the nodes; a path that is not empty is compacted to the same bytes in its own
  buffer; and every byte key comes back from its nibbles.
\<close>

theorem compact_roundtrip:
  assumes "nibbles ns" "hex = ns @ (if leaf then [16] else [])"
  shows "(\<exists>c. hexToCompact hex = Some c \<and> compactToHex c = hex \<and>
      (hex \<noteq> [] \<longrightarrow> hexToCompactInPlace hex = Some c)) \<and>
    hexToKeybytes (keybytesToHex key) = Some key"
proof -
  have t: "hasTerm hex \<longleftrightarrow> leaf" "(if hasTerm hex then butlast hex else hex) = ns"
    using assms nibbles_no_term by (auto simp: hasTerm_def)
  have "\<exists>c. hexToCompact hex = Some c \<and> compactToHex c = hex"
  proof (cases "even (length ns)")
    case True
    with hex_nibbles_decode[OF assms(1)] obtain bs where "decodeNibbles ns = Some bs" "hex_nibbles bs = ns" by blast
    then show ?thesis using True t assms(2)
      by (cases leaf) (simp_all add: hexToCompact_def Let_def compactToHex_Cons)
  next
    case False
    then obtain n ms where n: "ns = n # ms" "n < 16" "nibbles ms" "even (length ms)"
      using assms(1) by (cases ns) (auto simp: nibbles_def)
    with hex_nibbles_decode obtain bs where "decodeNibbles ms = Some bs" "hex_nibbles bs = ms" by blast
    then show ?thesis using False t assms(2) n
      by (cases leaf) (simp_all add: hexToCompact_def Let_def compactToHex_Cons compact_flags)
  qed
  then show ?thesis using compact_in_place by auto
qed

theorem compact_roundtrip_witness:
  "nibbles [1, 2, 3] \<and> (\<exists>c. hexToCompact [1, 2, 3, 16] = Some c \<and> compactToHex c = [1, 2, 3, 16])"
  using compact_roundtrip[of "[1, 2, 3]" "[1, 2, 3, 16]" True] by (auto simp: nibbles_def)

end
