(* ===== verification/Trie.thy ===== *)
theory Trie
  imports Trie_Keys
begin

text \<open>
  The Merkle Patricia trie in memory (\<open>trie/trie.go\<close>): lookups, insertions and deletions on nodes that
  are loaded from the database where the trie reaches them.  A loader stands for the node reader of
  the database followed by the decoding of the blob.  The cached hashes and dirty flags of the nodes
  and the two tracers are not part of the model: they do not influence the nodes.
\<close>

section \<open>Nodes\<close>

datatype node =
    NilNode
  | FullNode (fn_Children: "node list")
  | ShortNode (sn_Key: bytes) (sn_Val: node)
  | is_HashNode: HashNode bytes
  | ValueNode bytes

datatype trie_error = MissingNodeError | ErrCommitted

type_synonym loader = "bytes \<Rightarrow> bytes \<Rightarrow> trie_error + node"

definition trie_resolve :: "loader \<Rightarrow> node \<Rightarrow> bytes \<Rightarrow> trie_error + node" where
  "trie_resolve load n prefix = (case n of HashNode h \<Rightarrow> load prefix h | _ \<Rightarrow> Inr n)"

text \<open>
  The value, the node that replaces \<open>n\<close> and whether something was loaded.  None is a panic or a
  descent that does not end, which a loader can cause with short nodes without a key.
\<close>

partial_function (option) trie_get ::
    "loader \<Rightarrow> node \<Rightarrow> bytes \<Rightarrow> nat \<Rightarrow> (trie_error + bytes option \<times> node \<times> bool) option" where
  "trie_get load n key pos =
     (case n of
        NilNode \<Rightarrow> Some (Inr (None, NilNode, False))
      | ValueNode v \<Rightarrow> Some (Inr (Some v, n, False))
      | ShortNode nkey nval \<Rightarrow>
          if length key < pos then None
          else if \<not> has_prefix nkey (drop pos key) then Some (Inr (None, n, False))
          else
            Option.bind (trie_get load nval key (pos + length nkey)) (\<lambda>r.
              case r of
                Inl e \<Rightarrow> Some (Inl e)
              | Inr (v, nn, didResolve) \<Rightarrow>
                  Some (Inr (v, if didResolve then ShortNode nkey nn else n, didResolve)))
      | FullNode cs \<Rightarrow>
          Option.bind (index_get key pos) (\<lambda>x.
          Option.bind (index_get cs (unat x)) (\<lambda>c.
            Option.bind (trie_get load c key (pos + 1)) (\<lambda>r.
              case r of
                Inl e \<Rightarrow> Some (Inl e)
              | Inr (v, nn, didResolve) \<Rightarrow>
                  Some (Inr (v, if didResolve then FullNode (cs[unat x := nn]) else n, didResolve)))))
      | HashNode h \<Rightarrow>
          (case load (take pos key) h of
             Inl e \<Rightarrow> Some (Inl e)
           | Inr child \<Rightarrow>
               Option.bind (trie_get load child key pos) (\<lambda>r.
                 case r of
                   Inl e \<Rightarrow> Some (Inl e)
                 | Inr (v, nn, _) \<Rightarrow> Some (Inr (v, nn, True)))))"

text \<open>
  Insertions and deletions return an error with the node as the call leaves it (full nodes are
  written in place), or whether the node changed with the node that replaces it.
\<close>

type_synonym node_result = "(trie_error \<times> node) + (bool \<times> node)"

text \<open>The node a short node becomes when the key leaves its key after \<open>matchlen\<close> nibbles.\<close>

definition branch_out :: "bytes \<Rightarrow> nat \<Rightarrow> byte \<Rightarrow> node \<Rightarrow> byte \<Rightarrow> node \<Rightarrow> node option" where
  "branch_out key matchlen x c y d =
     (if 17 \<le> unat x \<or> 17 \<le> unat y then None
      else
        let branch = FullNode ((replicate 17 NilNode)[unat x := c, unat y := d])
        in Some (if matchlen = 0 then branch else ShortNode (take matchlen key) branch))"

partial_function (option) trie_insert ::
    "loader \<Rightarrow> node \<Rightarrow> bytes \<Rightarrow> bytes \<Rightarrow> node \<Rightarrow> node_result option" where
  "trie_insert load n prefix key val =
     (if key = [] then
        Some (Inr (case n of ValueNode v \<Rightarrow> (n \<noteq> val, val) | _ \<Rightarrow> (True, val)))
      else
        case n of
          ShortNode nkey nval \<Rightarrow>
            let matchlen = prefixLen key nkey
            in if matchlen = length nkey then
                 Option.bind (trie_insert load nval (prefix @ take matchlen key) (drop matchlen key) val) (\<lambda>r.
                   case r of
                     Inl (e, nn) \<Rightarrow> Some (Inl (e, ShortNode nkey nn))
                   | Inr (dirty, nn) \<Rightarrow> Some (Inr (if dirty then (True, ShortNode nkey nn) else (False, n))))
               else
                 Option.bind (trie_insert load NilNode (prefix @ take (matchlen + 1) nkey)
                                (drop (matchlen + 1) nkey) nval) (\<lambda>r.
                   case r of
                     Inl (e, nn) \<Rightarrow> Some (Inl (e, n))
                   | Inr (_, c) \<Rightarrow>
                       Option.bind (index_get key matchlen) (\<lambda>y.
                       Option.bind (trie_insert load NilNode (prefix @ take (matchlen + 1) key)
                                      (drop (matchlen + 1) key) val) (\<lambda>r.
                         case r of
                           Inl (e, nn) \<Rightarrow> Some (Inl (e, n))
                         | Inr (_, d) \<Rightarrow>
                             map_option (\<lambda>b. Inr (True, b)) (branch_out key matchlen (nkey ! matchlen) c y d))))
        | FullNode cs \<Rightarrow>
            Option.bind (index_get cs (unat (hd key))) (\<lambda>c.
            Option.bind (trie_insert load c (prefix @ [hd key]) (tl key) val) (\<lambda>r.
              case r of
                Inl (e, nn) \<Rightarrow> Some (Inl (e, FullNode (cs[unat (hd key) := nn])))
              | Inr (dirty, nn) \<Rightarrow>
                  Some (Inr (if dirty then (True, FullNode (cs[unat (hd key) := nn])) else (False, n)))))
        | NilNode \<Rightarrow> Some (Inr (True, ShortNode key val))
        | HashNode h \<Rightarrow>
            (case load prefix h of
               Inl e \<Rightarrow> Some (Inl (e, n))
             | Inr rn \<Rightarrow>
                 Option.bind (trie_insert load rn prefix key val) (\<lambda>r.
                   case r of
                     Inl (e, nn) \<Rightarrow> Some (Inl (e, n))
                   | Inr (dirty, nn) \<Rightarrow> Some (Inr (if dirty then (True, nn) else (False, rn)))))
        | ValueNode v \<Rightarrow> None)"

text \<open>The index of the only child that is left, -2 when there are several, -1 when there is none.\<close>

fun remaining_child :: "nat \<Rightarrow> int \<Rightarrow> node list \<Rightarrow> int" where
  "remaining_child i pos [] = pos"
| "remaining_child i pos (c # cs) =
     (if c = NilNode then remaining_child (i + 1) pos cs
      else if pos = -1 then remaining_child (i + 1) (int i) cs
      else -2)"

text \<open>A full node with the children \<open>cs\<close> after one of them was removed.\<close>

definition reduce_full :: "loader \<Rightarrow> bytes \<Rightarrow> node list \<Rightarrow> node_result" where
  "reduce_full load prefix cs =
     (let pos = remaining_child 0 (-1) cs
      in if pos < 0 then Inr (True, FullNode cs)
         else
           let c = cs ! nat pos; short = Inr (True, ShortNode [of_int pos] c)
           in if pos = 16 then short
              else
                (case trie_resolve load c (prefix @ [of_int pos]) of
                   Inl e \<Rightarrow> Inl (e, FullNode cs)
                 | Inr (ShortNode ckey cval) \<Rightarrow> Inr (True, ShortNode (of_int pos # ckey) cval)
                 | Inr _ \<Rightarrow> short))"

partial_function (option) trie_delete ::
    "loader \<Rightarrow> node \<Rightarrow> bytes \<Rightarrow> bytes \<Rightarrow> node_result option" where
  "trie_delete load n prefix key =
     (case n of
        ShortNode nkey nval \<Rightarrow>
          let matchlen = prefixLen key nkey
          in if matchlen < length nkey then Some (Inr (False, n))
             else if matchlen = length key then Some (Inr (True, NilNode))
             else
               Option.bind (trie_delete load nval (prefix @ take (length nkey) key) (drop (length nkey) key)) (\<lambda>r.
                 case r of
                   Inl (e, nn) \<Rightarrow> Some (Inl (e, ShortNode nkey nn))
                 | Inr (dirty, child) \<Rightarrow>
                     Some (Inr (if dirty then
                                  (True, case child of
                                           ShortNode ckey cval \<Rightarrow> ShortNode (nkey @ ckey) cval
                                         | _ \<Rightarrow> ShortNode nkey child)
                                else (False, n))))
      | FullNode cs \<Rightarrow>
          Option.bind (index_get key 0) (\<lambda>x.
          Option.bind (index_get cs (unat x)) (\<lambda>c.
          Option.bind (trie_delete load c (prefix @ [x]) (tl key)) (\<lambda>r.
            case r of
              Inl (e, nn) \<Rightarrow> Some (Inl (e, FullNode (cs[unat x := nn])))
            | Inr (dirty, nn) \<Rightarrow>
                Some (if \<not> dirty then Inr (False, n)
                      else if nn \<noteq> NilNode then Inr (True, FullNode (cs[unat x := nn]))
                      else reduce_full load prefix (cs[unat x := nn])))))
      | ValueNode v \<Rightarrow> Some (Inr (True, NilNode))
      | NilNode \<Rightarrow> Some (Inr (False, NilNode))
      | HashNode h \<Rightarrow>
          (case load prefix h of
             Inl e \<Rightarrow> Some (Inl (e, n))
           | Inr rn \<Rightarrow>
               Option.bind (trie_delete load rn prefix key) (\<lambda>r.
                 case r of
                   Inl (e, nn) \<Rightarrow> Some (Inl (e, n))
                 | Inr (dirty, nn) \<Rightarrow> Some (Inr (if dirty then (True, nn) else (False, rn))))))"

section \<open>The trie\<close>

record trie =
  tr_root :: node
  tr_committed :: bool
  tr_unhashed :: int
  tr_uncommitted :: int

text \<open>A trie over a reader that is already open; None is the zero hash or the hash of the empty trie.\<close>

definition trie_New :: "loader \<Rightarrow> bytes option \<Rightarrow> trie_error + trie" where
  "trie_New load root =
     (let tr = (\<lambda>n. \<lparr>tr_root = n, tr_committed = False, tr_unhashed = 0, tr_uncommitted = 0\<rparr>)
      in case root of
           None \<Rightarrow> Inr (tr NilNode)
         | Some h \<Rightarrow> map_sum id tr (load [] h))"

definition trie_Get :: "loader \<Rightarrow> bytes \<Rightarrow> trie \<Rightarrow> ((trie_error + bytes option) \<times> trie) option" where
  "trie_Get load key t =
     (if tr_committed t then Some (Inl ErrCommitted, t)
      else
        map_option (\<lambda>r.
          case r of
            Inl e \<Rightarrow> (Inl e, t)
          | Inr (v, newroot, didResolve) \<Rightarrow> (Inr v, if didResolve then t\<lparr>tr_root := newroot\<rparr> else t))
          (trie_get load (tr_root t) (keybytesToHex key) 0))"

definition count_change :: "trie \<Rightarrow> trie" where
  "count_change t = t\<lparr>tr_unhashed := tr_unhashed t + 1, tr_uncommitted := tr_uncommitted t + 1\<rparr>"

text \<open>The root pointer stays on an error; what was written below it stays as well.\<close>

definition set_root :: "trie \<Rightarrow> node_result \<Rightarrow> trie_error option \<times> trie" where
  "set_root t r =
     (case r of
        Inl (e, n) \<Rightarrow> (Some e, t\<lparr>tr_root := n\<rparr>)
      | Inr (_, n) \<Rightarrow> (None, t\<lparr>tr_root := n\<rparr>))"

definition trie_Update :: "loader \<Rightarrow> bytes \<Rightarrow> bytes \<Rightarrow> trie \<Rightarrow> (trie_error option \<times> trie) option" where
  "trie_Update load key val t =
     (if tr_committed t then Some (Some ErrCommitted, t)
      else
        let t = count_change t; k = keybytesToHex key
        in map_option (set_root t)
             (if val \<noteq> [] then trie_insert load (tr_root t) [] k (ValueNode val)
              else trie_delete load (tr_root t) [] k))"

definition trie_Delete :: "loader \<Rightarrow> bytes \<Rightarrow> trie \<Rightarrow> (trie_error option \<times> trie) option" where
  "trie_Delete load key t =
     (if tr_committed t then Some (Some ErrCommitted, t)
      else
        let t = count_change t
        in map_option (set_root t) (trie_delete load (tr_root t) [] (keybytesToHex key)))"

section \<open>What the nodes stand for\<close>

lemma child_size: "i < length cs \<Longrightarrow> size (cs ! i) < Suc (size_list size cs)"
  by (meson le_imp_less_Suc nth_mem order_refl size_list_estimation')

text \<open>The value under a path, read off a trie without unloaded nodes.\<close>

function look :: "node \<Rightarrow> bytes \<Rightarrow> bytes option" where
  "look NilNode k = None"
| "look (ValueNode v) k = (if k = [] then Some v else None)"
| "look (HashNode h) k = None"
| "look (ShortNode nkey n) k = (if has_prefix nkey k then look n (drop (length nkey) k) else None)"
| "look (FullNode cs) [] = None"
| "look (FullNode cs) (x # k) = (if unat x < length cs then look (cs ! unat x) k else None)"
  by pat_completeness auto
termination
  by (relation "measure (\<lambda>(n, k). size n)") (simp_all add: child_size)

text \<open>
  The paths below a place of the trie: after the terminator nothing is left, before it nibbles and
  the terminator; and the keys of short nodes that lead to such a place.
\<close>

definition rest_key :: "bool \<Rightarrow> bytes \<Rightarrow> bool" where
  "rest_key t k \<longleftrightarrow> (if t then k = [] else hex_key k)"

definition key_for :: "bool \<Rightarrow> bytes \<Rightarrow> bool" where
  "key_for t k \<longleftrightarrow> k \<noteq> [] \<and> (if t then hex_key k else nibbles k)"

text \<open>The minimal form: values sit under the terminator, short nodes lead to a value or a full node,
  and full nodes have two children.\<close>

inductive canon :: "bool \<Rightarrow> node \<Rightarrow> bool" where
  canon_value: "v \<noteq> [] \<Longrightarrow> canon True (ValueNode v)"
| canon_short: "key_for t k \<Longrightarrow> canon t e \<Longrightarrow> (\<And>k' e'. e \<noteq> ShortNode k' e') \<Longrightarrow> canon False (ShortNode k e)"
| canon_full: "length cs = 17 \<Longrightarrow> (\<And>i. i < 17 \<Longrightarrow> cs ! i \<noteq> NilNode \<Longrightarrow> canon (i = 16) (cs ! i)) \<Longrightarrow>
    i < j \<Longrightarrow> j < 17 \<Longrightarrow> cs ! i \<noteq> NilNode \<Longrightarrow> cs ! j \<noteq> NilNode \<Longrightarrow> canon False (FullNode cs)"

text \<open>The node with everything loaded that the loader still has to bring.\<close>

inductive expands :: "loader \<Rightarrow> bytes \<Rightarrow> node \<Rightarrow> node \<Rightarrow> bool" for load where
  expands_nil: "expands load p NilNode NilNode"
| expands_value: "expands load p (ValueNode v) (ValueNode v)"
| expands_short: "expands load (p @ k) n e \<Longrightarrow> expands load p (ShortNode k n) (ShortNode k e)"
| expands_full: "length cs = length es \<Longrightarrow>
    (\<And>i. i < length cs \<Longrightarrow> expands load (p @ [of_nat i]) (cs ! i) (es ! i)) \<Longrightarrow>
    expands load p (FullNode cs) (FullNode es)"
| expands_hash: "load p h = Inr n \<Longrightarrow> is_ShortNode n \<or> is_FullNode n \<Longrightarrow> expands load p n e \<Longrightarrow> expands load p (HashNode h) e"

definition node_slot :: "bool \<Rightarrow> node \<Rightarrow> bool" where
  "node_slot t e \<longleftrightarrow> e = NilNode \<or> canon t e"

text \<open>A trie that is in use and holds the bindings \<open>m\<close>.\<close>

definition trie_holds :: "loader \<Rightarrow> trie \<Rightarrow> (bytes \<rightharpoonup> bytes) \<Rightarrow> bool" where
  "trie_holds load t m \<longleftrightarrow> \<not> tr_committed t \<and>
     (\<exists>e. expands load [] (tr_root t) e \<and> node_slot False e \<and>
          (\<forall>key. look e (keybytesToHex key) = m key) \<and>
          (\<forall>k. hex_key k \<longrightarrow> look e k \<noteq> None \<longrightarrow> k \<in> range keybytesToHex))"

datatype trie_call = TGet bytes | TUpdate bytes bytes | TDelete bytes

fun trie_exec :: "loader \<Rightarrow> trie_call \<Rightarrow> trie \<Rightarrow> ((trie_error + bytes option) \<times> trie) option" where
  "trie_exec load (TGet key) t = trie_Get load key t"
| "trie_exec load (TUpdate key val) t =
     map_option (map_prod (\<lambda>e. case e of None \<Rightarrow> Inr None | Some e \<Rightarrow> Inl e) id) (trie_Update load key val t)"
| "trie_exec load (TDelete key) t =
     map_option (map_prod (\<lambda>e. case e of None \<Rightarrow> Inr None | Some e \<Rightarrow> Inl e) id) (trie_Delete load key t)"

fun trie_run :: "loader \<Rightarrow> trie_call list \<Rightarrow> trie \<Rightarrow> ((trie_error + bytes option) list \<times> trie) option" where
  "trie_run load [] t = Some ([], t)"
| "trie_run load (c # cs) t =
     Option.bind (trie_exec load c t) (\<lambda>(r, t). map_option (map_prod ((#) r) id) (trie_run load cs t))"

text \<open>The same calls on a map.\<close>

fun map_exec :: "trie_call \<Rightarrow> (bytes \<rightharpoonup> bytes) \<Rightarrow> bytes option \<times> (bytes \<rightharpoonup> bytes)" where
  "map_exec (TGet key) m = (m key, m)"
| "map_exec (TUpdate key val) m = (None, m(key := if val = [] then None else Some val))"
| "map_exec (TDelete key) m = (None, m(key := None))"

fun map_run :: "trie_call list \<Rightarrow> (bytes \<rightharpoonup> bytes) \<Rightarrow> bytes option list \<times> (bytes \<rightharpoonup> bytes)" where
  "map_run [] m = ([], m)"
| "map_run (c # cs) m = (let (r, m) = map_exec c m; (rs, m) = map_run cs m in (r # rs, m))"

text \<open>What a deletion below a place of the trie gives.\<close>

definition deletes :: "loader \<Rightarrow> bytes \<Rightarrow> bytes \<Rightarrow> bool \<Rightarrow> node \<Rightarrow> node \<Rightarrow> bool \<Rightarrow> node \<Rightarrow> node \<Rightarrow> bool" where
  "deletes load p key t n e d n' e' \<longleftrightarrow>
     trie_delete load n p key = Some (Inr (d, n')) \<and> expands load p n' e' \<and> node_slot t e' \<and>
     (\<forall>k. rest_key t k \<longrightarrow> look e' k = (if k = key then None else look e k)) \<and>
     (\<not> d \<longrightarrow> e' = e) \<and> (d \<longrightarrow> \<not> is_HashNode n') \<and> (is_FullNode e \<longrightarrow> e' \<noteq> NilNode)"

text \<open>
  The key leads through loaded nodes to the value \<open>v\<close> below a full node that has one other child, a node
  that is not loaded and whose loading fails with \<open>err\<close>.
\<close>

inductive blocked :: "loader \<Rightarrow> bytes \<Rightarrow> node \<Rightarrow> bytes \<Rightarrow> bytes \<Rightarrow> trie_error \<Rightarrow> bool" for load where
  blocked_here: "length cs = 17 \<Longrightarrow> unat x < 17 \<Longrightarrow> unat j < 16 \<Longrightarrow> j \<noteq> x \<Longrightarrow>
    (if k = [] then cs ! unat x = ValueNode v else cs ! unat x = ShortNode k (ValueNode v)) \<Longrightarrow>
    cs ! unat j = HashNode h \<Longrightarrow> load (p @ [j]) h = Inl err \<Longrightarrow>
    (\<And>i. i < 17 \<Longrightarrow> i \<noteq> unat x \<Longrightarrow> i \<noteq> unat j \<Longrightarrow> cs ! i = NilNode) \<Longrightarrow>
    blocked load p (FullNode cs) (x # k) v err"
| blocked_short: "blocked load (p @ k) n r v err \<Longrightarrow> blocked load p (ShortNode k n) (k @ r) v err"
| blocked_full: "length cs = 17 \<Longrightarrow> unat x < 17 \<Longrightarrow> blocked load (p @ [x]) (cs ! unat x) r v err \<Longrightarrow>
    blocked load p (FullNode cs) (x # r) v err"

text \<open>Tries for examples.\<close>

definition no_nodes :: loader where "no_nodes = (\<lambda>path h. Inl MissingNodeError)"

definition sample_leaf :: node where "sample_leaf = ShortNode (keybytesToHex [1]) (ValueNode [5])"

definition sample_loader :: loader where
  "sample_loader = (\<lambda>path h. if path = [] \<and> h = [7] then Inr sample_leaf else Inl MissingNodeError)"

definition sample_full :: node where
  "sample_full = FullNode ((replicate 17 NilNode)[1 := ShortNode [0, 16] (ValueNode [5]), 2 := HashNode [9]])"

definition sample_trie :: "node \<Rightarrow> trie" where
  "sample_trie n = \<lparr>tr_root = n, tr_committed = False, tr_unhashed = 0, tr_uncommitted = 0\<rparr>"

abbreviation node_at :: "bytes \<Rightarrow> node \<Rightarrow> node" where
  "node_at b e \<equiv> (if b = [] then e else ShortNode b e)"

abbreviation branch_node :: "byte \<Rightarrow> node \<Rightarrow> byte \<Rightarrow> node \<Rightarrow> node" where
  "branch_node x c y d \<equiv> FullNode ((replicate 17 NilNode)[unat x := c, unat y := d])"

section \<open>Keys\<close>

inductive_cases canon_valueE: "canon t (ValueNode v)"
inductive_cases canon_shortE: "canon t (ShortNode k e)"
inductive_cases canon_fullE: "canon t (FullNode cs)"
inductive_simps canon_simps [simp]: "canon t NilNode" "canon t (HashNode h)" "canon t (ValueNode v)"
inductive_cases expands_nilE: "expands load p NilNode e"
inductive_cases expands_valueE: "expands load p (ValueNode v) e"
inductive_cases expands_shortE: "expands load p (ShortNode k n) e"
inductive_cases expands_fullE: "expands load p (FullNode cs) e"
inductive_cases expands_hashE: "expands load p (HashNode h) e"

lemma prefixLen_full: "prefixLen key k = length k \<longleftrightarrow> has_prefix k key"
  by (induction key k rule: prefixLen.induct) (auto simp: has_prefix_def)

lemma prefixLen_le: "prefixLen key k \<le> length k" "prefixLen key k \<le> length key"
  by (induction key k rule: prefixLen.induct) auto

lemma prefixLen_take: "take (prefixLen key k) key = take (prefixLen key k) k"
  by (induction key k rule: prefixLen.induct) auto

lemma prefixLen_differs:
  "prefixLen key k < length k \<Longrightarrow> prefixLen key k < length key \<Longrightarrow> key ! prefixLen key k \<noteq> k ! prefixLen key k"
  by (induction key k rule: prefixLen.induct) (auto split: if_splits)

lemma nibbles_simps [simp]:
  "nibbles []" "nibbles (n # ns) \<longleftrightarrow> n < 16 \<and> nibbles ns" "nibbles (a @ b) \<longleftrightarrow> nibbles a \<and> nibbles b"
  by (auto simp: nibbles_def)

lemma hex_key_Nil [simp]: "\<not> hex_key []" by (simp add: hex_key_def)

lemma hex_key_Cons: "hex_key (x # k) \<longleftrightarrow> x = 16 \<and> k = [] \<or> x < 16 \<and> hex_key k"
proof
  assume "hex_key (x # k)"
  then obtain ns where "nibbles ns" "x # k = ns @ [16]" by (auto simp: hex_key_def)
  then show "x = 16 \<and> k = [] \<or> x < 16 \<and> hex_key k" by (cases ns) (auto simp: hex_key_def)
next
  assume "x = 16 \<and> k = [] \<or> x < 16 \<and> hex_key k"
  then show "hex_key (x # k)"
  proof
    assume "x < 16 \<and> hex_key k"
    then obtain ns where "x < 16" "nibbles ns" "k = ns @ [16]" by (auto simp: hex_key_def)
    then show ?thesis unfolding hex_key_def by (intro exI[of _ "x # ns"]) simp
  qed (auto simp: hex_key_def intro!: exI[of _ "[]"])
qed

lemma unat_hex_key: "hex_key (x # k) \<Longrightarrow> unat x < 17 \<and> rest_key (unat x = 16) k"
  by (auto simp: hex_key_Cons rest_key_def word_less_nat_alt)

text \<open>A path passes a short node.\<close>

lemma hex_key_nibbles [simp]: "nibbles a \<Longrightarrow> hex_key (a @ b) \<longleftrightarrow> hex_key b"
  by (induction a) (auto simp: hex_key_Cons)

lemma hex_key_prefix: "hex_key a \<Longrightarrow> hex_key (a @ b) \<longleftrightarrow> b = []"
proof -
  assume "hex_key a"
  then obtain ns where "nibbles ns" "a = ns @ [16]" by (auto simp: hex_key_def)
  then show ?thesis by (simp add: hex_key_Cons)
qed

lemma rest_key_append: "key_for t k \<Longrightarrow> rest_key False (k @ r) \<longleftrightarrow> rest_key t r"
  by (cases t) (auto simp: key_for_def rest_key_def hex_key_prefix)

text \<open>A path leaves a short node.\<close>

lemma key_for_split: "key_for t (a @ x # b) \<Longrightarrow>
   nibbles a \<and> (x = 16 \<and> t \<and> b = [] \<or> x < 16 \<and> (b = [] \<and> \<not> t \<or> key_for t b))"
proof (induction a)
  case Nil
  then show ?case by (cases t) (auto simp: key_for_def hex_key_Cons)
next
  case (Cons y a)
  then show ?case by (cases t) (auto simp: key_for_def hex_key_Cons)
qed

lemma hex_key_split: "hex_key (a @ x # b) \<Longrightarrow> nibbles a \<and> hex_key (x # b)"
  by (induction a) (auto simp: hex_key_Cons)

lemma key_leaves:
  assumes "hex_key key" "key_for t k" "\<not> has_prefix k key"
  defines "m \<equiv> prefixLen key k"
  obtains a x b y d where "key = a @ y # d" "k = a @ x # b" "x \<noteq> y" "m = length a" "nibbles a"
    "hex_key (y # d)" "x = 16 \<and> t \<and> b = [] \<or> x < 16 \<and> (b = [] \<and> \<not> t \<or> key_for t b)"
proof -
  have m: "m < length k"
    using prefixLen_le(1)[of key k] prefixLen_full[of key k] assms(3) by (simp add: m_def order.not_eq_order_implies_strict)
  have k: "take m key @ k ! m # drop (Suc m) k = k"
    using id_take_nth_drop[OF m] prefixLen_take[of key k] by (simp add: m_def)
  have m': "m < length key"
  proof (rule ccontr)
    assume "\<not> m < length key"
    then have "take m key = key" by simp
    then have "key_for t (key @ k ! m # drop (Suc m) k)" using k assms(2) by simp
    then have "nibbles key" using key_for_split by blast
    then show False using assms(1) by (auto simp: hex_key_def)
  qed
  have key: "take m key @ key ! m # drop (Suc m) key = key" using id_take_nth_drop[OF m'] by simp
  show ?thesis
  proof (rule that[of "take m key" "key ! m" "drop (Suc m) key" "k ! m" "drop (Suc m) k"])
    show "k ! m \<noteq> key ! m" using prefixLen_differs[of key k] m m' by (simp add: m_def)
    show "nibbles (take m key)" "hex_key (key ! m # drop (Suc m) key)"
      using hex_key_split[of "take m key" "key ! m" "drop (Suc m) key"] assms(1) by (simp_all add: key)
    show "k ! m = 16 \<and> t \<and> drop (Suc m) k = [] \<or>
        k ! m < 16 \<and> (drop (Suc m) k = [] \<and> \<not> t \<or> key_for t (drop (Suc m) k))"
      using key_for_split[of t "take m key" "k ! m" "drop (Suc m) k"] assms(2) by (simp add: k)
  qed (use k key m' in simp_all)
qed

section \<open>Insertion\<close>

lemma insert_nil: "trie_insert load NilNode p k v = Some (Inr (True, node_at k v))"
  by (subst trie_insert.simps) simp

lemma look_node_at: "look (node_at b e) k = (if has_prefix b k then look e (drop (length b) k) else None)"
  by (simp add: has_prefix_def)

lemma look_append [simp]: "look (ShortNode a e) (a @ k) = look e k"
  by simp

lemma canon_node_at:
  assumes "x = 16 \<and> t \<and> b = [] \<or> x < (16 :: byte) \<and> (b = [] \<and> \<not> t \<or> key_for t b)" "canon t e"
    "\<And>k' e'. e \<noteq> ShortNode k' e'"
  shows "canon (unat x = 16) (node_at b e)"
proof -
  have "unat x = 16 \<longleftrightarrow> x = 16" by (simp add: word_unat_eq_iff)
  then show ?thesis using assms(1,2) by (auto simp: key_for_def intro!: canon_short[OF _ assms(2,3)])
qed

lemma canon_not_nil: "canon t e \<Longrightarrow> e \<noteq> NilNode"
  by auto

lemma canon_branch:
  assumes "x \<noteq> y" "unat x < 17" "unat y < 17" "canon (unat x = 16) c" "canon (unat y = 16) d"
  shows "canon False (branch_node x c y d)"
proof -
  have ne: "unat x \<noteq> unat y" using assms(1) by (simp add: word_unat_eq_iff)
  note nn = canon_not_nil[OF assms(4)] canon_not_nil[OF assms(5)]
  show ?thesis
    by (rule canon_full[of _ "min (unat x) (unat y)" "max (unat x) (unat y)"])
      (use assms ne nn in \<open>auto simp: nth_list_update min_def max_def split: if_splits\<close>)
qed

lemma look_branch:
  assumes "unat x < 17" "unat y < 17" "x \<noteq> y"
  shows "look (branch_node x c y d) (z # r) = (if z = y then look d r else if z = x then look c r else None)"
  using assms by (auto simp: nth_list_update word_unat_eq_iff)

lemma expands_branch:
  assumes "unat x < 17" "unat y < 17" "expands load (p @ [x]) c c'" "expands load (p @ [y]) d d'"
  shows "expands load p (branch_node x c y d) (branch_node x c' y d')"
  using assms by (intro expands_full) (auto simp: nth_list_update word_unat_eq_iff[symmetric] intro: expands_nil)

lemma expands_node_at: "expands load (p @ b) c e \<Longrightarrow> expands load p (node_at b c) (node_at b e)"
  by (auto intro: expands_short)

lemma canon_update_full:
  assumes "canon False (FullNode es)" "i < 17" "canon (i = 16) e"
  shows "canon False (FullNode (es[i := e]))"
proof -
  from assms(1) obtain a b where es: "length es = 17" "\<And>i. i < 17 \<Longrightarrow> es ! i \<noteq> NilNode \<Longrightarrow> canon (i = 16) (es ! i)"
    "a < b" "b < 17" "es ! a \<noteq> NilNode" "es ! b \<noteq> NilNode" by (auto elim: canon_fullE)
  show ?thesis
    by (rule canon_full[of _ a b]) (use es assms(2,3) canon_not_nil[OF assms(3)] in \<open>auto simp: nth_list_update\<close>)
qed

lemma expands_update_full:
  assumes "length cs = length es" "\<And>i. i < length cs \<Longrightarrow> expands load (p @ [of_nat i]) (cs ! i) (es ! i)"
    "expands load (p @ [x]) n e"
  shows "expands load p (FullNode (cs[unat x := n])) (FullNode (es[unat x := e]))"
proof (rule expands_full)
  fix i
  assume "i < length (cs[unat x := n])"
  then show "expands load (p @ [of_nat i]) (cs[unat x := n] ! i) (es[unat x := e] ! i)"
    using assms by (cases "i = unat x") auto
qed (simp add: assms)

lemma look_update_full:
  assumes "length es = 17" "hex_key (x # r)" "hex_key k" "\<And>k. rest_key (unat x = 16) k \<Longrightarrow> look e k = f k"
  shows "look (FullNode (es[unat x := e])) k = (if hd k = x then f (tl k) else look (FullNode es) k)"
proof -
  obtain z s where k: "k = z # s" using assms(3) by (cases k) auto
  show ?thesis using assms unat_hex_key[of x r] unat_hex_key[of z s]
    by (auto simp: k nth_list_update word_unat_eq_iff[symmetric])
qed

lemma insert_leaves:
  assumes "expands load (p @ k) n e" "key_for t k" "canon t e" "\<And>k' e'. e \<noteq> ShortNode k' e'"
    "hex_key key" "\<not> has_prefix k key" "v \<noteq> []"
  shows "\<exists>n' e'. trie_insert load (ShortNode k n) p key (ValueNode v) = Some (Inr (True, n')) \<and>
    expands load p n' e' \<and> canon False e' \<and>
    (\<forall>k'. hex_key k' \<longrightarrow> look e' k' = (if k' = key then Some v else look (ShortNode k e) k'))"
proof -
  from key_leaves[OF assms(5,2,6)] obtain a x b y d where
    s: "key = a @ y # d" "k = a @ x # b" "x \<noteq> y" "prefixLen key k = length a" "nibbles a" "hex_key (y # d)"
    and kf: "x = 16 \<and> t \<and> b = [] \<or> x < 16 \<and> (b = [] \<and> \<not> t \<or> key_for t b)" by metis
  have y: "unat y < 17" "y = 16 \<and> True \<and> d = [] \<or> y < 16 \<and> (d = [] \<and> \<not> True \<or> key_for True d)"
    using s(6) unat_hex_key[of y d] by (auto simp: hex_key_Cons key_for_def)
  have x: "unat x < 17" using kf by (auto simp: word_less_nat_alt)
  let ?B = "\<lambda>n. branch_node x (node_at b n) y (node_at d (ValueNode v))"
  have ins: "trie_insert load (ShortNode k n) p key (ValueNode v) = Some (Inr (True, node_at a (?B n)))"
    using s x y(1) by (subst trie_insert.simps) (simp add: insert_nil index_get_def branch_out_def nth_append)
  have ex: "expands load p (node_at a (?B n)) (node_at a (?B e))"
    by (intro expands_node_at expands_branch x y(1)) (use assms(1) s(2) in \<open>auto intro: expands_value\<close>)
  have can: "canon False (?B e)"
    by (intro canon_branch s x y(1) canon_node_at[OF kf] canon_node_at[OF y(2)] assms) (simp_all add: assms(7))
  then have can': "canon False (node_at a (?B e))"
    using s(5) by (auto intro: canon_short[of False] simp: key_for_def)
  have lk: "look (node_at a (?B e)) k' = (if k' = key then Some v else look (ShortNode k e) k')" if "hex_key k'" for k'
  proof (cases "has_prefix a k'")
    case False
    then show ?thesis using s(1,2) by (auto simp: look_node_at has_prefix_iff)
  next
    case True
    then obtain r where r: "k' = a @ r" by (auto simp: has_prefix_iff)
    have hr: "hex_key r" using that s(5) by (simp add: r)
    then obtain z q where z: "r = z # q" by (cases r) auto
    have q: "look (node_at d (ValueNode v)) q = (if q = d then Some v else None)" if "z = y"
      using hr s(6) that y(2) hex_key_prefix[of d] by (auto simp: z look_node_at has_prefix_iff hex_key_Cons)
    show ?thesis using q s(3)
      by (simp add: r s(1,2) look_node_at z look_branch[OF x y(1) s(3)] has_prefix_def del: look.simps)
        (auto simp: has_prefix_def look_node_at)
  qed
  show ?thesis using ins ex can' lk by blast
qed

lemma look_short_key:
  assumes "key_for t k" "hex_key k'"
  shows "look (ShortNode k e) k' = (if has_prefix k k' then look e (drop (length k) k') else None)"
    "has_prefix k k' \<Longrightarrow> rest_key t (drop (length k) k')"
  using assms rest_key_append[OF assms(1)] by (auto simp: has_prefix_iff rest_key_def)

lemma expands_loaded:
  "expands load p n e \<Longrightarrow> is_ShortNode n \<or> is_FullNode n \<Longrightarrow> is_ShortNode e \<or> is_FullNode e"
  by (auto elim: expands.cases)

lemma insert_ok:
  assumes "expands load p n e" "node_slot t e" "rest_key t key" "v \<noteq> []"
  shows "\<exists>d n' e'. trie_insert load n p key (ValueNode v) = Some (Inr (d, n')) \<and>
    expands load p n' e' \<and> canon t e' \<and>
    (\<forall>k. rest_key t k \<longrightarrow> look e' k = (if k = key then Some v else look e k)) \<and> (\<not> d \<longrightarrow> e' = e) \<and>
    (is_ShortNode e' \<longrightarrow> e = NilNode \<or> is_ShortNode e)"
  using assms
proof (induction arbitrary: t key rule: expands.induct)
  case (expands_nil p)
  have "canon t (node_at key (ValueNode v))"
    using expands_nil by (cases t) (auto simp: rest_key_def key_for_def intro!: canon_short[of True])
  moreover have "look (node_at key (ValueNode v)) k = (if k = key then Some v else None)" if "rest_key t k" for k
    using that expands_nil hex_key_prefix[of key]
    by (cases t) (auto simp: rest_key_def has_prefix_iff)
  moreover have "expands load p (node_at key (ValueNode v)) (node_at key (ValueNode v))"
    by (rule expands_node_at, rule expands.expands_value)
  ultimately show ?case unfolding insert_nil
    by (intro exI[of _ True] exI[of _ "node_at key (ValueNode v)"]) (simp del: look.simps(2-6))
next
  case (expands_value p w)
  then have t: "t" "key = []" by (auto simp: node_slot_def rest_key_def)
  have "trie_insert load (ValueNode w) p key (ValueNode v) = Some (Inr (w \<noteq> v, ValueNode v))"
    by (subst trie_insert.simps) (simp add: t(2))
  then show ?case using expands.expands_value[of load p v] expands_value.prems(3) t
    by (intro exI[of _ "w \<noteq> v"] exI[of _ "ValueNode v"]) (simp add: rest_key_def)
next
  case (expands_short p k n e)
  then have t: "\<not> t" "hex_key key" and "canon t (ShortNode k e)"
    by (auto simp: node_slot_def rest_key_def elim: canon_shortE split: if_splits)
  then obtain u where u: "key_for u k" "canon u e" "\<And>k' e'. e \<noteq> ShortNode k' e'" by (auto elim: canon_shortE)
  show ?case
  proof (cases "has_prefix k key")
    case False
    from insert_leaves[OF expands_short.hyps u t(2) False \<open>v \<noteq> []\<close>] obtain n' e' where
      "trie_insert load (ShortNode k n) p key (ValueNode v) = Some (Inr (True, n'))" "expands load p n' e'" "canon False e'"
      "\<forall>k'. hex_key k' \<longrightarrow> look e' k' = (if k' = key then Some v else look (ShortNode k e) k')" by blast
    then show ?thesis using t
      by (intro exI[of _ True] exI[of _ n'] exI[of _ e']) (simp add: rest_key_def del: look.simps)
  next
    case True
    then obtain r where r: "key = k @ r" by (auto simp: has_prefix_iff)
    have "rest_key u r" using rest_key_append[OF u(1), of r] t by (simp add: r rest_key_def)
    then obtain d n' e' where ih: "trie_insert load n (p @ k) r (ValueNode v) = Some (Inr (d, n'))"
      "expands load (p @ k) n' e'" "canon u e'"
      "\<And>k. rest_key u k \<Longrightarrow> look e' k = (if k = r then Some v else look e k)" "\<not> d \<longrightarrow> e' = e"
      "\<not> is_ShortNode e'"
      using expands_short.IH[of u r] u \<open>v \<noteq> []\<close> canon_not_nil[OF u(2)] by (auto simp: node_slot_def is_ShortNode_def)
    have ne: "key \<noteq> []" using t(2) by auto
    have "trie_insert load (ShortNode k n) p key (ValueNode v) =
        Some (Inr (d, ShortNode k (if d then n' else n)))"
      using ih(1) ne prefixLen_full[of key k] True by (subst trie_insert.simps) (simp add: Let_def r)
    moreover have "expands load p (ShortNode k (if d then n' else n)) (ShortNode k e')"
      using ih(2,5) expands_short.hyps by (auto intro: expands.intros)
    moreover have "canon False (ShortNode k e')" using ih(6) by (auto intro: canon_short[OF u(1) ih(3)])
    moreover have "look (ShortNode k e') k' = (if k' = key then Some v else look (ShortNode k e) k')"
      if "hex_key k'" for k'
      using look_short_key[OF u(1) that] ih(4) by (auto simp: r has_prefix_iff simp del: look.simps)
    ultimately show ?thesis using ih(5) t
      by (intro exI[of _ d] exI[of _ "ShortNode k (if d then n' else n)"] exI[of _ "ShortNode k e'"])
        (simp add: rest_key_def del: look.simps)
  qed
next
  case (expands_full cs es p)
  then have t: "\<not> t" "hex_key key" and can: "canon False (FullNode es)"
    by (auto simp: node_slot_def rest_key_def elim: canon_fullE split: if_splits)
  then obtain x r where key: "key = x # r" "hex_key (x # r)" "unat x < 17" "rest_key (unat x = 16) r"
    using unat_hex_key by (cases key) auto
  have es: "length es = 17" "node_slot (unat x = 16) (es ! unat x)"
    using can key(3) by (auto elim!: canon_fullE simp: node_slot_def)
  obtain d n' e' where ih: "trie_insert load (cs ! unat x) (p @ [x]) r (ValueNode v) = Some (Inr (d, n'))"
      "expands load (p @ [x]) n' e'" "canon (unat x = 16) e'"
      "\<And>k. rest_key (unat x = 16) k \<Longrightarrow> look e' k = (if k = r then Some v else look (es ! unat x) k)" "\<not> d \<longrightarrow> e' = es ! unat x"
    using expands_full.IH[of "unat x" "unat x = 16" r] expands_full.hyps key es \<open>v \<noteq> []\<close> by auto
  have "trie_insert load (FullNode cs) p key (ValueNode v) =
      Some (Inr (d, FullNode (if d then cs[unat x := n'] else cs)))"
    using ih(1) key es expands_full.hyps by (subst trie_insert.simps) (simp add: index_get_def)
  moreover have "expands load p (FullNode (if d then cs[unat x := n'] else cs)) (FullNode (es[unat x := e']))"
    using expands_update_full[OF expands_full.hyps ih(2)] ih(5) expands.expands_full[OF expands_full.hyps] by auto
  moreover note canon_update_full[OF can key(3) ih(3)]
  moreover have "look (FullNode (es[unat x := e'])) k = (if k = key then Some v else look (FullNode es) k)"
    if "hex_key k" for k
    using look_update_full[OF es(1) key(2) that ih(4)] that es(1) key(3) by (cases k) (auto simp: key(1))
  moreover have "\<not> d \<Longrightarrow> es[unat x := e'] = es" using ih(5) by simp
  ultimately show ?case using t
    by (intro exI[of _ d] exI[of _ "FullNode (if d then cs[unat x := n'] else cs)"] exI[of _ "FullNode (es[unat x := e'])"])
      (simp add: rest_key_def del: look.simps)
next
  case (expands_hash p h n e)
  then obtain d n' e' where ih: "trie_insert load n p key (ValueNode v) = Some (Inr (d, n'))" "expands load p n' e'"
    "canon t e'" "\<forall>k. rest_key t k \<longrightarrow> look e' k = (if k = key then Some v else look e k)" "\<not> d \<longrightarrow> e' = e"
    "is_ShortNode e' \<longrightarrow> e = NilNode \<or> is_ShortNode e" by blast
  show ?case
  proof (cases "key = []")
    case True
    then have "canon True e \<or> e = NilNode" using expands_hash.prems by (cases t) (auto simp: node_slot_def rest_key_def)
    then show ?thesis using expands_loaded[OF expands_hash.hyps(3,2)] by (auto elim: canon.cases)
  next
    case False
    have "trie_insert load (HashNode h) p key (ValueNode v) = Some (Inr (d, if d then n' else n))"
      using False ih(1) expands_hash.hyps by (subst trie_insert.simps) simp
    moreover have "expands load p (if d then n' else n) e'" using ih(2,5) expands_hash.hyps(3) by simp
    ultimately show ?thesis using ih(3-6) by blast
  qed
qed

section \<open>Deletion\<close>

lemma remaining_found: "0 \<le> pos \<Longrightarrow> remaining_child i pos cs = (if \<forall>c \<in> set cs. c = NilNode then pos else -2)"
  by (induction cs arbitrary: i) auto

lemma remaining_child_cases:
  obtains (none) "remaining_child i (-1) cs = -1" "\<forall>c \<in> set cs. c = NilNode"
  | (one) j where "j < length cs" "remaining_child i (-1) cs = int (i + j)" "cs ! j \<noteq> NilNode"
      "\<And>k. k < length cs \<Longrightarrow> k \<noteq> j \<Longrightarrow> cs ! k = NilNode"
  | (more) j k where "j < k" "k < length cs" "cs ! j \<noteq> NilNode" "cs ! k \<noteq> NilNode" "remaining_child i (-1) cs = -2"
proof (induction cs arbitrary: i thesis)
  case Nil
  then show ?case by simp
next
  case (Cons c cs)
  show ?case
  proof (cases "c = NilNode")
    case True
    show ?thesis
    proof (rule Cons.IH[of "i + 1"])
      fix j
      assume "j < length cs" "remaining_child (i + 1) (-1) cs = int (i + 1 + j)" "cs ! j \<noteq> NilNode"
        "\<And>k. k < length cs \<Longrightarrow> k \<noteq> j \<Longrightarrow> cs ! k = NilNode"
      then show thesis using True by (intro Cons.prems(2)[of "Suc j"]) (auto simp: nth_Cons split: nat.splits)
    next
      fix j k
      assume "j < k" "k < length cs" "cs ! j \<noteq> NilNode" "cs ! k \<noteq> NilNode" "remaining_child (i + 1) (-1) cs = -2"
      then show thesis using True by (intro Cons.prems(3)[of "Suc j" "Suc k"]) auto
    qed (use True Cons.prems(1) in auto)
  next
    case False
    show ?thesis
    proof (cases "\<forall>c \<in> set cs. c = NilNode")
      case True
      then show thesis using False remaining_found[of "int i" "i + 1" cs]
        by (intro Cons.prems(2)[of 0]) (auto simp: nth_Cons split: nat.splits)
    next
      case more: False
      then obtain k where "k < length cs" "cs ! k \<noteq> NilNode" by (auto simp: in_set_conv_nth)
      then show thesis using False more remaining_found[of "int i" "i + 1" cs]
        by (intro Cons.prems(3)[of 0 "Suc k"]) auto
    qed
  qed
qed

lemma expands_not_nil:
  assumes "expands load p n e"
  shows "n = NilNode \<longleftrightarrow> e = NilNode"
  using assms by (cases rule: expands.cases) (auto dest: expands_loaded)

lemma remaining_child_expands:
  assumes "length cs = length es" "\<And>i. i < length cs \<Longrightarrow> expands load (p @ [of_nat i]) (cs ! i) (es ! i)"
  shows "remaining_child j pos cs = remaining_child j pos es"
proof -
  have "\<And>i. i < length cs \<Longrightarrow> cs ! i = NilNode \<longleftrightarrow> es ! i = NilNode" using assms expands_not_nil by blast
  with assms(1) have "list_all2 (\<lambda>c e. c = NilNode \<longleftrightarrow> e = NilNode) cs es" by (simp add: list_all2_conv_all_nth)
  then show ?thesis by (induction arbitrary: j pos rule: list_all2_induct) auto
qed

lemma expands_to_short:
  "expands load p n (ShortNode k e) \<Longrightarrow> \<not> is_HashNode n \<Longrightarrow> \<exists>m. n = ShortNode k m \<and> expands load (p @ k) m e"
  by (auto elim: expands.cases)

lemma expands_to_other:
  "expands load p n e \<Longrightarrow> \<not> is_ShortNode e \<Longrightarrow> \<not> is_HashNode n \<Longrightarrow> \<not> is_ShortNode n"
  by (auto elim: expands.cases)

lemma resolve_expands:
  assumes "expands load p n e"
  obtains m where "trie_resolve load n p = Inr m" "expands load p m e" "\<not> is_HashNode m"
proof (cases "is_HashNode n")
  case True
  then obtain h where "n = HashNode h" by (auto simp: is_HashNode_def)
  with assms obtain m where "load p h = Inr m" "is_ShortNode m \<or> is_FullNode m" "expands load p m e"
    by (auto elim: expands_hashE)
  then show ?thesis using that \<open>n = HashNode h\<close> by (auto simp: trie_resolve_def)
next
  case False
  then show ?thesis using that[of n] assms by (cases n) (auto simp: trie_resolve_def)
qed

lemma canon_cases:
  assumes "canon t e"
  obtains (val) v where "t" "e = ValueNode v" "v \<noteq> []"
  | (short) u k c where "\<not> t" "e = ShortNode k c" "key_for u k" "canon u c" "\<not> is_ShortNode c"
  | (full) cs where "\<not> t" "e = FullNode cs" "length cs = 17"
  using assms by (cases rule: canon.cases) (auto simp: is_ShortNode_def)

lemma canon_shortI: "key_for t k \<Longrightarrow> canon t e \<Longrightarrow> \<not> is_ShortNode e \<Longrightarrow> canon False (ShortNode k e)"
  by (auto intro: canon_short)

lemma canon_merge:
  assumes "nibbles k" "k \<noteq> []" "canon False (ShortNode k' e)"
  shows "canon False (ShortNode (k @ k') e)"
  using assms(3)
proof (cases rule: canon_cases)
  case (short u q c)
  then have "key_for u (k @ k')" using assms(1,2) by (cases u) (auto simp: key_for_def)
  then show ?thesis using canon_shortI[of u "k @ k'" e] short by simp
qed auto

lemma look_only_child:
  assumes "length es = 17" "j < 17" "\<And>k. k < 17 \<Longrightarrow> k \<noteq> j \<Longrightarrow> es ! k = NilNode" "hex_key k"
  shows "look (FullNode es) k = (if hd k = of_nat j then look (es ! j) (tl k) else None)"
proof -
  obtain z r where k: "k = z # r" using assms(4) by (cases k) auto
  have "unat z < 17" using unat_hex_key assms(4) by (auto simp: k)
  moreover have "unat z = j \<longleftrightarrow> z = of_nat j"
    using assms(2) by (auto simp: word_unat_eq_iff unat_of_nat)
  ultimately show ?thesis using assms(1-3) by (auto simp: k)
qed

lemma look_short_Cons: "look (ShortNode (j # k) e) (z # r) = (if z = j then look (ShortNode k e) r else None)"
  by (auto simp: has_prefix_def)

lemma reduce_full_ok:
  assumes len: "length cs = length es" "length es = 17"
    and ex: "\<And>i. i < length cs \<Longrightarrow> expands load (p @ [of_nat i]) (cs ! i) (es ! i)"
    and can: "\<And>i. i < 17 \<Longrightarrow> es ! i \<noteq> NilNode \<Longrightarrow> canon (i = 16) (es ! i)"
    and left: "i < 17" "es ! i \<noteq> NilNode"
  shows "\<exists>n' e'. reduce_full load p cs = Inr (True, n') \<and> expands load p n' e' \<and> canon False e' \<and>
    \<not> is_HashNode n' \<and> (\<forall>k. hex_key k \<longrightarrow> look e' k = look (FullNode es) k)"
proof (cases rule: remaining_child_cases[of 0 es])
  case none
  then show ?thesis using left len by (metis nth_mem)
next
  case (more j k)
  have "canon False (FullNode es)" using more len by (intro canon_full[of _ j k] can) auto
  then show ?thesis using more(5) remaining_child_expands[OF len(1) ex] expands_full[OF len(1) ex]
    by (intro exI[of _ "FullNode cs"] exI[of _ "FullNode es"]) (simp add: reduce_full_def)
next
  case (one j)
  let ?j = "of_nat j :: byte"
  have j: "j < 17" "remaining_child 0 (-1) cs = int j" "canon (j = 16) (es ! j)"
    using one len remaining_child_expands[OF len(1) ex] can by auto
  have lk: "look (FullNode es) k = (if hd k = ?j then look (es ! j) (tl k) else None)" if "hex_key k" for k
    using look_only_child[OF len(2) j(1) _ that] one(4) len by simp
  have exj: "expands load (p @ [?j]) (cs ! j) (es ! j)" using ex[of j] len j by simp
  have short: ?thesis if "reduce_full load p cs = Inr (True, ShortNode [?j] (cs ! j))" "\<not> is_ShortNode (es ! j)"
      "key_for (j = 16) [?j]"
  proof -
    have "look (ShortNode [?j] (es ! j)) k = look (FullNode es) k" if "hex_key k" for k
      using lk[OF that] that by (cases k) (simp_all add: has_prefix_def)
    then show ?thesis using that expands_short[of load p "[?j]", OF exj] canon_shortI[OF that(3) j(3) that(2)]
      by (intro exI[of _ "ShortNode [?j] (cs ! j)"] exI[of _ "ShortNode [?j] (es ! j)"]) (simp del: look.simps)
  qed
  show ?thesis
  proof (cases "j = 16")
    case True
    then show ?thesis using short j by (auto simp: reduce_full_def key_for_def hex_key_Cons elim: canon.cases)
  next
    case False
    then have nib: "?j < 16" using j(1) by (simp add: word_less_nat_alt unat_of_nat)
    from resolve_expands[OF exj] obtain m where m: "trie_resolve load (cs ! j) (p @ [?j]) = Inr m"
      "expands load (p @ [?j]) m (es ! j)" "\<not> is_HashNode m" .
    show ?thesis
    proof (cases "is_ShortNode (es ! j)")
      case False
      then have "\<not> is_ShortNode m" using expands_to_other m by blast
      then have "reduce_full load p cs = Inr (True, ShortNode [?j] (cs ! j))"
        using m(1) j(2) \<open>j \<noteq> 16\<close> by (cases m) (auto simp: reduce_full_def Let_def)
      then show ?thesis using short[OF _ False] \<open>j \<noteq> 16\<close> nib by (simp add: key_for_def)
    next
      case True
      then obtain k e where e: "es ! j = ShortNode k e" by (auto simp: is_ShortNode_def)
      with m obtain n where n: "m = ShortNode k n" "expands load (p @ [?j] @ k) n e" using expands_to_short by fastforce
      have can': "canon False (ShortNode (?j # k) e)"
        using canon_merge[of "[?j]" k e] j(3) nib \<open>j \<noteq> 16\<close> by (simp add: e)
      have "look (ShortNode (?j # k) e) q = look (FullNode es) q" if "hex_key q" for q
        using lk[OF that] that by (cases q) (simp_all add: look_short_Cons e del: look.simps)
      then show ?thesis using m(1) j(2) n can' \<open>j \<noteq> 16\<close> expands_short[of load p "?j # k" n e]
        by (intro exI[of _ "ShortNode (?j # k) n"] exI[of _ "ShortNode (?j # k) e"])
          (simp add: reduce_full_def del: look.simps)
    qed
  qed
qed

lemma delete_mismatch:
  assumes "expands load p (ShortNode k n) (ShortNode k e)" "canon False (ShortNode k e)" "key_for u k"
    "hex_key key" "\<not> has_prefix k key"
  shows "deletes load p key False (ShortNode k n) (ShortNode k e) False (ShortNode k n) (ShortNode k e)"
proof -
  have "prefixLen key k < length k"
    using assms(5) prefixLen_le(1)[of key k] prefixLen_full[of key k] by linarith
  then have "trie_delete load (ShortNode k n) p key = Some (Inr (False, ShortNode k n))"
    by (subst trie_delete.simps) (simp add: Let_def)
  then show ?thesis using assms by (auto simp: deletes_def node_slot_def)
qed

lemma delete_leaf:
  assumes "hex_key key"
  shows "deletes load p key False (ShortNode key n) (ShortNode key e) True NilNode NilNode"
proof -
  have "prefixLen key key = length key" by (simp add: prefixLen_full has_prefix_def)
  then have "trie_delete load (ShortNode key n) p key = Some (Inr (True, NilNode))"
    by (subst trie_delete.simps) simp
  moreover have "\<not> has_prefix key k" if "hex_key k" "k \<noteq> key" for k
    using that hex_key_prefix[OF assms] by (auto simp: has_prefix_iff)
  ultimately show ?thesis by (auto simp: deletes_def node_slot_def rest_key_def intro: expands_nil)
qed

lemma look_merge: "look (ShortNode (k @ k') e) q = look (ShortNode k (ShortNode k' e)) q"
proof (cases "has_prefix k q")
  case True
  then obtain r where "q = k @ r" by (auto simp: has_prefix_iff)
  then show ?thesis by (simp add: has_prefix_def)
qed (auto simp: has_prefix_iff)

lemma delete_below:
  assumes "nibbles k" "k \<noteq> []" "deletes load (p @ k) r False n e d n' e'" "is_FullNode e" "canon False e"
    "expands load (p @ k) n e" "hex_key r"
  shows "\<exists>n' e'. deletes load p (k @ r) False (ShortNode k n) (ShortNode k e) d n' e'"
proof -
  let ?m = "\<lambda>c. case c of ShortNode ckey cval \<Rightarrow> ShortNode (k @ ckey) cval | _ \<Rightarrow> ShortNode k c"
  have del: "trie_delete load n (p @ k) r = Some (Inr (d, n'))" and ex: "expands load (p @ k) n' e'"
    and can: "canon False e'" and lk: "\<And>q. hex_key q \<Longrightarrow> look e' q = (if q = r then None else look e q)"
    and nd: "\<not> d \<Longrightarrow> e' = e" and nh: "d \<Longrightarrow> \<not> is_HashNode n'"
    using assms(3,4) by (auto simp: deletes_def node_slot_def rest_key_def)
  have "prefixLen (k @ r) k = length k" by (simp add: prefixLen_full)
  moreover have "r \<noteq> []" using assms(7) by auto
  ultimately have d: "trie_delete load (ShortNode k n) p (k @ r) = Some (Inr (d, if d then ?m n' else ShortNode k n))"
    using del by (subst trie_delete.simps) (simp add: Let_def)
  have lk': "look (ShortNode k e') q = (if q = k @ r then None else look (ShortNode k e) q)" if "hex_key q" for q
    using lk that assms(1) by (cases "has_prefix k q") (auto simp: has_prefix_iff split: if_splits)
  show ?thesis
  proof (cases "d \<and> is_ShortNode e'")
    case True
    then obtain k' c where e': "e' = ShortNode k' c" by (auto simp: is_ShortNode_def)
    with True ex nh obtain m where m: "n' = ShortNode k' m" "expands load (p @ k @ k') m c"
      using expands_to_short[of load "p @ k" n' k' c] by auto
    have "deletes load p (k @ r) False (ShortNode k n) (ShortNode k e) d (ShortNode (k @ k') m) (ShortNode (k @ k') c)"
      using d True m lk' canon_merge[OF assms(1,2)] can expands_short[of load p "k @ k'" m c]
      by (simp add: deletes_def node_slot_def rest_key_def look_merge e' del: look.simps)
    then show ?thesis by blast
  next
    case False
    have m: "?m n' = ShortNode k n'" if d
      using False that expands_to_other[OF ex] nh by (auto simp: is_ShortNode_def split: node.split)
    have "canon False (ShortNode k e')"
      using False nd can assms(1,2,4) by (cases d) (auto intro!: canon_shortI[of False] simp: key_for_def is_FullNode_def)
    then have "deletes load p (k @ r) False (ShortNode k n) (ShortNode k e) d
        (if d then ShortNode k n' else ShortNode k n) (ShortNode k e')"
      using d m lk' nd expands_short[OF ex] expands_short[OF assms(6)]
      by (auto simp: deletes_def node_slot_def rest_key_def simp del: look.simps)
    then show ?thesis by blast
  qed
qed

lemma delete_child:
  assumes full: "length cs = length es" "\<And>i. i < length cs \<Longrightarrow> expands load (p @ [of_nat i]) (cs ! i) (es ! i)"
    and can: "canon False (FullNode es)" and key: "hex_key (x # r)"
    and del: "deletes load (p @ [x]) r (unat x = 16) (cs ! unat x) (es ! unat x) d n' e'"
  shows "\<exists>n' e'. deletes load p (x # r) False (FullNode cs) (FullNode es) d n' e'"
proof -
  have x: "unat x < 17" using unat_hex_key[OF key] by simp
  from can obtain a b where es: "length es = 17" "\<And>i. i < 17 \<Longrightarrow> es ! i \<noteq> NilNode \<Longrightarrow> canon (i = 16) (es ! i)"
    "a < b" "b < 17" "es ! a \<noteq> NilNode" "es ! b \<noteq> NilNode" by (auto elim: canon_fullE)
  have d: "trie_delete load (cs ! unat x) (p @ [x]) r = Some (Inr (d, n'))" and ex: "expands load (p @ [x]) n' e'"
    and slot: "node_slot (unat x = 16) e'"
    and lk: "\<And>k. rest_key (unat x = 16) k \<Longrightarrow> look e' k = (if k = r then None else look (es ! unat x) k)"
    and nd: "\<not> d \<Longrightarrow> e' = es ! unat x" and nh: "d \<Longrightarrow> \<not> is_HashNode n'"
    using del by (auto simp: deletes_def)
  have lk': "look (FullNode (es[unat x := e'])) k = (if k = x # r then None else look (FullNode es) k)"
    if "hex_key k" for k
    using look_update_full[OF es(1) key that lk] that es(1) x by (cases k) auto
  note ex' = expands_update_full[OF full ex]
  have run: "trie_delete load (FullNode cs) p (x # r) =
      Some (if \<not> d then Inr (False, FullNode cs)
            else if n' \<noteq> NilNode then Inr (True, FullNode (cs[unat x := n']))
            else reduce_full load p (cs[unat x := n']))"
    using d x es(1) full(1) by (subst trie_delete.simps) (simp add: index_get_def)
  consider "\<not> d" | "d" "n' \<noteq> NilNode" | "d" "n' = NilNode" by blast
  then show ?thesis
  proof cases
    case 1
    then have "deletes load p (x # r) False (FullNode cs) (FullNode es) d (FullNode cs) (FullNode es)"
      using run lk' nd can expands_full[OF full]
      by (auto simp: deletes_def node_slot_def rest_key_def simp del: look.simps)
    then show ?thesis by blast
  next
    case 2
    then have "canon (unat x = 16) e'" using slot expands_not_nil[OF ex] by (simp add: node_slot_def)
    then have "deletes load p (x # r) False (FullNode cs) (FullNode es) d (FullNode (cs[unat x := n'])) (FullNode (es[unat x := e']))"
      using 2 run lk' ex' canon_update_full[OF can x]
      by (simp add: deletes_def node_slot_def rest_key_def del: look.simps)
    then show ?thesis by blast
  next
    case 3
    obtain c where c: "c < 17" "es[unat x := e'] ! c \<noteq> NilNode"
      using es x by (cases "a = unat x") (metis less_trans nth_list_update_neq order_less_irrefl)+
    have "\<exists>n1 e1. reduce_full load p (cs[unat x := n']) = Inr (True, n1) \<and> expands load p n1 e1 \<and> canon False e1 \<and>
        \<not> is_HashNode n1 \<and> (\<forall>k. hex_key k \<longrightarrow> look e1 k = look (FullNode (es[unat x := e'])) k)"
    proof (rule reduce_full_ok[OF _ _ _ _ c])
      show "expands load (p @ [of_nat i]) (cs[unat x := n'] ! i) (es[unat x := e'] ! i)" if "i < length (cs[unat x := n'])" for i
        using ex' that by (auto elim: expands_fullE)
      show "canon (i = 16) (es[unat x := e'] ! i)" if "i < 17" "es[unat x := e'] ! i \<noteq> NilNode" for i
        using that es slot x by (cases "i = unat x") (auto simp: node_slot_def)
    qed (use full(1) es(1) in simp_all)
    then obtain n1 e1 where "reduce_full load p (cs[unat x := n']) = Inr (True, n1)" "expands load p n1 e1" "canon False e1"
      "\<not> is_HashNode n1" "\<forall>k. hex_key k \<longrightarrow> look e1 k = look (FullNode (es[unat x := e'])) k" by blast
    then have "deletes load p (x # r) False (FullNode cs) (FullNode es) d n1 e1"
      using 3 run lk' by (simp add: deletes_def node_slot_def rest_key_def canon_not_nil del: look.simps)
    then show ?thesis by blast
  qed
qed

lemma delete_ok:
  assumes "expands load p n e" "node_slot t e" "rest_key t key"
  shows "\<exists>d n' e'. deletes load p key t n e d n' e'"
  using assms
proof (induction arbitrary: t key rule: expands.induct)
  case (expands_nil p)
  have "trie_delete load NilNode p key = Some (Inr (False, NilNode))" by (subst trie_delete.simps) simp
  then show ?case by (auto simp: deletes_def node_slot_def intro!: expands.intros)
next
  case (expands_value p w)
  have "trie_delete load (ValueNode w) p key = Some (Inr (True, NilNode))" by (subst trie_delete.simps) simp
  then have "deletes load p key t (ValueNode w) (ValueNode w) True NilNode NilNode"
    using expands_value by (auto simp: deletes_def node_slot_def rest_key_def intro!: expands.intros)
  then show ?case by blast
next
  case (expands_short p k n e)
  then have can: "canon t (ShortNode k e)" by (simp add: node_slot_def)
  then obtain u where t: "\<not> t" and u: "key_for u k" "canon u e" "\<not> is_ShortNode e" by (cases rule: canon_cases) auto
  have key: "hex_key key" using t expands_short.prems by (simp add: rest_key_def)
  show ?case
  proof (cases "has_prefix k key")
    case False
    from delete_mismatch[OF expands.expands_short[OF expands_short.hyps] _ u(1) key this] can t show ?thesis by auto
  next
    case True
    then obtain r where r: "key = k @ r" by (auto simp: has_prefix_iff)
    have rest: "rest_key u r" using rest_key_append[OF u(1), of r] key by (simp add: r rest_key_def)
    show ?thesis
    proof (cases u)
      case True
      then have "key = k" using rest by (simp add: r rest_key_def)
      then show ?thesis using delete_leaf[OF key, of load p n e] t by auto
    next
      case False
      then have nib: "nibbles k" "k \<noteq> []" "canon False e" "hex_key r" "is_FullNode e"
        using u rest by (auto simp: key_for_def rest_key_def elim: canon_cases)
      obtain d n' e' where "deletes load (p @ k) r False n e d n' e'"
        using expands_short.IH[of False r] nib by (auto simp: node_slot_def rest_key_def)
      from delete_below[OF nib(1,2) this nib(5,3) expands_short.hyps nib(4)] show ?thesis using t by (auto simp: r)
    qed
  qed
next
  case (expands_full cs es p)
  then have t: "\<not> t" "hex_key key" and can: "canon False (FullNode es)"
    by (auto simp: node_slot_def rest_key_def elim: canon_fullE split: if_splits)
  then obtain x r where key: "key = x # r" "hex_key (x # r)" "unat x < 17" "rest_key (unat x = 16) r"
    using unat_hex_key by (cases key) auto
  have es: "length es = 17" "node_slot (unat x = 16) (es ! unat x)"
    using can key(3) by (auto elim!: canon_fullE simp: node_slot_def)
  obtain d n' e' where "deletes load (p @ [x]) r (unat x = 16) (cs ! unat x) (es ! unat x) d n' e'"
    using expands_full.IH[of "unat x" "unat x = 16" r] expands_full.hyps key es by auto
  from delete_child[OF expands_full.hyps can key(2) this] show ?case using t key(1) by auto
next
  case (expands_hash p h n e)
  then obtain d n' e' where ih: "deletes load p key t n e d n' e'" by blast
  then have "trie_delete load (HashNode h) p key = Some (Inr (d, if d then n' else n))"
    using expands_hash.hyps by (subst trie_delete.simps) (simp add: deletes_def)
  then have "deletes load p key t (HashNode h) e d (if d then n' else n) e'"
    using ih expands_hash.hyps by (cases d) (auto simp: deletes_def)
  then show ?case by blast
qed

section \<open>Lookup\<close>

lemma get_ok:
  assumes "expands load p n e" "p = take pos key" "pos \<le> length key" "node_slot t e" "rest_key t (drop pos key)"
  shows "\<exists>n' d. trie_get load n key pos = Some (Inr (look e (drop pos key), n', d)) \<and> expands load p n' e"
  using assms
proof (induction arbitrary: t pos rule: expands.induct)
  case (expands_nil p)
  then show ?case by (subst trie_get.simps) (auto intro: expands.intros)
next
  case (expands_value p w)
  then show ?case by (subst trie_get.simps) (auto simp: node_slot_def rest_key_def intro: expands.intros)
next
  case (expands_short p k n e)
  note ex = expands.expands_short[OF expands_short.hyps]
  from expands_short.prems have "canon t (ShortNode k e)" by (simp add: node_slot_def)
  then obtain u where t: "\<not> t" and u: "key_for u k" "canon u e" by (cases rule: canon_cases) auto
  have key: "hex_key (drop pos key)" using expands_short.prems(4) t by (simp add: rest_key_def)
  show ?case
  proof (cases "has_prefix k (drop pos key)")
    case False
    then have "trie_get load (ShortNode k n) key pos = Some (Inr (None, ShortNode k n, False))"
      using expands_short.prems(2) by (subst trie_get.simps) simp
    then show ?thesis using False ex by auto
  next
    case True
    then obtain r where r: "drop pos key = k @ r" by (auto simp: has_prefix_iff)
    have "rest_key u r" using look_short_key(2)[OF u(1) key True] by (simp add: r)
    moreover have "drop (pos + length k) key = r"
      using arg_cong[OF r, of "drop (length k)"] by (simp add: add.commute)
    moreover have "take (pos + length k) key = p @ k" using r expands_short.prems(1) by (simp add: take_add)
    moreover have "pos + length k \<le> length key"
      using arg_cong[OF r, of length] expands_short.prems(2) by simp
    ultimately obtain n' d where "trie_get load n key (pos + length k) = Some (Inr (look e r, n', d))"
      "expands load (p @ k) n' e"
      using expands_short.IH[of "pos + length k" u] u(2) by (auto simp: node_slot_def)
    moreover from this have "trie_get load (ShortNode k n) key pos =
        Some (Inr (look e r, if d then ShortNode k n' else ShortNode k n, d))"
      using expands_short.prems(2) True by (subst trie_get.simps) simp
    ultimately show ?thesis using r ex expands.expands_short[of load p k n' e] by (cases d) auto
  qed
next
  case (expands_full cs es p)
  note ex = expands.expands_full[OF expands_full.hyps]
  from expands_full.prems have can: "canon False (FullNode es)" and key: "hex_key (drop pos key)"
    by (auto simp: node_slot_def rest_key_def elim: canon_fullE split: if_splits)
  then obtain x r where xr: "drop pos key = x # r" by (cases "drop pos key") auto
  then have len: "pos < length key" by (metis drop_all list.discI not_le)
  then have "key ! pos = x" "drop (pos + 1) key = r" using Cons_nth_drop_Suc[OF len] xr by simp_all
  then have pos: "key ! pos = x" "drop (pos + 1) key = r" "take (pos + 1) key = p @ [x]" "pos + 1 \<le> length key"
    using expands_full.prems(1) take_Suc_conv_app_nth[OF len] len by simp_all
  have x: "unat x < 17" "rest_key (unat x = 16) r" using unat_hex_key[of x r] key by (simp_all add: xr)
  have es: "length es = 17" "node_slot (unat x = 16) (es ! unat x)"
    using can x(1) by (auto elim!: canon_fullE simp: node_slot_def)
  obtain n' d where ih: "trie_get load (cs ! unat x) key (pos + 1) = Some (Inr (look (es ! unat x) r, n', d))"
    "expands load (p @ [x]) n' (es ! unat x)"
    using expands_full.IH[of "unat x" "pos + 1" "unat x = 16"] expands_full.hyps(1) x es pos by auto
  have "expands load p (FullNode (cs[unat x := n'])) (FullNode es)"
    using expands_update_full[OF expands_full.hyps ih(2)] by simp
  moreover have "trie_get load (FullNode cs) key pos =
      Some (Inr (look (FullNode es) (x # r), if d then FullNode (cs[unat x := n']) else FullNode cs, d))"
    using ih(1) pos(1) len x es expands_full.hyps(1) by (subst trie_get.simps) (simp add: index_get_def)
  ultimately show ?case using ex xr by (cases d) auto
next
  case (expands_hash p h n e)
  then obtain n' d where "trie_get load n key pos = Some (Inr (look e (drop pos key), n', d))" "expands load p n' e"
    by blast
  then show ?case using expands_hash by (subst trie_get.simps) auto
qed

section \<open>The form is determined by the bindings\<close>

lemma hex_key_of_nat: "i < 17 \<Longrightarrow> hex_key (of_nat i # k) \<longleftrightarrow> rest_key (i = 16) k"
  by (auto simp: hex_key_Cons rest_key_def word_less_nat_alt unat_of_nat word_unat_eq_iff)

lemma look_child: "length cs = 17 \<Longrightarrow> i < 17 \<Longrightarrow> look (FullNode cs) (of_nat i # k) = look (cs ! i) k"
  by (simp add: unat_of_nat)

lemma canon_has_key: "canon t e \<Longrightarrow> \<exists>k. rest_key t k \<and> look e k \<noteq> None"
proof (induction rule: canon.induct)
  case (canon_value v)
  then show ?case by (auto simp: rest_key_def)
next
  case (canon_short t k e)
  then obtain q where "rest_key t q" "look e q \<noteq> None" by blast
  then show ?case using rest_key_append[OF canon_short.hyps(1), of q] by (intro exI[of _ "k @ q"]) simp
next
  case (canon_full cs i j)
  have i: "i < 17" using canon_full.hyps(3,4) by simp
  from canon_full.IH[OF i canon_full.hyps(5)] obtain k where k: "rest_key (i = 16) k" "look (cs ! i) k \<noteq> None" by blast
  have "rest_key False (of_nat i # k)" unfolding rest_key_def[of False] using hex_key_of_nat[OF i] k(1) by simp
  moreover have "look (FullNode cs) (of_nat i # k) \<noteq> None"
    unfolding look_child[OF canon_full.hyps(1) i] by (rule k(2))
  ultimately show ?case by blast
qed

lemma full_two_keys:
  assumes "canon False (FullNode cs)"
  obtains x r y s where "x \<noteq> y" "hex_key (x # r)" "hex_key (y # s)"
    "look (FullNode cs) (x # r) \<noteq> None" "look (FullNode cs) (y # s) \<noteq> None"
proof -
  from assms obtain i j where cs: "length cs = 17" "\<And>i. i < 17 \<Longrightarrow> cs ! i \<noteq> NilNode \<Longrightarrow> canon (i = 16) (cs ! i)"
    "i < j" "j < 17" "cs ! i \<noteq> NilNode" "cs ! j \<noteq> NilNode" by (auto elim: canon_fullE)
  then have i: "i < 17" by simp
  have ne: "of_nat i \<noteq> (of_nat j :: byte)" using cs(3,4) by (simp add: word_unat_eq_iff unat_of_nat)
  from canon_has_key[OF cs(2)[OF i cs(5)]] canon_has_key[OF cs(2)[OF cs(4,6)]] obtain r s where
    rs: "rest_key (i = 16) r" "look (cs ! i) r \<noteq> None" "rest_key (j = 16) s" "look (cs ! j) s \<noteq> None" by blast
  show ?thesis
    by (rule that[OF ne]) (use rs i cs(1,4) in \<open>simp_all add: hex_key_of_nat look_child del: look.simps\<close>)
qed

lemma short_longest:
  assumes "canon False (ShortNode k e)" "\<And>q. hex_key q \<Longrightarrow> look (ShortNode k e) q \<noteq> None \<Longrightarrow> has_prefix k' q"
  shows "has_prefix k' k"
proof -
  from assms(1) obtain u where u: "key_for u k" "canon u e" "\<not> is_ShortNode e" by (auto elim: canon_cases)
  have at: "has_prefix k' (k @ q)" if "rest_key u q" "look e q \<noteq> None" for q
    using that rest_key_append[OF u(1), of q] by (intro assms(2)) (simp_all add: rest_key_def[of False])
  show ?thesis using u(2)
  proof (cases rule: canon_cases)
    case (val v)
    then show ?thesis using at[of "[]"] by (simp add: rest_key_def)
  next
    case (full cs)
    with u(2) have "canon False (FullNode cs)" by simp
    then obtain x r y s where xy: "x \<noteq> y" "hex_key (x # r)" "hex_key (y # s)"
      "look e (x # r) \<noteq> None" "look e (y # s) \<noteq> None" using full(2) by (metis full_two_keys)
    then have "has_prefix k' (k @ x # r)" "has_prefix k' (k @ y # s)" using at full(1) by (auto simp: rest_key_def)
    then show ?thesis using xy(1)
      by (auto simp: has_prefix_iff append_eq_append_conv2 append_eq_Cons_conv Cons_eq_append_conv)
  qed (use u(3) in simp)
qed

lemma look_short_prefix: "look (ShortNode k e) q \<noteq> None \<Longrightarrow> has_prefix k q"
  by (simp split: if_splits)

lemma short_same_key:
  assumes "canon False (ShortNode k e)" "canon False (ShortNode k' e')"
    "\<And>q. hex_key q \<Longrightarrow> look (ShortNode k e) q = look (ShortNode k' e') q"
  shows "k = k'"
proof -
  have "has_prefix k' k"
    by (rule short_longest[OF assms(1)], rule look_short_prefix[of k' e']) (metis assms(3))
  moreover have "has_prefix k k'"
    by (rule short_longest[OF assms(2)], rule look_short_prefix[of k e]) (metis assms(3))
  ultimately show ?thesis by (auto simp: has_prefix_iff)
qed

lemma short_not_full:
  assumes "canon False (ShortNode k e)" "canon False (FullNode cs)"
    "\<And>q. hex_key q \<Longrightarrow> look (ShortNode k e) q = look (FullNode cs) q"
  shows False
proof -
  from full_two_keys[OF assms(2)] obtain x r y s where xy: "x \<noteq> y" "hex_key (x # r)" "hex_key (y # s)"
    "look (FullNode cs) (x # r) \<noteq> None" "look (FullNode cs) (y # s) \<noteq> None" .
  have "look (ShortNode k e) (x # r) \<noteq> None" "look (ShortNode k e) (y # s) \<noteq> None"
    unfolding assms(3)[OF xy(2)] assms(3)[OF xy(3)] by (rule xy(4), rule xy(5))
  note this[THEN look_short_prefix]
  moreover have "k \<noteq> []" using assms(1) by (cases rule: canon_cases) (auto simp: key_for_def)
  ultimately show False using xy(1) by (cases k) (auto simp: has_prefix_def)
qed

lemma canon_unique:
  assumes "canon t e" "canon t e'" "\<And>k. rest_key t k \<Longrightarrow> look e k = look e' k"
  shows "e = e'"
  using assms
proof (induction arbitrary: e' rule: canon.induct)
  case (canon_value v)
  from canon_value.prems(1) show ?case using canon_value.prems(2)[of "[]"]
    by (cases rule: canon_cases) (auto simp: rest_key_def)
next
  case (canon_short u k e)
  note can = canon.canon_short[OF canon_short.hyps]
  have same: "\<And>q. hex_key q \<Longrightarrow> look (ShortNode k e) q = look e' q"
    using canon_short.prems(2) by (simp add: rest_key_def del: look.simps)
  from canon_short.prems(1) show ?case
  proof (cases rule: canon_cases)
    case (short u' k' c)
    then have k: "k = k'" using short_same_key[OF can, of k' c] same canon_short.prems(1) by simp
    have u: "u = u'" using canon_short.hyps(1) short(3) k
      by (auto simp: key_for_def hex_key_def split: if_splits)
    have "look e q = look c q" if "rest_key u q" for q
      using same[of "k @ q"] that rest_key_append[OF canon_short.hyps(1), of q] k short(2) by (simp add: rest_key_def[of False])
    then show ?thesis using canon_short.IH[of c] short k u by simp
  next
    case (full cs)
    then show ?thesis using short_not_full[OF can, of cs] same canon_short.prems(1) unfolding full(2) by blast
  qed simp
next
  case (canon_full cs i j)
  note can = canon.canon_full[OF canon_full.hyps]
  have same: "\<And>q. hex_key q \<Longrightarrow> look (FullNode cs) q = look e' q"
    using canon_full.prems(2) by (simp add: rest_key_def del: look.simps)
  from canon_full.prems(1) show ?case
  proof (cases rule: canon_cases)
    case (short u' k' c)
    have "\<And>q. hex_key q \<Longrightarrow> look (ShortNode k' c) q = look (FullNode cs) q" using same unfolding short(2) by metis
    then show ?thesis using short_not_full[OF _ can, of k' c] canon_full.prems(1) unfolding short(2) by blast
  next
    case (full es)
    have "cs ! i = es ! i" if i: "i < 17" for i
    proof -
      have lk: "look (cs ! i) k = look (es ! i) k" if "rest_key (i = 16) k" for k
        using same[of "of_nat i # k"] that i look_child[of cs i k] look_child[of es i k] full canon_full.hyps(1)
        by (simp add: hex_key_of_nat del: look.simps)
      have es: "es ! i \<noteq> NilNode \<Longrightarrow> canon (i = 16) (es ! i)"
        using canon_full.prems(1) i unfolding full(2) by (auto elim: canon_fullE)
      have cs: "cs ! i \<noteq> NilNode \<Longrightarrow> canon (i = 16) (cs ! i)" using canon_full.hyps(2)[OF i] .
      have "cs ! i = NilNode \<longleftrightarrow> es ! i = NilNode"
        using canon_has_key[OF es] canon_has_key[OF cs] lk look.simps(1) by metis
      then show ?thesis using canon_full.IH[OF i _ es lk] by (cases "cs ! i = NilNode") auto
    qed
    then show ?thesis using full canon_full.hyps(1) by (auto intro: nth_equalityI)
  qed simp
qed

section \<open>The calls\<close>

lemma holds_get:
  assumes "trie_holds load t m"
  shows "\<exists>t'. trie_Get load key t = Some (Inr (m key), t') \<and> trie_holds load t' m"
proof -
  from assms obtain e where e: "\<not> tr_committed t" "expands load [] (tr_root t) e" "node_slot False e"
    "\<And>key. look e (keybytesToHex key) = m key" "\<And>k. hex_key k \<Longrightarrow> look e k \<noteq> None \<Longrightarrow> k \<in> range keybytesToHex"
    by (auto simp: trie_holds_def)
  obtain n d where g: "trie_get load (tr_root t) (keybytesToHex key) 0 = Some (Inr (m key, n, d))" "expands load [] n e"
    using get_ok[OF e(2) _ _ e(3), of 0 "keybytesToHex key"] e(4) by (auto simp: rest_key_def)
  have "trie_holds load (if d then t\<lparr>tr_root := n\<rparr> else t) m"
    using e g(2) by (auto simp: trie_holds_def)
  then show ?thesis using e(1) g(1) by (auto simp: trie_Get_def)
qed

lemma holds_set_root:
  assumes "\<not> tr_committed t" "expands load [] n e" "node_slot False e"
    "\<And>k. hex_key k \<Longrightarrow> look e k = (if k = keybytesToHex key then b else look e' k)"
    "\<And>key. look e' (keybytesToHex key) = m key" "\<And>k. hex_key k \<Longrightarrow> look e' k \<noteq> None \<Longrightarrow> k \<in> range keybytesToHex"
  shows "trie_holds load ((count_change t)\<lparr>tr_root := n\<rparr>) (m(key := b))"
  using assms by (auto simp: trie_holds_def count_change_def intro!: exI[of _ e] split: if_splits)

lemma holds_insert:
  assumes "trie_holds load t m" "val \<noteq> []"
  shows "\<exists>t'. trie_Update load key val t = Some (None, t') \<and> trie_holds load t' (m(key := Some val))"
proof -
  from assms(1) obtain e where e: "\<not> tr_committed t" "expands load [] (tr_root t) e" "node_slot False e"
    "\<And>key. look e (keybytesToHex key) = m key" "\<And>k. hex_key k \<Longrightarrow> look e k \<noteq> None \<Longrightarrow> k \<in> range keybytesToHex"
    by (auto simp: trie_holds_def)
  from insert_ok[OF e(2,3) _ assms(2), of "keybytesToHex key"] obtain d n' e' where
    i: "trie_insert load (tr_root t) [] (keybytesToHex key) (ValueNode val) = Some (Inr (d, n'))" "expands load [] n' e'"
    "canon False e'" "\<And>k. hex_key k \<Longrightarrow> look e' k = (if k = keybytesToHex key then Some val else look e k)"
    by (auto simp: rest_key_def)
  have "node_slot False e'" using i(3) by (simp add: node_slot_def)
  from holds_set_root[OF e(1) i(2) this i(4) e(4,5)] show ?thesis
    using e(1) i(1) assms(2) by (auto simp: trie_Update_def Let_def set_root_def count_change_def)
qed

lemma holds_delete:
  assumes "trie_holds load t m"
  shows "\<exists>t'. trie_Delete load key t = Some (None, t') \<and> trie_holds load t' (m(key := None))"
proof -
  from assms(1) obtain e where e: "\<not> tr_committed t" "expands load [] (tr_root t) e" "node_slot False e"
    "\<And>key. look e (keybytesToHex key) = m key" "\<And>k. hex_key k \<Longrightarrow> look e k \<noteq> None \<Longrightarrow> k \<in> range keybytesToHex"
    by (auto simp: trie_holds_def)
  from delete_ok[OF e(2,3), of "keybytesToHex key"] obtain d n' e' where
    i: "trie_delete load (tr_root t) [] (keybytesToHex key) = Some (Inr (d, n'))" "expands load [] n' e'"
    "node_slot False e'" "\<And>k. hex_key k \<Longrightarrow> look e' k = (if k = keybytesToHex key then None else look e k)"
    by (auto simp: rest_key_def deletes_def)
  from holds_set_root[OF e(1) i(2,3,4) e(4,5)] show ?thesis
    using e(1) i(1) by (auto simp: trie_Delete_def Let_def set_root_def count_change_def)
qed

lemma update_empty_value: "trie_Update load key [] t = trie_Delete load key t"
  by (simp add: trie_Update_def trie_Delete_def Let_def)

lemma holds_exec:
  assumes "trie_holds load t m"
  shows "\<exists>t'. trie_exec load c t = Some (Inr (fst (map_exec c m)), t') \<and> trie_holds load t' (snd (map_exec c m))"
proof (cases c)
  case (TGet key)
  then show ?thesis using holds_get[OF assms, of key] by simp
next
  case (TUpdate key val)
  show ?thesis
  proof (cases "val = []")
    case True
    then show ?thesis using holds_delete[OF assms, of key] by (auto simp: TUpdate update_empty_value)
  next
    case False
    then show ?thesis using holds_insert[OF assms False, of key] by (auto simp: TUpdate)
  qed
next
  case (TDelete key)
  then show ?thesis using holds_delete[OF assms, of key] by auto
qed

lemma holds_run:
  "trie_holds load t m \<Longrightarrow>
     \<exists>t'. trie_run load cs t = Some (map Inr (fst (map_run cs m)), t') \<and> trie_holds load t' (snd (map_run cs m))"
proof (induction cs arbitrary: t m)
  case (Cons c cs)
  from holds_exec[OF Cons.prems, of c] obtain t1 where
    t1: "trie_exec load c t = Some (Inr (fst (map_exec c m)), t1)" "trie_holds load t1 (snd (map_exec c m))" by blast
  from Cons.IH[OF t1(2)] show ?case using t1(1) by (auto simp: split_beta)
qed simp

lemma holds_unique:
  assumes "trie_holds load t m" "trie_holds load' t' m"
  shows "\<exists>e. expands load [] (tr_root t) e \<and> expands load' [] (tr_root t') e"
proof -
  from assms obtain e e' where e: "expands load [] (tr_root t) e" "node_slot False e"
    "expands load' [] (tr_root t') e'" "node_slot False e'"
    and lk: "\<And>key. look e (keybytesToHex key) = m key" "\<And>key. look e' (keybytesToHex key) = m key"
    "\<And>k. hex_key k \<Longrightarrow> look e k \<noteq> None \<Longrightarrow> k \<in> range keybytesToHex"
    "\<And>k. hex_key k \<Longrightarrow> look e' k \<noteq> None \<Longrightarrow> k \<in> range keybytesToHex"
    by (auto simp: trie_holds_def)
  have same: "look e k = look e' k" if "rest_key False k" for k
  proof (cases "k \<in> range keybytesToHex")
    case True
    then show ?thesis using lk(1,2) by auto
  next
    case False
    then have "look e k = None" "look e' k = None" using lk(3,4)[of k] that by (auto simp: rest_key_def)
    then show ?thesis by simp
  qed
  have "e = e'"
    using e(2,4) same canon_unique[of False e e'] canon_has_key[of False e] canon_has_key[of False e']
    by (auto simp: node_slot_def)
  then show ?thesis using e by blast
qed

text \<open>Two tries for the witnesses: one whose root is not loaded, and one that is in memory.\<close>

lemma sample_holds:
  "trie_holds sample_loader (sample_trie (HashNode [7])) [[1] \<mapsto> [5]]"
  "trie_holds no_nodes (sample_trie sample_leaf) [[1] \<mapsto> [5]]"
proof -
  let ?k = "keybytesToHex [1]"
  have leaf: "expands load [] sample_leaf sample_leaf" for load
    by (auto simp: sample_leaf_def intro!: expands.intros)
  have can: "node_slot False sample_leaf"
    by (auto simp: node_slot_def sample_leaf_def key_for_def intro!: canon_short[of True])
  have lk: "look sample_leaf k = (if k = ?k then Some [5] else None)" if "hex_key k" for k
    using that hex_key_prefix[of ?k] by (auto simp: sample_leaf_def has_prefix_iff)
  have "expands sample_loader [] (HashNode [7]) sample_leaf"
    by (rule expands_hash[OF _ _ leaf]) (simp_all add: sample_loader_def sample_leaf_def)
  then show "trie_holds sample_loader (sample_trie (HashNode [7])) [[1] \<mapsto> [5]]"
    "trie_holds no_nodes (sample_trie sample_leaf) [[1] \<mapsto> [5]]"
    using leaf can lk by (auto simp: trie_holds_def sample_trie_def intro!: exI[of _ sample_leaf] split: if_splits)
qed

text \<open>Tries that were never stored have no unloaded nodes.\<close>

lemma expands_no_nodes: "expands no_nodes p n e \<Longrightarrow> n = e"
proof (induction rule: expands.induct)
  case (expands_full cs es p)
  then show ?case by (auto intro: nth_equalityI)
qed (simp_all add: no_nodes_def)

lemma holds_empty: "trie_New load None = Inr t \<Longrightarrow> trie_holds load t Map.empty"
  using expands_nil by (auto simp: trie_New_def trie_holds_def node_slot_def Let_def intro!: exI[of _ NilNode])

section \<open>A deletion that fails\<close>

lemma blocked_nonempty: "blocked load p n key v err \<Longrightarrow> key \<noteq> []"
  by (induction rule: blocked.induct) auto

lemma get_leaf:
  "trie_get load (if k = [] then ValueNode v else ShortNode k (ValueNode v)) (q @ k) (length q) =
     Some (Inr (Some v, if k = [] then ValueNode v else ShortNode k (ValueNode v), False))"
  by (subst trie_get.simps) (simp add: trie_get.simps[of load "ValueNode v"] has_prefix_def)

lemma delete_leaf_node:
  "trie_delete load (if k = [] then ValueNode v else ShortNode k (ValueNode v)) p k = Some (Inr (True, NilNode))"
proof -
  have "prefixLen k k = length k" by (simp add: prefixLen_full has_prefix_def)
  then show ?thesis by (subst trie_delete.simps) simp
qed

lemma blocked_get:
  assumes "blocked load p n key v err"
  shows "trie_get load n (p @ key) (length p) = Some (Inr (Some v, n, False))"
  using assms
proof (induction rule: blocked.induct)
  case (blocked_here cs x j k v h p err)
  then have "cs ! unat x = (if k = [] then ValueNode v else ShortNode k (ValueNode v))" by auto
  then show ?case
    using blocked_here(1,2) get_leaf[of load k v "p @ [x]"] by (subst trie_get.simps) (simp add: index_get_def)
next
  case (blocked_short p k n r v err)
  then show ?case by (subst trie_get.simps) simp
next
  case (blocked_full cs x p r v err)
  then show ?case by (subst trie_get.simps) (simp add: index_get_def)
qed

lemma remaining_one:
  assumes "j < length cs" "cs ! j \<noteq> NilNode" "\<And>i. i < length cs \<Longrightarrow> i \<noteq> j \<Longrightarrow> cs ! i = NilNode"
  shows "remaining_child 0 (-1) cs = int j"
proof (cases rule: remaining_child_cases[of 0 cs])
  case (one i)
  then show ?thesis using assms by auto
next
  case (more i k)
  then show ?thesis using assms(3)[of i] assms(3)[of k] by auto
qed (use assms in auto)

lemma blocked_delete:
  assumes "blocked load p n key v err"
  shows "\<exists>n'. trie_delete load n p key = Some (Inl (err, n')) \<and>
    trie_get load n' (p @ key) (length p) = Some (Inr (None, n', False))"
  using assms
proof (induction rule: blocked.induct)
  case (blocked_here cs x j k v h p err)
  let ?cs = "cs[unat x := NilNode]"
  have c: "cs ! unat x = (if k = [] then ValueNode v else ShortNode k (ValueNode v))" using blocked_here by auto
  have ne: "unat j \<noteq> unat x" using blocked_here(4) by (simp add: word_unat_eq_iff)
  have "remaining_child 0 (-1) ?cs = int (unat j)"
    by (rule remaining_one) (use blocked_here ne in \<open>auto simp: nth_list_update\<close>)
  moreover have "int (unat j) < 16" using blocked_here(3) by linarith
  ultimately have "reduce_full load p ?cs = Inl (err, FullNode ?cs)"
    using blocked_here ne by (simp add: reduce_full_def Let_def trie_resolve_def)
  then have "trie_delete load (FullNode cs) p (x # k) = Some (Inl (err, FullNode ?cs))"
    using blocked_here(1,2) delete_leaf_node[of load k v "p @ [x]"] c
    by (subst trie_delete.simps) (simp add: index_get_def)
  moreover have "trie_get load (FullNode ?cs) (p @ x # k) (length p) = Some (Inr (None, FullNode ?cs, False))"
    using blocked_here(1,2) by (subst trie_get.simps) (simp add: index_get_def trie_get.simps[of load NilNode])
  ultimately show ?case by blast
next
  case (blocked_short p k n r v err)
  then obtain n' where n': "trie_delete load n (p @ k) r = Some (Inl (err, n'))"
    "trie_get load n' ((p @ k) @ r) (length (p @ k)) = Some (Inr (None, n', False))" by blast
  have "prefixLen (k @ r) k = length k" by (simp add: prefixLen_full)
  moreover have "r \<noteq> []" using blocked_nonempty[OF blocked_short(1)] .
  ultimately have "trie_delete load (ShortNode k n) p (k @ r) = Some (Inl (err, ShortNode k n'))"
    using n'(1) by (subst trie_delete.simps) (simp add: Let_def)
  moreover have "trie_get load (ShortNode k n') (p @ k @ r) (length p) = Some (Inr (None, ShortNode k n', False))"
    using n'(2) by (subst trie_get.simps) simp
  ultimately show ?case by blast
next
  case (blocked_full cs x p r v err)
  then obtain n' where n': "trie_delete load (cs ! unat x) (p @ [x]) r = Some (Inl (err, n'))"
    "trie_get load n' ((p @ [x]) @ r) (length (p @ [x])) = Some (Inr (None, n', False))" by blast
  have "trie_delete load (FullNode cs) p (x # r) = Some (Inl (err, FullNode (cs[unat x := n'])))"
    using n'(1) blocked_full(1,2) by (subst trie_delete.simps) (simp add: index_get_def)
  moreover have "trie_get load (FullNode (cs[unat x := n'])) (p @ x # r) (length p) =
      Some (Inr (None, FullNode (cs[unat x := n']), False))"
    using n'(2) blocked_full(1,2) by (subst trie_get.simps) (simp add: index_get_def)
  ultimately show ?case by blast
qed

lemma sample_blocked: "blocked no_nodes [] sample_full (keybytesToHex [16]) [5] MissingNodeError"
proof -
  have "blocked no_nodes [] sample_full (1 # [0, 16]) [5] MissingNodeError"
    unfolding sample_full_def
    by (rule blocked_here[where j = 2 and h = "[9]"])
      (auto simp: no_nodes_def nth_list_update)
  then show ?thesis by (simp add: keybytesToHex_def)
qed

section \<open>Properties\<close>

text \<open>
  C3: A trie behaves as a map from keys to values.  Any sequence of lookups, updates and deletions on
  a trie in use, whose unloaded nodes the database can bring, returns without an error or a panic
  what the calls on the map return, and leaves a trie that holds what the map holds.
\<close>

theorem trie_refines_map:
  assumes "trie_holds load t m"
  shows "\<exists>t'. trie_run load cs t = Some (map Inr (fst (map_run cs m)), t') \<and>
    trie_holds load t' (snd (map_run cs m))"
  using assms by (rule holds_run)

theorem trie_refines_map_witness:
  "trie_holds sample_loader (sample_trie (HashNode [7])) [[1] \<mapsto> [5]] \<and>
   (\<exists>t'. trie_run sample_loader [TUpdate [2] [6], TGet [1], TDelete [1], TGet [1], TGet [2]] (sample_trie (HashNode [7])) =
      Some ([Inr None, Inr (Some [5]), Inr None, Inr None, Inr (Some [6])], t'))"
  using trie_refines_map[OF sample_holds(1), of "[TUpdate [2] [6], TGet [1], TDelete [1], TGet [1], TGet [2]]"]
    sample_holds(1) by auto

text \<open>
  C4: The nodes of a trie depend on its bindings only, not on the calls that made it. Two sequences of
  lookups, updates and deletions on new tries that leave the same map both return, and the tries they
  leave have the same nodes, so the same root.
\<close>

theorem trie_form_unique:
  assumes "trie_New no_nodes None = Inr t" "snd (map_run cs Map.empty) = snd (map_run cs' Map.empty)"
  shows "\<exists>rs t1 rs' t2. trie_run no_nodes cs t = Some (rs, t1) \<and> trie_run no_nodes cs' t = Some (rs', t2) \<and>
    tr_root t1 = tr_root t2"
proof -
  note empty = holds_empty[OF assms(1)]
  from holds_run[OF empty, of cs] holds_run[OF empty, of cs'] assms(2) obtain rs t1 rs' t2 where
    r: "trie_run no_nodes cs t = Some (rs, t1)" "trie_run no_nodes cs' t = Some (rs', t2)"
    and h: "trie_holds no_nodes t1 (snd (map_run cs Map.empty))" "trie_holds no_nodes t2 (snd (map_run cs Map.empty))"
    by metis
  from holds_unique[OF h] show ?thesis using r expands_no_nodes by blast
qed

theorem trie_form_unique_witness:
  "\<exists>t rs t1 rs' t2. trie_New no_nodes None = Inr t \<and>
     trie_run no_nodes [TUpdate [1] [5], TUpdate [2] [6], TUpdate [1, 2] [7], TDelete [2]] t = Some (rs, t1) \<and>
     trie_run no_nodes [TUpdate [1, 2] [7], TUpdate [1] [5]] t = Some (rs', t2) \<and> tr_root t1 = tr_root t2"
proof -
  obtain t where t: "trie_New no_nodes None = Inr t" by (simp add: trie_New_def Let_def)
  have "snd (map_run [TUpdate [1] [5], TUpdate [2] [6], TUpdate [1, 2] [7], TDelete [2]] Map.empty) =
      snd (map_run [TUpdate [1, 2] [7], TUpdate [1] [5]] Map.empty)" by (auto simp: fun_eq_iff)
  from trie_form_unique[OF t this] t show ?thesis by blast
qed

text \<open>
  C40: A deletion can report an error and delete. When a key leads through loaded nodes to a value below
  a full node whose only other child (not the one at the terminator) is not loaded and cannot be
  loaded, \<open>Get\<close> finds the value, \<open>Delete\<close> returns the error of the loader, and afterwards \<open>Get\<close> does not
  find the key any more.
\<close>

theorem failed_delete_changes_trie:
  assumes "\<not> tr_committed t" "blocked load [] (tr_root t) (keybytesToHex key) v err"
  shows "\<exists>t'. trie_Get load key t = Some (Inr (Some v), t) \<and> trie_Delete load key t = Some (Some err, t') \<and>
    trie_Get load key t' = Some (Inr None, t')"
proof -
  obtain n' where n': "trie_delete load (tr_root t) [] (keybytesToHex key) = Some (Inl (err, n'))"
    "trie_get load n' (keybytesToHex key) 0 = Some (Inr (None, n', False))"
    using blocked_delete[OF assms(2)] by auto
  show ?thesis
    using assms(1) n' blocked_get[OF assms(2)]
    by (simp add: trie_Get_def trie_Delete_def set_root_def count_change_def Let_def)
qed

theorem failed_delete_changes_trie_witness:
  "trie_Get no_nodes [16] (sample_trie sample_full) = Some (Inr (Some [5]), sample_trie sample_full) \<and>
   (\<exists>t. trie_Delete no_nodes [16] (sample_trie sample_full) = Some (Some MissingNodeError, t) \<and>
        trie_Get no_nodes [16] t = Some (Inr None, t))"
  using failed_delete_changes_trie[of "sample_trie sample_full" no_nodes "[16]" "[5]" MissingNodeError] sample_blocked
  by (simp add: sample_trie_def)

end
