(* ===== verification/Storage_Trie.thy ===== *)
theory Storage_Trie
  imports Trie Rlp Statedb_Commit
begin

text \<open>
  The storage trie of an account: the secure trie (\<open>trie/secure_trie.go\<close>) hashes the slot keys and
  encodes the values, and \<open>updateTrie\<close> (\<open>core/state/state_object.go\<close>) writes the changed slots into it,
  the updates first and the deletions after them.  The preimages of the keys are not recorded, as in
  a node that does not ask for them.
\<close>

section \<open>The secure trie\<close>

definition TrimLeftZeroes :: "bytes \<Rightarrow> bytes" where
  "TrimLeftZeroes s = dropWhile (\<lambda>b. b = 0) s"

definition st_UpdateStorage ::
    "(bytes \<Rightarrow> hash) \<Rightarrow> loader \<Rightarrow> bytes \<Rightarrow> bytes \<Rightarrow> trie \<Rightarrow> (trie_error option \<times> trie) option" where
  "st_UpdateStorage keccak load key val t = trie_Update load (hash_bytes (keccak key)) (EncodeToBytes (Str val)) t"

definition st_DeleteStorage ::
    "(bytes \<Rightarrow> hash) \<Rightarrow> loader \<Rightarrow> bytes \<Rightarrow> trie \<Rightarrow> (trie_error option \<times> trie) option" where
  "st_DeleteStorage keccak load key t = trie_Delete load (hash_bytes (keccak key)) t"

text \<open>The content of the stored value: an error of the trie, or of its decoding.\<close>

definition st_GetStorage ::
    "(bytes \<Rightarrow> hash) \<Rightarrow> loader \<Rightarrow> bytes \<Rightarrow> trie \<Rightarrow> (((trie_error + rlp_error) + bytes) \<times> trie) option" where
  "st_GetStorage keccak load key t =
     map_option (\<lambda>(r, t).
       (case r of
          Inl e \<Rightarrow> Inl (Inl e)
        | Inr None \<Rightarrow> Inr []
        | Inr (Some b) \<Rightarrow>
            if b = [] then Inr []
            else (case Split b of Inl e \<Rightarrow> Inl (Inr e) | Inr (_, content, _) \<Rightarrow> Inr content), t))
       (trie_Get load (hash_bytes (keccak key)) t)"

section \<open>Writing the changed slots\<close>

text \<open>
  The first loop of \<open>updateTrie\<close> over the marked slots, in the order in which the map yields them: the
  values that are not zero are written, the other slots are collected.
\<close>

fun storage_updates ::
    "(bytes \<Rightarrow> hash) \<Rightarrow> loader \<Rightarrow> stateObject \<Rightarrow> hash list \<Rightarrow> trie \<Rightarrow> ((trie_error + hash list) \<times> trie) option" where
  "storage_updates keccak load obj [] t = Some (Inr [], t)"
| "storage_updates keccak load obj (key # keys) t =
     (let val = (case so_pendingStorage obj key of None \<Rightarrow> 0 | Some v \<Rightarrow> v)
      in if Some val = so_uncommittedStorage obj key then storage_updates keccak load obj keys t
         else if so_pendingStorage obj key = None then storage_updates keccak load obj keys t
         else if val \<noteq> 0 then
           Option.bind (st_UpdateStorage keccak load (hash_bytes key) (TrimLeftZeroes (hash_bytes val)) t) (\<lambda>(e, t).
             case e of
               Some e \<Rightarrow> Some (Inl e, t)
             | None \<Rightarrow> storage_updates keccak load obj keys t)
         else map_option (map_prod (map_sum id ((#) key)) id) (storage_updates keccak load obj keys t))"

fun storage_deletions ::
    "(bytes \<Rightarrow> hash) \<Rightarrow> loader \<Rightarrow> hash list \<Rightarrow> trie \<Rightarrow> (trie_error option \<times> trie) option" where
  "storage_deletions keccak load [] t = Some (None, t)"
| "storage_deletions keccak load (key # keys) t =
     Option.bind (st_DeleteStorage keccak load (hash_bytes key) t) (\<lambda>(e, t).
       case e of
         Some e \<Rightarrow> Some (Some e, t)
       | None \<Rightarrow> storage_deletions keccak load keys t)"

text \<open>\<open>keys\<close> is the order in which the range over the marked slots yields them.\<close>

definition so_updateTrie ::
    "(bytes \<Rightarrow> hash) \<Rightarrow> loader \<Rightarrow> hash list \<Rightarrow> stateObject \<Rightarrow> trie \<Rightarrow> (trie_error option \<times> stateObject \<times> trie) option" where
  "so_updateTrie keccak load keys obj t =
     (if keys = [] then Some (None, obj, t)
      else
        Option.bind (storage_updates keccak load obj keys t) (\<lambda>(r, t).
          case r of
            Inl e \<Rightarrow> Some (Some e, obj, t)
          | Inr deletions \<Rightarrow>
              Option.bind (storage_deletions keccak load deletions t) (\<lambda>(e, t).
                case e of
                  Some e \<Rightarrow> Some (Some e, obj, t)
                | None \<Rightarrow> Some (None, obj\<lparr>so_uncommittedStorage := Map.empty\<rparr>, t))))"

section \<open>Storage in a trie\<close>

definition slot_path :: "(bytes \<Rightarrow> hash) \<Rightarrow> hash \<Rightarrow> bytes" where
  "slot_path keccak key = hash_bytes (keccak (hash_bytes key))"

definition slot_binding :: "hash \<Rightarrow> bytes option" where
  "slot_binding v = (if v = 0 then None else Some (EncodeToBytes (Str (TrimLeftZeroes (hash_bytes v)))))"

text \<open>The trie holds the storage \<open>sto\<close>, whose slots in use are among \<open>K\<close>.\<close>

definition holds_storage :: "(bytes \<Rightarrow> hash) \<Rightarrow> loader \<Rightarrow> hash set \<Rightarrow> trie \<Rightarrow> (hash \<Rightarrow> hash) \<Rightarrow> bool" where
  "holds_storage keccak load K t sto \<longleftrightarrow>
     (\<exists>m. trie_holds load t m \<and> (\<forall>key \<in> K. m (slot_path keccak key) = slot_binding (sto key))) \<and>
     (\<forall>key. key \<notin> K \<longrightarrow> sto key = 0)"

abbreviation slot_written :: "stateObject \<Rightarrow> hash \<Rightarrow> bool" where
  "slot_written obj key \<equiv> so_pendingStorage obj key \<noteq> None \<and> so_pendingStorage obj key \<noteq> so_uncommittedStorage obj key"

text \<open>An object with one changed slot.\<close>

definition sample_written :: stateObject where
  "sample_written = (newObject sample_reader None)\<lparr>so_pendingStorage := [1 \<mapsto> 3], so_uncommittedStorage := [1 \<mapsto> 0]\<rparr>"

section \<open>Lemmas\<close>

lemma length_trimmed: "length (TrimLeftZeroes (hash_bytes v)) \<le> 32"
  using length_dropWhile_le[of "\<lambda>b. b = 0" "hash_bytes v"] by (simp add: TrimLeftZeroes_def hash_bytes_def)

lemma enc_short: "length c \<le> 32 \<Longrightarrow> length (enc (Str c)) \<le> 33"
  by (simp add: Rlp.header_def)

lemma enc_slot:
  "EncodeToBytes (Str (TrimLeftZeroes (hash_bytes v))) = enc (Str (TrimLeftZeroes (hash_bytes v)))"
  "EncodeToBytes (Str (TrimLeftZeroes (hash_bytes v))) \<noteq> []"
proof -
  have "length (enc (Str (TrimLeftZeroes (hash_bytes v)))) < 2 ^ 64"
    using enc_short[OF length_trimmed] by (rule le_less_trans) simp
  then show "EncodeToBytes (Str (TrimLeftZeroes (hash_bytes v))) = enc (Str (TrimLeftZeroes (hash_bytes v)))"
    using EncodeToBytes_enc by blast
  then show "EncodeToBytes (Str (TrimLeftZeroes (hash_bytes v))) \<noteq> []"
    using enc_nonempty by metis
qed

lemma Split_slot:
  "\<exists>k. Split (enc (Str (TrimLeftZeroes (hash_bytes v)))) = Inr (k, TrimLeftZeroes (hash_bytes v), [])"
proof -
  let ?c = "TrimLeftZeroes (hash_bytes v)"
  have "length (enc (Str ?c)) < 2 ^ 64" using enc_short[OF length_trimmed] by (rule le_less_trans) simp
  then have "SplitString (enc (Str ?c)) = Inr (?c, [])" using SplitString_iff by (metis append_Nil2)
  then show ?thesis by (auto simp: SplitString_def split: sum.splits if_splits)
qed

lemma holds_storage_write:
  assumes "inj_on (slot_path keccak) K" "key \<in> K" "\<forall>key \<in> K. m (slot_path keccak key) = slot_binding (sto key)"
  shows "\<forall>k \<in> K. (m(slot_path keccak key := slot_binding v)) (slot_path keccak k) = slot_binding ((sto(key := v)) k)"
  using assms by (auto simp: inj_on_def)

lemma holds_UpdateStorage:
  assumes "holds_storage keccak load K t sto" "inj_on (slot_path keccak) K" "key \<in> K" "v \<noteq> 0"
  shows "\<exists>t'. st_UpdateStorage keccak load (hash_bytes key) (TrimLeftZeroes (hash_bytes v)) t = Some (None, t') \<and>
    holds_storage keccak load K t' (sto(key := v))"
proof -
  from assms(1) obtain m where m: "trie_holds load t m" "\<forall>key \<in> K. m (slot_path keccak key) = slot_binding (sto key)"
    "\<forall>key. key \<notin> K \<longrightarrow> sto key = 0" by (auto simp: holds_storage_def)
  from holds_insert[OF m(1) enc_slot(2)[of v], of "slot_path keccak key"] obtain t' where
    t': "st_UpdateStorage keccak load (hash_bytes key) (TrimLeftZeroes (hash_bytes v)) t = Some (None, t')"
    "trie_holds load t' (m(slot_path keccak key := slot_binding v))"
    using assms(4) by (auto simp: st_UpdateStorage_def slot_path_def slot_binding_def)
  then have "holds_storage keccak load K t' (sto(key := v))"
    using holds_storage_write[OF assms(2,3) m(2), of v] m(3) assms(3) unfolding holds_storage_def by auto
  then show ?thesis using t'(1) by blast
qed

lemma holds_DeleteStorage:
  assumes "holds_storage keccak load K t sto" "inj_on (slot_path keccak) K" "key \<in> K"
  shows "\<exists>t'. st_DeleteStorage keccak load (hash_bytes key) t = Some (None, t') \<and>
    holds_storage keccak load K t' (sto(key := 0))"
proof -
  from assms(1) obtain m where m: "trie_holds load t m" "\<forall>key \<in> K. m (slot_path keccak key) = slot_binding (sto key)"
    "\<forall>key. key \<notin> K \<longrightarrow> sto key = 0" by (auto simp: holds_storage_def)
  from holds_delete[OF m(1), of "slot_path keccak key"] obtain t' where
    t': "st_DeleteStorage keccak load (hash_bytes key) t = Some (None, t')"
    "trie_holds load t' (m(slot_path keccak key := slot_binding 0))"
    by (auto simp: st_DeleteStorage_def slot_path_def slot_binding_def)
  then have "holds_storage keccak load K t' (sto(key := 0))"
    using holds_storage_write[OF assms(2,3) m(2), of 0] m(3) assms(3) unfolding holds_storage_def by auto
  then show ?thesis using t'(1) by blast
qed

lemma storage_deletions_ok:
  assumes "holds_storage keccak load K t sto" "inj_on (slot_path keccak) K" "set keys \<subseteq> K"
  shows "\<exists>t'. storage_deletions keccak load keys t = Some (None, t') \<and>
    holds_storage keccak load K t' (\<lambda>k. if k \<in> set keys then 0 else sto k)"
  using assms
proof (induction keys arbitrary: t sto)
  case (Cons key keys)
  from holds_DeleteStorage[OF Cons.prems(1,2), of key] Cons.prems(3) obtain t1 where
    t1: "st_DeleteStorage keccak load (hash_bytes key) t = Some (None, t1)"
    "holds_storage keccak load K t1 (sto(key := 0))" by auto
  have "(\<lambda>k. if k \<in> set keys then 0 else (sto(key := 0)) k) = (\<lambda>k. if k \<in> set (key # keys) then 0 else sto k)" by auto
  with Cons.IH[OF t1(2) Cons.prems(2)] Cons.prems(3) t1(1) show ?case by auto
qed simp

lemma storage_updates_ok:
  assumes "holds_storage keccak load K t sto" "inj_on (slot_path keccak) K" "set keys \<subseteq> K"
    "set keys \<subseteq> dom (so_uncommittedStorage obj)"
  shows "\<exists>t'. storage_updates keccak load obj keys t =
      Some (Inr (filter (\<lambda>k. slot_written obj k \<and> so_pendingStorage obj k = Some 0) keys), t') \<and>
    holds_storage keccak load K t' (\<lambda>k. if k \<in> set keys \<and> slot_written obj k \<and> so_pendingStorage obj k \<noteq> Some 0
                                       then the (so_pendingStorage obj k) else sto k)"
  using assms
proof (induction keys arbitrary: t sto)
  case (Cons key keys)
  let ?s = "\<lambda>sto keys k. if k \<in> set keys \<and> slot_written obj k \<and> so_pendingStorage obj k \<noteq> Some 0
      then the (so_pendingStorage obj k) else sto k"
  from Cons.prems(4) obtain orig where orig: "so_uncommittedStorage obj key = Some orig" by auto
  show ?case
  proof (cases "slot_written obj key \<and> so_pendingStorage obj key \<noteq> Some 0")
    case False
    have "?s sto keys = ?s sto (key # keys)" using False by (auto simp: fun_eq_iff)
    moreover obtain t' where "storage_updates keccak load obj keys t =
        Some (Inr (filter (\<lambda>k. slot_written obj k \<and> so_pendingStorage obj k = Some 0) keys), t')"
      "holds_storage keccak load K t' (?s sto keys)" using Cons.IH[OF Cons.prems(1,2)] Cons.prems(3,4) by auto
    ultimately show ?thesis using False orig by (auto simp: Let_def split: option.splits)
  next
    case True
    then obtain v where v: "so_pendingStorage obj key = Some v" "v \<noteq> 0" "v \<noteq> orig" using orig by auto
    from holds_UpdateStorage[OF Cons.prems(1,2) _ v(2), of key] Cons.prems(3) obtain t1 where
      t1: "st_UpdateStorage keccak load (hash_bytes key) (TrimLeftZeroes (hash_bytes v)) t = Some (None, t1)"
      "holds_storage keccak load K t1 (sto(key := v))" by auto
    have "?s (sto(key := v)) keys = ?s sto (key # keys)" using True v by (auto simp: fun_eq_iff)
    moreover obtain t' where "storage_updates keccak load obj keys t1 =
        Some (Inr (filter (\<lambda>k. slot_written obj k \<and> so_pendingStorage obj k = Some 0) keys), t')"
      "holds_storage keccak load K t' (?s (sto(key := v)) keys)" using Cons.IH[OF t1(2) Cons.prems(2)] Cons.prems(3,4) by auto
    ultimately show ?thesis using v orig t1(1) by auto
  qed
qed simp

lemma updateTrie_ok:
  assumes "holds_storage keccak load K t sto" "inj_on (slot_path keccak) K"
    "set keys = dom (so_uncommittedStorage obj)" "set keys \<subseteq> K"
  shows "\<exists>t'. so_updateTrie keccak load keys obj t = Some (None, fst (obj_updateTrie obj sto), t') \<and>
    holds_storage keccak load K t' (snd (obj_updateTrie obj sto))"
proof (cases "keys = []")
  case True
  then have "so_uncommittedStorage obj = Map.empty" using assms(3) by auto
  then show ?thesis using True assms(1) by (simp add: so_updateTrie_def obj_updateTrie_def)
next
  case False
  let ?ds = "filter (\<lambda>k. slot_written obj k \<and> so_pendingStorage obj k = Some 0) keys"
  let ?s = "\<lambda>k. if k \<in> set keys \<and> slot_written obj k \<and> so_pendingStorage obj k \<noteq> Some 0
      then the (so_pendingStorage obj k) else sto k"
  from storage_updates_ok[OF assms(1,2,4) equalityD1[OF assms(3)]] obtain t1 where
    t1: "storage_updates keccak load obj keys t = Some (Inr ?ds, t1)" "holds_storage keccak load K t1 ?s" by blast
  from storage_deletions_ok[OF t1(2) assms(2), of ?ds] assms(4) obtain t2 where
    t2: "storage_deletions keccak load ?ds t1 = Some (None, t2)"
    "holds_storage keccak load K t2 (\<lambda>k. if k \<in> set ?ds then 0 else ?s k)" by auto
  have "(\<lambda>k. if k \<in> set ?ds then 0 else ?s k) = snd (obj_updateTrie obj sto)"
    unfolding assms(3) set_filter obj_updateTrie_def by (auto simp: fun_eq_iff split: option.split)
  then show ?thesis using t1(1) t2 False by (simp add: so_updateTrie_def obj_updateTrie_def)
qed

lemma GetStorage_ok:
  assumes "holds_storage keccak load K t sto" "key \<in> K"
  shows "\<exists>t'. st_GetStorage keccak load (hash_bytes key) t = Some (Inr (TrimLeftZeroes (hash_bytes (sto key))), t')"
proof -
  from assms obtain m where m: "trie_holds load t m" "m (slot_path keccak key) = slot_binding (sto key)"
    by (auto simp: holds_storage_def)
  have zero: "TrimLeftZeroes (hash_bytes 0) = []" by (simp add: TrimLeftZeroes_def hash_bytes_def be_bytes_0)
  from holds_get[OF m(1), of "slot_path keccak key"] obtain t' where
    "trie_Get load (slot_path keccak key) t = Some (Inr (slot_binding (sto key)), t')" by (auto simp: m(2))
  then show ?thesis using Split_slot[of "sto key"] enc_slot[of "sto key"] zero
    by (auto simp: st_GetStorage_def slot_path_def slot_binding_def)
qed

lemma empty_storage: "holds_storage keccak load {1} (sample_trie NilNode) (\<lambda>_. 0)"
proof -
  have "trie_holds load (sample_trie NilNode) Map.empty"
    using expands_nil by (auto simp: trie_holds_def sample_trie_def node_slot_def intro!: exI[of _ NilNode])
  then show ?thesis by (auto simp: holds_storage_def slot_binding_def intro!: exI[of _ Map.empty])
qed

section \<open>Properties\<close>

text \<open>
  C5: Writing an account's changed slots into its storage trie gives the storage the state object
  stands for.  When the hash separates the slots in use, \<open>updateTrie\<close> succeeds for every order in which
  the marked slots are visited, clears the marks, leaves a trie that holds the written storage, and
  \<open>GetStorage\<close> then returns each slot's value without its leading zeros.
\<close>

theorem storage_trie_refines:
  assumes "holds_storage keccak load K t sto" "inj_on (slot_path keccak) K"
    "set keys = dom (so_uncommittedStorage obj)" "set keys \<subseteq> K" "key \<in> K"
  shows "\<exists>t' t''. so_updateTrie keccak load keys obj t = Some (None, fst (obj_updateTrie obj sto), t') \<and>
    holds_storage keccak load K t' (snd (obj_updateTrie obj sto)) \<and>
    st_GetStorage keccak load (hash_bytes key) t' =
      Some (Inr (TrimLeftZeroes (hash_bytes (snd (obj_updateTrie obj sto) key))), t'')"
  using updateTrie_ok[OF assms(1-4)] GetStorage_ok[OF _ assms(5)] by blast

theorem storage_trie_refines_witness:
  "\<exists>t' t''. so_updateTrie (\<lambda>_. 0) no_nodes [1] sample_written (sample_trie NilNode) =
      Some (None, fst (obj_updateTrie sample_written (\<lambda>_. 0)), t') \<and>
    st_GetStorage (\<lambda>_. 0) no_nodes (hash_bytes 1) t' = Some (Inr (TrimLeftZeroes (hash_bytes 3)), t'')"
proof -
  have "set [1] = dom (so_uncommittedStorage sample_written)" by (simp add: sample_written_def)
  from storage_trie_refines[OF empty_storage[of "\<lambda>_. 0" no_nodes] _ this, of 1] show ?thesis
    by (auto simp: sample_written_def obj_updateTrie_def)
qed

end
