(* ===== verification/Spec2Isabelle.thy ===== *)
theory Spec2Isabelle
  imports Randomx_Rewards Speculative_Delta Gas_Rules Headers Storage_Trie
begin

text \<open>
  A verification library for parts of go-tkmchain, a fork of go-ethereum with RandomX proof of
  work, rewards paid to a Main King and to rotating kings, and the Antartical rules for parallel
  execution. File names below are relative to \<open>src/\<close>.

  \<^bold>\<open>Conventions.\<close> A Go \<open>uintN\<close> is an \<open>N word\<close>, so arithmetic wraps as in Go; a \<open>*big.Int\<close> is an
  \<open>int\<close> (an \<open>int option\<close> where the code tests for nil); addresses and hashes are words of 160 and
  256 bits; byte slices are lists of bytes; structs are records and keep the source's field names
  with a short prefix. Errors are values of a datatype per component, usually on the left of a sum;
  a panic or a loop that does not return is None. The hash function, the hash of a transaction,
  the clock, the database reader and the state root are arguments, because their code is not part
  of the sources or is not modelled. Where a statement needs that a hash does not collide, it says
  so for the byte strings in question. Log lines, metrics and locks are left out.

  \<^bold>\<open>Theories.\<close>

  \<^item> \<open>Prelude\<close>: byte strings, big-endian codecs, searches of the \<open>bytes\<close> and \<open>sort\<close> packages, words.
  \<^item> \<open>Chain_Config\<close> (\<open>params/config.go\<close>, \<open>core/types/block.go\<close>): fork predicates and headers.
  \<^item> \<open>Decimal\<close>: decimal text of integers, used by \<open>Rewards\<close>.
  \<^item> \<open>State\<close> (\<open>core/state\<close>, as the consensus code sees it): balances and storage words, with the
    locales \<open>ledger\<close> and \<open>debit_ledger\<close> for what the reward code needs of them.
  \<^item> \<open>Rewards\<close> (\<open>consensus/randomx/reward.go\<close>, \<open>consensus/antartical/rewards.go\<close>): block reward,
    halving, supply, the split of a reward and its payment, amounts as text.
  \<^item> \<open>King_Schedule\<close>: the rotation loop shared by the manager and the two builds of the engine, as
    the locale \<open>king_schedule\<close>; a loop over block heights that need not return.
  \<^item> \<open>Rotating_King\<close> (\<open>consensus/rotatingking\<close>): the manager, rotation by eligibility,
    registration with its hash, legacy distribution.
  \<^item> \<open>Reward_Tx\<close> (\<open>core/types/transaction.go\<close>): the synthetic reward transactions.
  \<^item> \<open>Randomx_Rewards\<close> (\<open>consensus/randomx/randomx.go\<close>, \<open>randomx_nocgo.go\<close>): finalization, block
    assembly, reward markers, historical finalization.
  \<^item> \<open>Rlp\<close> (\<open>rlp/encbuffer.go\<close>, \<open>encode.go\<close>, \<open>raw.go\<close>, \<open>iterator.go\<close>): the encoder buffer, splitting,
    raw lists, iterators.
  \<^item> \<open>Waves\<close> (\<open>consensus/antartical/parallel.go\<close>, \<open>profile.go\<close>): access sets, waves, optimistic
    execution under every order of completion, conflict transcripts.
  \<^item> \<open>Access_List\<close>, \<open>Statedb\<close> (\<open>core/state\<close>: \<open>access_list.go\<close>, \<open>statedb.go\<close>, \<open>state_object.go\<close>,
    \<open>journal.go\<close>, \<open>transient_storage.go\<close>): the journaled state. \<open>Statedb_Revert\<close> proves what
    reverting restores, \<open>Statedb_Commit\<close> what the end of a transaction and the write-back do.
  \<^item> \<open>Speculative\<close>, \<open>Speculative_Delta\<close> (\<open>core/state/speculative_delta.go\<close>): write-sets of
    speculative executions, their validation and merge.
  \<^item> \<open>Gas_Rules\<close> (\<open>core/gaspool.go\<close>, \<open>core/parallel_state.go\<close>, \<open>consensus/misc/gaslimit.go\<close>,
    \<open>core/block_validator.go\<close>, \<open>consensus/misc/eip1559/eip1559.go\<close>): the gas pool and the accounting of the
    parallel executor, gas limits, base fees.
  \<^item> \<open>Anchors\<close> (\<open>consensus/antartical/anchors.go\<close>, \<open>consensus/randomx/anchor_validation.go\<close>,
    \<open>core/tkm_block_hash_anchor.go\<close>): block-hash anchors in headers and in the state.
  \<^item> \<open>Headers\<close> (\<open>consensus/randomx/randomx.go\<close>, \<open>consensus/misc/dao.go\<close>): seal hash, verification of seals and
    headers, difficulty, seeds.
  \<^item> \<open>Trie_Keys\<close> (\<open>trie/encoding.go\<close>) and \<open>Trie\<close> (\<open>trie/trie.go\<close>, \<open>trie/node.go\<close>): the key encodings and
    the Merkle Patricia trie in memory. A loader, an argument of the operations, stands for the node
    reader of the database and the decoding of nodes; \<open>expands\<close> relates a partly loaded node to the
    node it stands for, \<open>canon\<close> is the minimal form and \<open>look\<close> the value under a path.
  \<^item> \<open>Storage_Trie\<close> (\<open>trie/secure_trie.go\<close>, \<open>core/state/state_object.go\<close>): storage slots in the secure trie
    and the loops of \<open>updateTrie\<close> that write the changed slots.

  \<^bold>\<open>How the parts interact.\<close> The engine pays rewards through the interface that \<open>State\<close> states as
  \<open>debit_ledger\<close>; \<open>State\<close> interprets it on plain maps and \<open>Statedb_Commit\<close> on the journaled state,
  so the conservation lemmas hold for both. The manager and the engine interpret \<open>king_schedule\<close> on
  their own lists of kings. A block of the parallel executor is scheduled by \<open>Waves\<close>, executed on
  \<open>Statedb\<close> and merged by \<open>Speculative\<close>. Commitments of transcripts use the encoder of \<open>Rlp\<close>.
  Seal hashes use the same encoder, and header verification calls the anchor check; the anchor
  contract writes through the operations of \<open>Statedb\<close>. The state objects of \<open>Statedb\<close> write their slots,
  encoded by \<open>Rlp\<close>, into the tries of \<open>Trie\<close>.

  \<^bold>\<open>What is shown.\<close> Rewards: the schedule in closed form, supply and its cap, payments that create
  exactly the scheduled amount, assembled blocks that importers reproduce and the configurations
  in which they do not. Kings: the king of a
  height is an active one, each in turn; the invariant of the manager; where the schedule diverges.
  RLP: the two-pass encoder equals the recursive encoding, the splitter accepts exactly canonical
  encodings, round trips, termination of the loops over values. Scheduling: waves partition the
  block and are free of conflicts, and transactions of a wave commute. Optimistic
  execution has the same result for every order of completion, up to which error is reported. State:
  reverting restores every observable value, the dirty marks are complete, and the well-formedness
  invariant holds between transactions, all for calls that set code only where the old code is loaded
  or empty and create only absent accounts (\<open>calls_ok\<close>; without the first condition code is lost,
  which is shown); storage is written back exactly. Deltas: a delta applied to its starting state
  reproduces the execution except for the clearing of code, and a changed precondition is noticed;
  further statements show that clearing code and stale reads of balances are not covered.
  Headers: seals bind the sealed fields and carry the proof of work their difficulty asks for (a
  difficulty that is not itself verified, which is shown as well); anchors bind the history of the
  chain and the contract records it; difficulty, gas limit and base fee stay in their ranges, gas
  limits converge, and the gas of receipts adds up.
  Tries: the operations behave as those of a map, whatever is loaded, the nodes are determined by the
  bindings alone, compact keys round-trip, and a deletion that fails to load the
  last other child of a full node is shown to remove the key all the same.
  The storage trie of an account ends up with the storage its state object stands for.

  \<^bold>\<open>Bounds and fuel.\<close> No statement is restricted to small inputs. Loops are structural recursions
  or have a termination proof; the rotation loop is a \<open>partial_function\<close> that is None where the Go
  loop does not return, with the theorem that says when it returns. Recursions over byte strings
  decrease their length. Sums of balances and gas are stated over the integers, and the words hold
  them under the stated bounds.
  The trie operations are partial functions, since a loader may bring short nodes without keys forever;
  the refinement theorem proves that they return on every trie whose nodes can be loaded.

  \<^bold>\<open>Not modelled.\<close> The virtual machine (\<open>core/vm\<close>), transaction processing and the block chain
  (\<open>core/state_transition.go\<close>, \<open>state_processor.go\<close>, \<open>blockchain.go\<close>): the executor is an argument
  of the models that use it. The RandomX hash itself is C code that is not in the sources. Shielded
  transfers and their provers (\<open>core/shielded_*\<close>, \<open>zk\<close>) rest on pairing libraries outside the
  sources. Of the trie, the decoding, hashing and commit of nodes, proofs, iterators and
  synchronisation are left out: they work on encoded nodes and on the database. Databases (\<open>ethdb\<close>,
  \<open>core/rawdb\<close>, \<open>triedb\<close>), networking and synchronisation (\<open>p2p\<close>,
  \<open>eth\<close>, \<open>tkmnet\<close>), the transaction pool, mining loops, RPC, command-line tools, wallets and consoles are
  input, output and concurrency around external systems. Floating-point difficulty
  (\<open>consensus/randomx/difficulty.go\<close>) would need IEEE arithmetic, which the available library
  does not have.
\<close>

end
